(* ===== verification/Prelude.thy ===== *)
theory Prelude
  imports Complex_Main "HOL-Library.Word"
begin

unbundle bit_operations_syntax

text \<open>
  Shared vocabulary of the development: the exceptions of the program as one error
  datatype, results as a sum, Python's numbers where the code mixes \<open>int\<close> and
  \<open>float\<close>, byte strings, and the generic lemmas on lists, words and bit masks
  that the components use.  The collections \<open>flag_simps\<close>, \<open>codec_simps\<close>,
  \<open>lock_simps\<close> and \<open>store_simps\<close> gather the facts that a group of proofs
  unfolds together.
\<close>

named_theorems flag_simps \<open>unfolding of flag masks and parsers\<close>
named_theorems codec_simps \<open>unfolding of byte-level encoders and decoders\<close>
named_theorems lock_simps \<open>unfolding of lock operations\<close>
named_theorems store_simps \<open>lookup after update of key tables and stores\<close>

section \<open>Errors and results\<close>

text \<open>The exceptions the modelled code raises or catches.\<close>

datatype py_error =
    TypeError | ValueError | KeyError | IndexError | StructError | RuntimeError
  | RecursionError | UnicodeError | FileNotFoundError | BlockingIOError
  | JTypeError | JKeyError | JValueError | FileLockException | NotRegisteredError
  | NotImplemented | OverflowError

type_synonym 'a res = "py_error + 'a"

definition res_bind :: "'a res \<Rightarrow> ('a \<Rightarrow> 'b res) \<Rightarrow> 'b res" where
  "res_bind m f = (case m of Inl e \<Rightarrow> Inl e | Inr x \<Rightarrow> f x)"

lemma res_bind_simps [simp]:
  "res_bind (Inl e) f = Inl e"
  "res_bind (Inr x) f = f x"
  by (simp_all add: res_bind_def)

lemma res_bind_cong [fundef_cong]:
  "m = m' \<Longrightarrow> (\<And>x. m' = Inr x \<Longrightarrow> f x = g x) \<Longrightarrow> res_bind m f = res_bind m' g"
  by (cases m') (auto simp: res_bind_def)

lemma res_bind_Inr_iff:
  "res_bind m f = Inr y \<longleftrightarrow> (\<exists>x. m = Inr x \<and> f x = Inr y)"
  by (cases m) auto

lemma res_bind_Inl_iff:
  "res_bind m f = Inl e \<longleftrightarrow> m = Inl e \<or> (\<exists>x. m = Inr x \<and> f x = Inl e)"
  by (cases m) auto

section \<open>Numbers\<close>

text \<open>
  A Python value that is an \<open>int\<close> or a \<open>float\<close>.  The constructor records the
  type, because shifts and masks raise \<open>TypeError\<close> on a float; a float carries its
  exact rational value (the arithmetic here is exact, and the statements about
  fractional days leave room for the rounding of binary floats).
\<close>

datatype pynum = PI int | PF rat

fun num_val :: "pynum \<Rightarrow> rat" where
  "num_val (PI i) = of_int i"
| "num_val (PF r) = r"

definition py_trunc :: "rat \<Rightarrow> int" where
  "py_trunc r = (if 0 \<le> r then \<lfloor>r\<rfloor> else \<lceil>r\<rceil>)"

text \<open>Python's \<open>round\<close>: to the nearest integer, ties to the even one.\<close>

definition py_round :: "rat \<Rightarrow> int" where
  "py_round r =
     (let f = \<lfloor>r\<rfloor>; d = r - of_int f
      in if d < 1/2 then f else if 1/2 < d then f + 1 else if even f then f else f + 1)"

lemma py_trunc_of_int [simp]: "py_trunc (of_int i) = i"
  by (simp add: py_trunc_def)

lemma py_trunc_nonneg: "0 \<le> r \<Longrightarrow> py_trunc r = \<lfloor>r\<rfloor>"
  by (simp add: py_trunc_def)

lemma py_round_of_int [simp]: "py_round (of_int i) = i"
  by (simp add: py_round_def)

text \<open>Anything closer than one half to an integer rounds to that integer.\<close>

lemma py_round_near:
  assumes "\<bar>r - of_int n\<bar> < 1/2"
  shows "py_round r = n"
proof (cases "of_int n \<le> r")
  case True
  with assms have "\<lfloor>r\<rfloor> = n" by (simp add: floor_eq_iff)
  with assms True show ?thesis by (simp add: py_round_def)
next
  case False
  with assms have "\<lfloor>r\<rfloor> = n - 1" by (simp add: floor_eq_iff)
  with assms False show ?thesis by (simp add: py_round_def)
qed

section \<open>Bytes\<close>

type_synonym byte = "8 word"
type_synonym bytes = "byte list"

text \<open>The byte of a natural number below 256 (as \<open>struct\<close> packs it).\<close>

definition byte_of :: "nat \<Rightarrow> byte" where
  "byte_of n = word_of_nat n"

lemma unat_byte_of: "unat (byte_of n) = n mod 256"
  by (simp add: byte_of_def unat_of_nat)

lemma unat_byte_of_small [simp]: "n < 256 \<Longrightarrow> unat (byte_of n) = n"
  by (simp add: unat_byte_of)

lemma unat_byte_less [simp]: "unat (b :: byte) < 256"
  using unsigned_less [of b, where ?'a = nat] by simp

lemma byte_of_unat [simp]: "byte_of (unat b) = b"
  by (simp add: byte_of_def)

lemma byte_of_inject: "m < 256 \<Longrightarrow> n < 256 \<Longrightarrow> byte_of m = byte_of n \<longleftrightarrow> m = n"
  by (metis unat_byte_of_small)

text \<open>Big-endian encoding of a natural number in \<open>k\<close> bytes, and its inverse.\<close>

fun be_bytes :: "nat \<Rightarrow> nat \<Rightarrow> bytes" where
  "be_bytes 0 n = []"
| "be_bytes (Suc k) n = be_bytes k (n div 256) @ [byte_of (n mod 256)]"

definition be_val :: "bytes \<Rightarrow> nat" where
  "be_val bs = foldl (\<lambda>a b. a * 256 + unat b) 0 bs"

lemma length_be_bytes [simp]: "length (be_bytes k n) = k"
  by (induction k arbitrary: n) auto

lemma be_val_snoc [simp]: "be_val (bs @ [b]) = be_val bs * 256 + unat b"
  by (simp add: be_val_def)

lemma be_val_Nil [simp]: "be_val [] = 0"
  by (simp add: be_val_def)

lemma be_val_be_bytes: "be_val (be_bytes k n) = n mod 256 ^ k"
proof (induction k arbitrary: n)
  case 0
  then show ?case by simp
next
  case (Suc k)
  have "be_val (be_bytes (Suc k) n) = (n div 256) mod 256 ^ k * 256 + n mod 256"
    using Suc by simp
  also have "\<dots> = n mod (256 * 256 ^ k)"
    by (simp add: mod_mult2_eq)
  finally show ?case by simp
qed

lemma be_val_be_bytes_id [simp]: "n < 256 ^ k \<Longrightarrow> be_val (be_bytes k n) = n"
  by (simp add: be_val_be_bytes)

lemma be_val_bound: "be_val bs < 256 ^ length bs"
proof (induction bs rule: rev_induct)
  case Nil
  then show ?case by simp
next
  case (snoc b bs)
  show ?case using snoc unat_byte_less [of b] by (simp del: unat_byte_less)
qed

section \<open>Lists\<close>

lemma take_drop_append_mid:
  assumes "length xs = i" and "length ys = n"
  shows "take n (drop i (xs @ ys @ zs)) = ys"
  using assms by simp

lemma nth_append_mid: "length xs = i \<Longrightarrow> (xs @ y # zs) ! i = y"
  by (simp add: nth_append)

lemma map_of_filter_neq:
  "map_of (filter (\<lambda>p. fst p \<noteq> k) al) = (map_of al)(k := None)"
  by (induction al) auto


section \<open>Bit fields\<close>

text \<open>The \<open>w\<close> bits of an integer from bit \<open>s\<close> on, and how they read out of a union.\<close>

definition bit_field :: "nat \<Rightarrow> nat \<Rightarrow> int \<Rightarrow> int" where
  "bit_field s w x = take_bit w (drop_bit s x)"

lemma bit_bit_field: "bit (bit_field s w x) n \<longleftrightarrow> n < w \<and> bit x (s + n)"
  by (auto simp: bit_field_def bit_simps ac_simps)

lemma small_int_bit: "0 \<le> d \<Longrightarrow> d < 2 ^ w \<Longrightarrow> bit (d :: int) n \<Longrightarrow> n < w"
  by (metis bit_take_bit_iff take_bit_int_eq_self)

lemma and_mask_field: "x AND mask w = bit_field 0 w x"
  by (rule bit_eqI) (auto simp: bit_bit_field bit_simps)

lemma drop_and_mask_field: "drop_bit s (x AND push_bit s (mask w)) = bit_field s w x"
  by (rule bit_eqI) (auto simp: bit_bit_field bit_simps ac_simps)

lemma drop_shifted_and_mask: "drop_bit s x AND mask w = bit_field s w x"
  by (rule bit_eqI) (auto simp: bit_bit_field bit_simps ac_simps)

lemma push_and_mask_field: "push_bit s x AND push_bit s (mask w) = push_bit s (bit_field 0 w x)"
  by (rule bit_eqI) (auto simp: bit_bit_field bit_simps)

lemma bit_field_or: "bit_field s w (x OR y) = bit_field s w x OR bit_field s w y"
  by (rule bit_eqI) (auto simp: bit_bit_field bit_simps)

lemma bit_field_id: "0 \<le> d \<Longrightarrow> d < 2 ^ w \<Longrightarrow> bit_field 0 w d = d"
  by (simp add: bit_field_def take_bit_int_eq_self)

lemma bit_field_push: "0 \<le> d \<Longrightarrow> d < 2 ^ w \<Longrightarrow> bit_field s w (push_bit s d) = d"
  by (rule bit_eqI) (auto simp: bit_bit_field bit_simps dest: small_int_bit)

lemma bit_field_below: "0 \<le> c \<Longrightarrow> c < 2 ^ v \<Longrightarrow> v + t \<le> s \<Longrightarrow> bit_field s w (push_bit t c) = 0"
  by (rule bit_eqI) (auto simp: bit_bit_field bit_simps dest!: small_int_bit)

lemma bit_field_below0: "0 \<le> c \<Longrightarrow> c < 2 ^ s \<Longrightarrow> bit_field s w c = 0"
  by (rule bit_eqI) (auto simp: bit_bit_field bit_simps dest!: small_int_bit)

lemma bit_field_above: "s + w \<le> t \<Longrightarrow> bit_field s w (push_bit t c) = 0"
  by (rule bit_eqI) (auto simp: bit_bit_field bit_simps)

lemma bit_field_bounds [simp]: "0 \<le> bit_field s w x" "bit_field s w x < 2 ^ w"
  by (simp_all add: bit_field_def)

lemma bit_field_0 [simp]: "bit_field s w 0 = 0"
  by (simp add: bit_field_def)

lemma bit_field_nested: "bit_field 0 v (bit_field s w x) = bit_field s (min v w) x"
  by (rule bit_eqI) (auto simp: bit_bit_field)

lemma and_single_bit: "x AND push_bit n (1::int) = 0 \<longleftrightarrow> \<not> bit x n"
  by (simp add: push_bit_of_1 and_exp_eq_0_iff_not_bit)

lemma int_or_less_exp:
  fixes x y :: int
  assumes "0 \<le> x" "x < 2 ^ n" "0 \<le> y" "y < 2 ^ n"
  shows "x OR y < 2 ^ n"
  using assms by (intro OR_upper)

lemma push_bit_less_exp:
  fixes x :: int
  assumes "0 \<le> x" "x < 2 ^ w" "w + s \<le> n"
  shows "push_bit s x < 2 ^ n"
proof -
  have "push_bit s x = x * 2 ^ s" by (simp add: push_bit_eq_mult)
  also have "\<dots> < 2 ^ w * 2 ^ s" using assms by simp
  also have "\<dots> \<le> 2 ^ n" using assms(3) by (simp flip: power_add add: power_increasing)
  finally show ?thesis .
qed

section \<open>Dictionaries\<close>

text \<open>A dictionary as its list of items; assignment keeps the place of a key.\<close>

fun assoc_set :: "'k \<Rightarrow> 'v \<Rightarrow> ('k \<times> 'v) list \<Rightarrow> ('k \<times> 'v) list" where
  "assoc_set k v [] = [(k, v)]"
| "assoc_set k v ((k', v') # al) = (if k' = k then (k', v) # al else (k', v') # assoc_set k v al)"

definition assoc_del :: "'k \<Rightarrow> ('k \<times> 'v) list \<Rightarrow> ('k \<times> 'v) list" where
  "assoc_del k al = filter (\<lambda>p. fst p \<noteq> k) al"

lemma map_of_assoc_set [simp]: "map_of (assoc_set k v al) = (map_of al)(k \<mapsto> v)"
  by (induction al) auto

lemma map_of_assoc_del [simp]: "map_of (assoc_del k al) = (map_of al)(k := None)"
proof
  show "map_of (assoc_del k al) x = ((map_of al)(k := None)) x" for x
    by (induction al) (auto simp: assoc_del_def)
qed

lemma keys_assoc_set:
  "map fst (assoc_set k v al) = (if k \<in> fst ` set al then map fst al else map fst al @ [k])"
  by (induction al) (force split: if_splits)+

lemma set_keys_assoc_set [simp]: "fst ` set (assoc_set k v al) = insert k (fst ` set al)"
  by (metis keys_assoc_set Un_insert_right insert_absorb list.set_map list.simps(15) set_append
      sup_bot.right_neutral list.set(1))

lemma set_keys_assoc_del [simp]: "fst ` set (assoc_del k al) = fst ` set al - {k}"
  by (auto simp: assoc_del_def)

lemma set_assoc_set: "set (assoc_set k v al) \<subseteq> insert (k, v) (set al)"
  by (induction al) (auto split: if_splits)

lemma assoc_set_neq_Nil [simp]: "assoc_set k v al \<noteq> []"
  by (metis insert_not_empty list.set(1) image_empty set_keys_assoc_set)

lemma length_assoc_set:
  "length (assoc_set k v al) = (if k \<in> fst ` set al then length al else Suc (length al))"
  by (metis keys_assoc_set length_append_singleton length_map)

lemma assoc_set_twice [simp]: "assoc_set k v (assoc_set k w al) = assoc_set k v al"
  by (induction al) (auto split: if_splits)

lemma assoc_set_same: "map_of al k = Some v \<Longrightarrow> assoc_set k v al = al"
  by (induction al) (auto split: if_splits)

lemma distinct_assoc:
  "distinct (map fst al) \<Longrightarrow> distinct (map fst (assoc_set k v al))"
  "distinct (map fst al) \<Longrightarrow> distinct (map fst (assoc_del k al))"
  by (auto simp: keys_assoc_set assoc_del_def distinct_map_filter)

lemma assoc_del_Nil:
  "distinct (map fst al) \<Longrightarrow> k \<in> fst ` set al \<Longrightarrow> assoc_del k al = [] \<longleftrightarrow> map fst al = [k]"
proof (cases al)
  case (Cons x xs)
  assume d: "distinct (map fst al)"
  have "filter (\<lambda>p. fst p \<noteq> k) xs = xs" if "fst x = k"
  proof (rule filter_True, rule ballI)
    fix y assume "y \<in> set xs"
    then have "fst y \<in> set (map fst xs)" by simp
    moreover from d Cons that have "k \<notin> set (map fst xs)" by simp
    ultimately show "fst y \<noteq> k" by metis
  qed
  with Cons show ?thesis by (auto simp: assoc_del_def)
qed (simp add: assoc_del_def)

lemma pos_assoc:
  "\<forall>x \<in> set al. 0 < snd x \<Longrightarrow> 0 < v \<Longrightarrow> \<forall>x \<in> set (assoc_set k v al). 0 < (snd x :: nat)"
  "\<forall>x \<in> set al. 0 < snd x \<Longrightarrow> \<forall>x \<in> set (assoc_del k al). 0 < (snd x :: nat)"
  using set_assoc_set [of k v al] by (auto simp: assoc_del_def)

lemma holds_iff: "map_of al k \<noteq> None \<longleftrightarrow> k \<in> fst ` set al"
  by (simp add: map_of_eq_None_iff)

end
