(* ===== verification/Key_Flags.thy ===== *)
theory Key_Flags
  imports Prelude
begin

text \<open>
  \<open>omni_json_db/utils.py\<close>: the per-record flags \<open>JKeyFlag\<close> with their letters, the
  masks built from them, the parser \<open>conv_to_key_flags\<close> of \<open>chmod\<close>-style strings,
  \<open>pop_transient_flags\<close>, and \<open>JFlag\<close>.  Masks are Python integers and so are
  mathematical integers here, combined with \<open>AND\<close>, \<open>OR\<close> and \<open>NOT\<close>.
  A flag string is a list of characters below 256; lower-casing is modelled on the
  ASCII letters, the only ones the token pattern can match.
\<close>

section \<open>The flags\<close>

datatype jkeyflag =
    READ_ONLY | APPEND_ONLY | GROUP | LINK | HIDDEN | NO_CACHE | NO_REVERT | EXPIRE
  | NO_DELETE | USER0 | USER1 | USER2 | USER3
  | UNLOCK | NO_FOLLOW | EXCL | NO_ATIME | MUST_EXIST

fun key_flag_bit :: "jkeyflag \<Rightarrow> int" where
  "key_flag_bit READ_ONLY = 0x01"
| "key_flag_bit APPEND_ONLY = 0x02"
| "key_flag_bit GROUP = 0x04"
| "key_flag_bit LINK = 0x08"
| "key_flag_bit HIDDEN = 0x10"
| "key_flag_bit NO_CACHE = 0x20"
| "key_flag_bit NO_REVERT = 0x40"
| "key_flag_bit EXPIRE = 0x80"
| "key_flag_bit NO_DELETE = 0x100"
| "key_flag_bit USER0 = 0x1000"
| "key_flag_bit USER1 = 0x2000"
| "key_flag_bit USER2 = 0x4000"
| "key_flag_bit USER3 = 0x8000"
| "key_flag_bit UNLOCK = 0x10000"
| "key_flag_bit NO_FOLLOW = 0x20000"
| "key_flag_bit EXCL = 0x40000"
| "key_flag_bit NO_ATIME = 0x80000"
| "key_flag_bit MUST_EXIST = 0x100000"

definition KEY_FLAG_MASK :: int where "KEY_FLAG_MASK = 0xFFFF"

abbreviation KF_READ_ONLY :: int where "KF_READ_ONLY \<equiv> key_flag_bit READ_ONLY"
abbreviation KF_APPEND_ONLY :: int where "KF_APPEND_ONLY \<equiv> key_flag_bit APPEND_ONLY"
abbreviation KF_GROUP :: int where "KF_GROUP \<equiv> key_flag_bit GROUP"
abbreviation KF_LINK :: int where "KF_LINK \<equiv> key_flag_bit LINK"
abbreviation KF_NO_CACHE :: int where "KF_NO_CACHE \<equiv> key_flag_bit NO_CACHE"
abbreviation KF_NO_REVERT :: int where "KF_NO_REVERT \<equiv> key_flag_bit NO_REVERT"
abbreviation KF_EXPIRE :: int where "KF_EXPIRE \<equiv> key_flag_bit EXPIRE"
abbreviation KF_NO_DELETE :: int where "KF_NO_DELETE \<equiv> key_flag_bit NO_DELETE"
abbreviation KF_UNLOCK :: int where "KF_UNLOCK \<equiv> key_flag_bit UNLOCK"
abbreviation KF_EXCL :: int where "KF_EXCL \<equiv> key_flag_bit EXCL"
abbreviation KF_MUST_EXIST :: int where "KF_MUST_EXIST \<equiv> key_flag_bit MUST_EXIST"

text \<open>The dictionary \<open>KEY_FLAG_LETTERS\<close>, in insertion order.\<close>

definition KEY_FLAG_LETTERS :: "(jkeyflag \<times> char) list" where
  "KEY_FLAG_LETTERS =
     [(READ_ONLY, CHR ''r''), (GROUP, CHR ''g''), (APPEND_ONLY, CHR ''a''),
      (NO_CACHE, CHR ''c''), (NO_REVERT, CHR ''v''), (LINK, CHR ''l''),
      (HIDDEN, CHR ''h''), (EXPIRE, CHR ''e''), (NO_DELETE, CHR ''p''),
      (USER0, CHR ''0''), (USER1, CHR ''1''), (USER2, CHR ''2''), (USER3, CHR ''3''),
      (UNLOCK, CHR ''u''), (NO_FOLLOW, CHR ''n''), (EXCL, CHR ''w''),
      (NO_ATIME, CHR ''y''), (MUST_EXIST, CHR ''m'')]"

definition KEY_FLAG_BY_LETTER :: "char \<Rightarrow> int option" where
  "KEY_FLAG_BY_LETTER = map_of (map (\<lambda>(f, ch). (ch, key_flag_bit f)) KEY_FLAG_LETTERS)"

definition TRANSIENT_FLAG_MASK :: int where
  "TRANSIENT_FLAG_MASK =
     key_flag_bit UNLOCK OR key_flag_bit NO_FOLLOW OR key_flag_bit EXCL
     OR key_flag_bit NO_ATIME OR key_flag_bit MUST_EXIST"

definition TRANSIENT_FLAG_BY_LETTER :: "char \<Rightarrow> int option" where
  "TRANSIENT_FLAG_BY_LETTER =
     map_of (map (\<lambda>(f, ch). (ch, key_flag_bit f))
       (filter (\<lambda>(f, ch). key_flag_bit f AND TRANSIENT_FLAG_MASK \<noteq> 0) KEY_FLAG_LETTERS))"

definition WRITE_LOCK_MASK :: int where
  "WRITE_LOCK_MASK = KF_READ_ONLY OR KF_APPEND_ONLY"

definition DELETE_LOCK_MASK :: int where
  "DELETE_LOCK_MASK = WRITE_LOCK_MASK OR KF_NO_DELETE"

definition DERIVED_FLAG_MASK :: int where
  "DERIVED_FLAG_MASK = KF_GROUP OR KF_LINK OR KF_EXPIRE"

definition REDERIVED_FLAG_MASK :: int where
  "REDERIVED_FLAG_MASK = KF_GROUP OR KF_EXPIRE"

definition PAYLOAD_FLAG_MASK :: int where
  "PAYLOAD_FLAG_MASK = DERIVED_FLAG_MASK AND NOT REDERIVED_FLAG_MASK"

definition WRITABLE_FLAG_MASK :: int where
  "WRITABLE_FLAG_MASK = KEY_FLAG_MASK AND NOT DERIVED_FLAG_MASK"

definition USER_FLAG_MASK :: int where
  "USER_FLAG_MASK = KEY_FLAG_MASK AND NOT KF_GROUP"

lemmas flag_mask_defs [flag_simps] =
  KEY_FLAG_MASK_def TRANSIENT_FLAG_MASK_def WRITE_LOCK_MASK_def DELETE_LOCK_MASK_def
  DERIVED_FLAG_MASK_def REDERIVED_FLAG_MASK_def PAYLOAD_FLAG_MASK_def
  WRITABLE_FLAG_MASK_def USER_FLAG_MASK_def

section \<open>Strings of flag letters\<close>

definition ascii_lower :: "char \<Rightarrow> char" where
  "ascii_lower c =
     (let n = of_char c :: nat in if 65 \<le> n \<and> n \<le> 90 then char_of (n + 32) else c)"

definition is_alnum :: "char \<Rightarrow> bool" where
  "is_alnum c =
     (let n = of_char c :: nat in (97 \<le> n \<and> n \<le> 122) \<or> (48 \<le> n \<and> n \<le> 57))"

definition is_sign :: "char \<Rightarrow> bool" where
  "is_sign c = (c = CHR ''+'' \<or> c = CHR ''-'')"

text \<open>\<open>JKeyFlag._missing_\<close> on a string: the union of the flags its letters name.\<close>

fun or_letters :: "int \<Rightarrow> string \<Rightarrow> int" where
  "or_letters v [] = v"
| "or_letters v (ch # cs) =
     or_letters (v OR (case KEY_FLAG_BY_LETTER ch of None \<Rightarrow> 0 | Some b \<Rightarrow> b)) cs"

definition JKeyFlag_of_string :: "string \<Rightarrow> int" where
  "JKeyFlag_of_string s = or_letters 0 (map ascii_lower s)"

text \<open>\<open>JKeyFlag.__str__\<close>: the letter of each flag that is set, else an underscore.\<close>

definition JKeyFlag_str :: "int \<Rightarrow> string" where
  "JKeyFlag_str self =
     map (\<lambda>(flag, ch). if self AND key_flag_bit flag = key_flag_bit flag then ch else CHR ''_'')
       KEY_FLAG_LETTERS"

text \<open>\<open>re_findall('[+\-]?[a-z0-9]', s)\<close>: the leftmost matches, from left to right.\<close>

fun findall_flags :: "string \<Rightarrow> string list" where
  "findall_flags [] = []"
| "findall_flags (c # cs) =
     (if is_sign c then
        (case cs of
           d # ds \<Rightarrow> if is_alnum d then [c, d] # findall_flags ds else findall_flags cs
         | [] \<Rightarrow> [])
      else if is_alnum c then [c] # findall_flags cs
      else findall_flags cs)"

fun conv_loop :: "int \<Rightarrow> int \<Rightarrow> string list \<Rightarrow> int \<times> int" where
  "conv_loop set_mask clr_mask [] = (set_mask, clr_mask)"
| "conv_loop set_mask clr_mask (flag # rest) =
     (case KEY_FLAG_BY_LETTER (last flag) of
        None \<Rightarrow> conv_loop set_mask clr_mask rest
      | Some val \<Rightarrow>
          if hd flag = CHR ''-'' then conv_loop set_mask (clr_mask OR val) rest
          else conv_loop (set_mask OR val) clr_mask rest)"

definition conv_to_key_flags :: "string \<Rightarrow> int \<times> int" where
  "conv_to_key_flags flags =
     (if flags = [] then (0, 0)
      else conv_loop 0 0 (findall_flags (map ascii_lower flags)))"

text \<open>The caller's \<open>key_flags\<close> argument: absent, a string, or an integer mask.\<close>

datatype flags_arg = FNone | FStr string | FInt int

fun pop_loop :: "int \<Rightarrow> string list \<Rightarrow> string list \<Rightarrow> int \<times> string list" where
  "pop_loop tr rest [] = (tr, rest)"
| "pop_loop tr rest (tok # toks) =
     (case TRANSIENT_FLAG_BY_LETTER (last tok) of
        Some b \<Rightarrow>
          if hd tok \<noteq> CHR ''-'' then pop_loop (tr OR b) rest toks
          else pop_loop tr rest toks
      | None \<Rightarrow>
          if KEY_FLAG_BY_LETTER (last tok) \<noteq> None then pop_loop tr (rest @ [tok]) toks
          else pop_loop tr rest toks)"

fun pop_transient_flags :: "flags_arg \<Rightarrow> int \<times> flags_arg" where
  "pop_transient_flags FNone = (0, FNone)"
| "pop_transient_flags (FStr s) =
     (let (tr, rest) = pop_loop 0 [] (findall_flags (map ascii_lower s))
      in (tr, if concat rest = [] then FNone else FStr (concat rest)))"
| "pop_transient_flags (FInt flags) =
     (let tr = flags AND TRANSIENT_FLAG_MASK; rest = flags AND NOT TRANSIENT_FLAG_MASK
      in (tr, if tr \<noteq> 0 \<and> rest = 0 then FNone else FInt rest))"

text \<open>
  What \<open>f_write\<close> and \<open>f_write_key_flags\<close> do with the remaining argument: a string
  is applied relative to the old flags, an integer replaces them, absence keeps them.
\<close>

fun apply_key_flags :: "flags_arg \<Rightarrow> int \<Rightarrow> int" where
  "apply_key_flags FNone old = old"
| "apply_key_flags (FStr s) old =
     (let (set_mask, clr_mask) = conv_to_key_flags s in (old OR set_mask) AND NOT clr_mask)"
| "apply_key_flags (FInt m) old = m"

section \<open>\<open>JFlag\<close>\<close>

definition F_REVERT :: int where "F_REVERT = 0x01"
definition F_SPLIT :: int where "F_SPLIT = 0x02"
definition F_FSYNC :: int where "F_FSYNC = 0x04"

fun jflag_letters :: "int \<Rightarrow> string \<Rightarrow> int" where
  "jflag_letters v [] = v"
| "jflag_letters v (ch # cs) =
     jflag_letters
       (if ch = CHR ''r'' then v OR F_REVERT
        else if ch = CHR ''s'' then v OR F_SPLIT
        else if ch = CHR ''f'' then v OR F_FSYNC else v) cs"

definition JFlag_of_string :: "string \<Rightarrow> int" where
  "JFlag_of_string s = jflag_letters 0 (map ascii_lower s)"

definition JFlag_str :: "int \<Rightarrow> string" where
  "JFlag_str self =
     map (\<lambda>(flag, ch). if self AND flag = flag then ch else CHR ''_'')
       [(F_REVERT, CHR ''R''), (F_SPLIT, CHR ''S''), (F_FSYNC, CHR ''F'')]"

lemmas JFlag_defs [flag_simps] = F_REVERT_def F_SPLIT_def F_FSYNC_def


section \<open>Letters and masks\<close>

text \<open>Every flag of the enumeration occurs in the table, each with its own letter.\<close>

instantiation jkeyflag :: enum
begin

definition enum_jkeyflag :: "jkeyflag list" where
  "enum_jkeyflag = map fst KEY_FLAG_LETTERS"

definition enum_all_jkeyflag :: "(jkeyflag \<Rightarrow> bool) \<Rightarrow> bool" where
  "enum_all_jkeyflag P = list_all P (map fst KEY_FLAG_LETTERS)"

definition enum_ex_jkeyflag :: "(jkeyflag \<Rightarrow> bool) \<Rightarrow> bool" where
  "enum_ex_jkeyflag P = list_ex P (map fst KEY_FLAG_LETTERS)"

instance
proof
  have all: "(UNIV :: jkeyflag set) = set (map fst KEY_FLAG_LETTERS)"
  proof -
    have "f \<in> set (map fst KEY_FLAG_LETTERS)" for f
      by (cases f) (simp_all add: KEY_FLAG_LETTERS_def)
    then show ?thesis by blast
  qed
  show "(UNIV :: jkeyflag set) = set enum_class.enum"
    by (simp only: enum_jkeyflag_def all)
  show "distinct (enum_class.enum :: jkeyflag list)"
    by (simp add: enum_jkeyflag_def KEY_FLAG_LETTERS_def)
  show "enum_class.enum_all P \<longleftrightarrow> Ball UNIV P" for P :: "jkeyflag \<Rightarrow> bool"
    by (simp only: enum_all_jkeyflag_def list_all_iff all)
  show "enum_class.enum_ex P \<longleftrightarrow> Bex UNIV P" for P :: "jkeyflag \<Rightarrow> bool"
    by (simp only: enum_ex_jkeyflag_def list_ex_iff all)
qed

end

definition flag_letter :: "jkeyflag \<Rightarrow> char" where
  "flag_letter f = (case map_of KEY_FLAG_LETTERS f of Some ch \<Rightarrow> ch | None \<Rightarrow> CHR ''_'')"

fun flag_pos :: "jkeyflag \<Rightarrow> nat" where
  "flag_pos READ_ONLY = 0"
| "flag_pos APPEND_ONLY = 1"
| "flag_pos GROUP = 2"
| "flag_pos LINK = 3"
| "flag_pos HIDDEN = 4"
| "flag_pos NO_CACHE = 5"
| "flag_pos NO_REVERT = 6"
| "flag_pos EXPIRE = 7"
| "flag_pos NO_DELETE = 8"
| "flag_pos USER0 = 12"
| "flag_pos USER1 = 13"
| "flag_pos USER2 = 14"
| "flag_pos USER3 = 15"
| "flag_pos UNLOCK = 16"
| "flag_pos NO_FOLLOW = 17"
| "flag_pos EXCL = 18"
| "flag_pos NO_ATIME = 19"
| "flag_pos MUST_EXIST = 20"

lemma key_flag_bit_pos: "key_flag_bit f = 2 ^ flag_pos f"
  by (cases f) simp_all

lemma flag_pos_inj [simp]: "flag_pos f = flag_pos g \<longleftrightarrow> f = g"
  by (cases f; cases g) simp_all

lemma bit_key_flag_bit [simp]: "bit (key_flag_bit f) n \<longleftrightarrow> n = flag_pos f"
  by (auto simp: key_flag_bit_pos bit_exp_iff)

lemma and_key_flag_bit: "x AND key_flag_bit f = (if bit x (flag_pos f) then key_flag_bit f else 0)"
  by (rule bit_eqI) (auto simp: bit_simps)

lemma key_flag_bit_nonzero [simp]: "key_flag_bit f \<noteq> 0"
  by (simp add: key_flag_bit_pos)

lemma KEY_FLAG_BY_LETTER_iff:
  "KEY_FLAG_BY_LETTER ch = Some b \<longleftrightarrow> (\<exists>f. ch = flag_letter f \<and> b = key_flag_bit f)"
proof
  assume "KEY_FLAG_BY_LETTER ch = Some b"
  then have "(ch, b) \<in> set (map (\<lambda>(f, ch). (ch, key_flag_bit f)) KEY_FLAG_LETTERS)"
    unfolding KEY_FLAG_BY_LETTER_def by (rule map_of_SomeD)
  then obtain f where f: "(f, ch) \<in> set KEY_FLAG_LETTERS" "b = key_flag_bit f" by auto
  have "map_of KEY_FLAG_LETTERS f = Some ch"
    using f(1) by (intro map_of_is_SomeI) (simp_all add: KEY_FLAG_LETTERS_def)
  with f show "\<exists>f. ch = flag_letter f \<and> b = key_flag_bit f" 
    by (intro exI [of _ f]) (simp add: flag_letter_def)
next
  assume "\<exists>f. ch = flag_letter f \<and> b = key_flag_bit f"
  then obtain f where "ch = flag_letter f" "b = key_flag_bit f" by blast
  then show "KEY_FLAG_BY_LETTER ch = Some b"
    by (cases f) (simp_all add: KEY_FLAG_BY_LETTER_def KEY_FLAG_LETTERS_def flag_letter_def)
qed

lemma flag_letter_by [simp]: "KEY_FLAG_BY_LETTER (flag_letter f) = Some (key_flag_bit f)"
  unfolding KEY_FLAG_BY_LETTER_iff by blast

lemma flag_letter_inj [simp]: "flag_letter f = flag_letter g \<longleftrightarrow> f = g"
  by (metis flag_letter_by flag_pos_inj bit_key_flag_bit option.inject)

definition is_transient :: "jkeyflag \<Rightarrow> bool" where
  "is_transient f = (f \<in> {UNLOCK, NO_FOLLOW, EXCL, NO_ATIME, MUST_EXIST})"

lemma bit_TRANSIENT_FLAG_MASK [simp]:
  "bit TRANSIENT_FLAG_MASK (flag_pos f) \<longleftrightarrow> is_transient f"
  by (simp only: TRANSIENT_FLAG_MASK_def bit_or_iff bit_key_flag_bit flag_pos_inj is_transient_def)
     blast

lemma bit_TRANSIENT_FLAG_MASK_iff:
  "bit TRANSIENT_FLAG_MASK n \<longleftrightarrow> (\<exists>f. is_transient f \<and> n = flag_pos f)"
  by (simp only: TRANSIENT_FLAG_MASK_def bit_or_iff bit_key_flag_bit is_transient_def) blast

lemma bit_KEY_FLAG_MASK [simp]: "bit KEY_FLAG_MASK n \<longleftrightarrow> n < 16"
proof -
  have m: "KEY_FLAG_MASK = mask 16" by (simp add: KEY_FLAG_MASK_def mask_eq_exp_minus_1)
  show ?thesis unfolding m by (simp only: bit_mask_iff) simp
qed

lemma transient_pos: "is_transient f \<longleftrightarrow> 16 \<le> flag_pos f"
  by (cases f) (simp_all add: is_transient_def)

lemma TRANSIENT_FLAG_BY_LETTER_iff:
  "TRANSIENT_FLAG_BY_LETTER ch = Some b \<longleftrightarrow>
     (\<exists>f. is_transient f \<and> ch = flag_letter f \<and> b = key_flag_bit f)"
proof -
  have sel: "filter (\<lambda>(f, ch). key_flag_bit f AND TRANSIENT_FLAG_MASK \<noteq> 0) KEY_FLAG_LETTERS =
      filter (is_transient \<circ> fst) KEY_FLAG_LETTERS"
    by (intro filter_cong refl)
       (auto simp del: key_flag_bit.simps split: if_splits
         simp: and_key_flag_bit and.commute [of "key_flag_bit _"])
  show ?thesis
    unfolding TRANSIENT_FLAG_BY_LETTER_def sel
    by (auto simp: KEY_FLAG_LETTERS_def is_transient_def flag_letter_def split: if_splits)
qed


section \<open>Parsing and printing\<close>

text \<open>All the bits the enumeration gives a meaning to.\<close>

definition JKEYFLAG_BITS :: int where "JKEYFLAG_BITS = 0x1FF1FF"

lemma bit_JKEYFLAG_BITS: "bit JKEYFLAG_BITS n \<longleftrightarrow> (\<exists>f. n = flag_pos f)"
proof -
  have e: "JKEYFLAG_BITS = foldr (OR) (map key_flag_bit Enum.enum) 0"
    by (simp add: JKEYFLAG_BITS_def enum_jkeyflag_def KEY_FLAG_LETTERS_def)
  have "bit (foldr (OR) (map key_flag_bit fs) 0) n \<longleftrightarrow> (\<exists>f\<in>set fs. n = flag_pos f)" for fs
    by (induction fs) (simp_all add: bit_or_iff)
  then show ?thesis unfolding e using enum_UNIV [where 'a = jkeyflag] by simp
qed

lemma bit_or_letters:
  "bit (or_letters v s) n \<longleftrightarrow> bit v n \<or> (\<exists>f. n = flag_pos f \<and> flag_letter f \<in> set s)"
proof (induction s arbitrary: v)
  case Nil
  then show ?case by simp
next
  case (Cons ch s)
  show ?case
  proof (cases "KEY_FLAG_BY_LETTER ch")
    case None
    then have "ch \<noteq> flag_letter f" for f by (metis flag_letter_by option.distinct(1))
    with Cons None show ?thesis by (metis or.right_neutral or_letters.simps(2) option.case(1) set_ConsD list.set_intros(2))
  next
    case (Some b)
    then obtain g where "ch = flag_letter g" "b = key_flag_bit g"
      unfolding KEY_FLAG_BY_LETTER_iff by blast
    with Cons show ?thesis by (auto simp: bit_or_iff)
  qed
qed

lemma ascii_lower_flag_letter [simp]: "ascii_lower (flag_letter f) = flag_letter f"
  by (cases f) (simp_all add: flag_letter_def KEY_FLAG_LETTERS_def ascii_lower_def)

lemma flag_letter_neq_underscore [simp]: "flag_letter f \<noteq> CHR ''_''" "CHR ''_'' \<noteq> flag_letter f"
  by (cases f; simp add: flag_letter_def KEY_FLAG_LETTERS_def)+

lemma KEY_FLAG_LETTERS_map: "KEY_FLAG_LETTERS = map (\<lambda>f. (f, flag_letter f)) Enum.enum"
  by (simp add: enum_jkeyflag_def KEY_FLAG_LETTERS_def flag_letter_def)

lemma flag_letter_in_JKeyFlag_str:
  "flag_letter f \<in> set (map ascii_lower (JKeyFlag_str self)) \<longleftrightarrow> bit self (flag_pos f)"
proof -
  have us: "ascii_lower (CHR ''_'') = CHR ''_''" by (simp add: ascii_lower_def)
  have "map ascii_lower (JKeyFlag_str self) =
      map (\<lambda>f. if bit self (flag_pos f) then flag_letter f else CHR ''_'') Enum.enum"
    by (auto simp: JKeyFlag_str_def KEY_FLAG_LETTERS_map and_key_flag_bit us
        simp del: key_flag_bit.simps)
  then show ?thesis
    by (auto simp: enum_UNIV image_iff)
qed

text \<open>
  C16: printing a flag value and parsing the printed string gives back exactly its
  defined bits, for every integer, so no two flags share a letter and none is lost.
\<close>

theorem JKeyFlag_str_parse:
  "JKeyFlag_of_string (JKeyFlag_str self) = self AND JKEYFLAG_BITS"
  by (rule bit_eqI)
     (auto simp: JKeyFlag_of_string_def bit_or_letters bit_and_iff bit_JKEYFLAG_BITS
       flag_letter_in_JKeyFlag_str simp del: set_map)

section \<open>Tokens\<close>

fun flag_token :: "string \<Rightarrow> bool" where
  "flag_token [d] = is_alnum d"
| "flag_token [c, d] = (is_sign c \<and> is_alnum d)"
| "flag_token _ = False"

lemma flag_token_cases:
  assumes "flag_token tok"
  obtains d where "tok = [d]" "is_alnum d"
  | c d where "tok = [c, d]" "is_sign c" "is_alnum d"
  using assms by (cases tok rule: flag_token.cases) auto

lemma is_sign_not_alnum [simp]: "is_sign c \<Longrightarrow> \<not> is_alnum c"
  by (auto simp: is_sign_def is_alnum_def)

lemma ascii_lower_alnum [simp]: "is_alnum c \<Longrightarrow> ascii_lower c = c"
  by (auto simp: is_alnum_def ascii_lower_def Let_def)

lemma ascii_lower_sign [simp]: "is_sign c \<Longrightarrow> ascii_lower c = c"
  by (auto simp: is_sign_def ascii_lower_def)

lemma findall_flags_tokens: "tok \<in> set (findall_flags s) \<Longrightarrow> flag_token tok"
  by (induction s rule: findall_flags.induct) (auto split: if_splits list.splits)

lemma flag_token_lower: "flag_token tok \<Longrightarrow> map ascii_lower tok = tok"
  by (erule flag_token_cases) auto

lemma findall_flags_concat:
  "\<forall>tok\<in>set toks. flag_token tok \<Longrightarrow> findall_flags (concat toks) = toks"
proof (induction toks)
  case (Cons tok toks)
  then have "flag_token tok" by simp
  then show ?case using Cons
    by (cases rule: flag_token_cases) (auto dest: is_sign_not_alnum)
qed simp

lemma concat_tokens_lower:
  "\<forall>tok\<in>set toks. flag_token tok \<Longrightarrow> map ascii_lower (concat toks) = concat toks"
  by (induction toks) (auto simp: flag_token_lower)

text \<open>Which bits a list of tokens sets and clears.\<close>

definition tokens_name :: "bool \<Rightarrow> string list \<Rightarrow> nat \<Rightarrow> bool" where
  "tokens_name clr toks n \<longleftrightarrow>
     (\<exists>tok\<in>set toks. (hd tok = CHR ''-'') = clr \<and> (\<exists>f. last tok = flag_letter f \<and> n = flag_pos f))"

lemma tokens_name_Nil [simp]: "\<not> tokens_name c [] n"
  by (simp add: tokens_name_def)

lemma tokens_name_Cons:
  "tokens_name c (tok # toks) n \<longleftrightarrow>
     ((hd tok = CHR ''-'') = c \<and> (\<exists>f. last tok = flag_letter f \<and> n = flag_pos f)) \<or> tokens_name c toks n"
  by (auto simp: tokens_name_def)

lemma tokens_name_append:
  "tokens_name c (xs @ ys) n \<longleftrightarrow> tokens_name c xs n \<or> tokens_name c ys n"
  by (auto simp: tokens_name_def)

lemma by_letter_None: "KEY_FLAG_BY_LETTER ch = None \<Longrightarrow> ch \<noteq> flag_letter f"
  by auto

lemma conv_loop_bits:
  "bit (fst (conv_loop s c toks)) n \<longleftrightarrow> bit s n \<or> tokens_name False toks n"
  "bit (snd (conv_loop s c toks)) n \<longleftrightarrow> bit c n \<or> tokens_name True toks n"
  by (induction toks arbitrary: s c)
     (auto simp: tokens_name_Cons bit_or_iff KEY_FLAG_BY_LETTER_iff split: option.splits
        dest: by_letter_None)

lemma conv_to_key_flags_bits:
  "bit (fst (conv_to_key_flags s)) n \<longleftrightarrow> tokens_name False (findall_flags (map ascii_lower s)) n"
  "bit (snd (conv_to_key_flags s)) n \<longleftrightarrow> tokens_name True (findall_flags (map ascii_lower s)) n"
  by (auto simp: conv_to_key_flags_def conv_loop_bits)


lemma apply_str_bits:
  "bit (apply_key_flags (FStr s) old) n \<longleftrightarrow>
     (bit old n \<or> tokens_name False (findall_flags (map ascii_lower s)) n) \<and>
     \<not> tokens_name True (findall_flags (map ascii_lower s)) n"
  by (simp add: case_prod_beta bit_and_iff bit_or_iff bit_not_iff conv_to_key_flags_bits)

text \<open>
  C17: \<open>conv_to_key_flags\<close> puts the bit of a flag in the set mask iff some token of the
  string names the flag without a minus sign, and in the clear mask iff some token
  names it with one; applied relative to old flags the clear wins over the set, and
  a bit that no token names keeps its old value.
\<close>

theorem conv_to_key_flags_effect:
  "(bit (fst (conv_to_key_flags s)) n \<longleftrightarrow> tokens_name False (findall_flags (map ascii_lower s)) n) \<and>
   (bit (snd (conv_to_key_flags s)) n \<longleftrightarrow> tokens_name True (findall_flags (map ascii_lower s)) n) \<and>
   (bit (apply_key_flags (FStr s) old) n \<longleftrightarrow>
      (bit old n \<or> tokens_name False (findall_flags (map ascii_lower s)) n) \<and>
      \<not> tokens_name True (findall_flags (map ascii_lower s)) n)"
  by (simp only: conv_to_key_flags_bits apply_str_bits)

lemma TRANSIENT_None:
  "TRANSIENT_FLAG_BY_LETTER ch = None \<Longrightarrow> ch = flag_letter f \<Longrightarrow> \<not> is_transient f"
  using TRANSIENT_FLAG_BY_LETTER_iff by (metis option.distinct(1))

text \<open>The tokens that \<open>pop_transient_flags\<close> keeps.\<close>

definition stored_token :: "string \<Rightarrow> bool" where
  "stored_token tok \<longleftrightarrow> (\<exists>f. last tok = flag_letter f \<and> \<not> is_transient f)"

lemma pop_loop_rest: "snd (pop_loop tr rest toks) = rest @ filter stored_token toks"
proof (induction toks arbitrary: tr rest)
  case (Cons tok toks)
  show ?case
  proof (cases "\<exists>f. last tok = flag_letter f")
    case True
    then obtain f where f: "last tok = flag_letter f" by blast
    then have "stored_token tok \<longleftrightarrow> \<not> is_transient f" by (simp add: stored_token_def)
    moreover have "TRANSIENT_FLAG_BY_LETTER (last tok) =
        (if is_transient f then Some (key_flag_bit f) else None)"
      using f TRANSIENT_FLAG_BY_LETTER_iff TRANSIENT_None by (auto simp del: not_None_eq intro: ccontr)
    ultimately show ?thesis using Cons f by simp
  next
    case False
    then have "KEY_FLAG_BY_LETTER (last tok) = None" "TRANSIENT_FLAG_BY_LETTER (last tok) = None"
      using KEY_FLAG_BY_LETTER_iff TRANSIENT_FLAG_BY_LETTER_iff by (meson not_None_eq)+
    with Cons False show ?thesis by (simp add: stored_token_def)
  qed
qed simp

lemma pop_loop_transient:
  "bit (fst (pop_loop tr rest toks)) n \<longleftrightarrow>
     bit tr n \<or> (tokens_name False toks n \<and> bit TRANSIENT_FLAG_MASK n)"
proof (induction toks arbitrary: tr rest)
  case (Cons tok toks)
  show ?case
  proof (cases "TRANSIENT_FLAG_BY_LETTER (last tok)")
    case None
    then show ?thesis
      by (auto simp: Cons tokens_name_Cons dest: TRANSIENT_None split: option.splits)
  next
    case (Some b)
    then obtain f where f: "is_transient f" "last tok = flag_letter f" "b = key_flag_bit f"
      unfolding TRANSIENT_FLAG_BY_LETTER_iff by blast
    with Some show ?thesis by (auto simp: Cons tokens_name_Cons bit_or_iff)
  qed
qed simp

lemma tokens_name_stored:
  "tokens_name c (filter stored_token toks) n \<longleftrightarrow> tokens_name c toks n \<and> \<not> bit TRANSIENT_FLAG_MASK n"
  by (auto simp: tokens_name_def stored_token_def)

lemma concat_tokens_Nil: "\<forall>tok\<in>set toks. flag_token tok \<Longrightarrow> concat toks = [] \<longleftrightarrow> toks = []"
  by (cases toks) (auto elim: flag_token_cases)

lemma apply_concat_tokens:
  assumes "\<forall>tok\<in>set toks. flag_token tok"
  shows "bit (apply_key_flags (if concat toks = [] then FNone else FStr (concat toks)) old) n \<longleftrightarrow>
           (bit old n \<or> tokens_name False toks n) \<and> \<not> tokens_name True toks n"
proof (cases "toks = []")
  case False
  then have "concat toks \<noteq> []" using assms by (simp only: concat_tokens_Nil) simp
  then show ?thesis
    by (simp add: conv_to_key_flags_bits bit_and_iff bit_or_iff bit_not_iff case_prod_beta
        concat_tokens_lower [OF assms] findall_flags_concat [OF assms] del: concat_eq_Nil_conv)
qed simp

text \<open>
  C18: \<open>pop_transient_flags\<close> on a string splits the request without loss.  The first
  component is the transient part of what the string sets, and storing the remainder
  changes the old flags exactly as the whole string would outside the transient
  bits, and not at all on them; so no transient flag can reach a stored row, and
  joining the kept tokens back into one string does not change their meaning.
\<close>

theorem pop_transient_flags_splits:
  "fst (pop_transient_flags (FStr s)) = fst (conv_to_key_flags s) AND TRANSIENT_FLAG_MASK \<and>
   apply_key_flags (snd (pop_transient_flags (FStr s))) old =
     (apply_key_flags (FStr s) old AND NOT TRANSIENT_FLAG_MASK) OR (old AND TRANSIENT_FLAG_MASK)"
proof
  let ?toks = "findall_flags (map ascii_lower s)"
  show "fst (pop_transient_flags (FStr s)) = fst (conv_to_key_flags s) AND TRANSIENT_FLAG_MASK"
    by (rule bit_eqI)
       (auto simp: case_prod_beta pop_loop_transient bit_and_iff conv_to_key_flags_bits)
  have toks: "\<forall>tok\<in>set (filter stored_token ?toks). flag_token tok"
    using findall_flags_tokens by auto
  have rest: "snd (pop_transient_flags (FStr s)) =
      (if concat (filter stored_token ?toks) = [] then FNone else FStr (concat (filter stored_token ?toks)))"
    by (simp add: case_prod_beta pop_loop_rest)
  show "apply_key_flags (snd (pop_transient_flags (FStr s))) old =
     (apply_key_flags (FStr s) old AND NOT TRANSIENT_FLAG_MASK) OR (old AND TRANSIENT_FLAG_MASK)"
    unfolding rest
    by (rule bit_eqI)
       (auto simp only: apply_concat_tokens [OF toks] tokens_name_stored apply_str_bits
         bit_and_iff bit_or_iff bit_not_iff)
qed

end
