(* ===== verification/Day_Codec.thy ===== *)
theory Day_Codec
  imports Key_Flags
begin

text \<open>
  \<open>omni_json_db/jdb_codec.py\<close>: the 48-bit \<open>days\<close> field of a key row, which holds the
  creation day, the modification day and the lifetime in one of three layouts, with
  \<open>conv_ttl\<close>, \<open>pack_days\<close>, \<open>unpack_days\<close>, and the copies of the last two that every
  row codec inlines (\<open>fold_days\<close>, \<open>unfold_days\<close>).  A day or lifetime is a
  \<open>pynum\<close>: the code tells an \<open>int\<close> from a \<open>float\<close>, because masks and shifts raise
  \<open>TypeError\<close> on a float.  Floats are exact rationals here and always finite.
\<close>

section \<open>Layout constants\<close>

definition OLD_DAY_MASK :: int where "OLD_DAY_MASK = 0x3FFFFFF"
definition NEW_DAY_SHIFT :: nat where "NEW_DAY_SHIFT = 26"
definition MAX_DAY_DELTA :: int where "MAX_DAY_DELTA = 0x3FFFFF"
definition NEW_DAY_MASK :: int where "NEW_DAY_MASK = push_bit NEW_DAY_SHIFT MAX_DAY_DELTA"
definition SUB_DAY_BIT :: int where "SUB_DAY_BIT = push_bit 22 1"
definition SUB_DAY_MASK :: int where "SUB_DAY_MASK = 0x3FFFFF"
definition TTL_SHIFT :: nat where "TTL_SHIFT = 39"
definition TTL_DAY_MASK :: int where "TTL_DAY_MASK = 0x1FF"
definition MAX_EXP_DELTA :: int where "MAX_EXP_DELTA = 0x1FFF"
definition MAX_TTL_DAYS :: int where "MAX_TTL_DAYS = TTL_DAY_MASK"
definition TTL_MASK :: int where "TTL_MASK = push_bit TTL_SHIFT TTL_DAY_MASK"
definition EXP_DELTA_MASK :: int where "EXP_DELTA_MASK = push_bit NEW_DAY_SHIFT MAX_EXP_DELTA"
definition TTL_MIN_SHIFT :: nat where "TTL_MIN_SHIFT = 37"
definition MAX_TTL_MINS :: int where "MAX_TTL_MINS = 0x7FF"
definition TTL_MIN_MASK :: int where "TTL_MIN_MASK = push_bit TTL_MIN_SHIFT MAX_TTL_MINS"
definition MIN_MASK :: int where "MIN_MASK = push_bit NEW_DAY_SHIFT 0x7FF"
definition SUB_DELTA_SHIFT :: nat where "SUB_DELTA_SHIFT = 23"
definition MAX_SUB_DELTA :: int where "MAX_SUB_DELTA = 0x7"
definition SUB_DELTA_MASK :: int where "SUB_DELTA_MASK = push_bit SUB_DELTA_SHIFT MAX_SUB_DELTA"
definition MIN_SEC :: int where "MIN_SEC = 60"
definition MIN_OF_DAY :: int where "MIN_OF_DAY = 1440"
definition DAY_SEC :: int where "DAY_SEC = MIN_OF_DAY * MIN_SEC"
definition KEY_FLAG_SHIFT :: nat where "KEY_FLAG_SHIFT = 48"
definition FULL_DAY_MASK :: int where "FULL_DAY_MASK = 0xFFFFFFFFFFFF"

text \<open>The masks of the code are low masks, moved to where their field starts.\<close>

lemma day_masks [codec_simps]:
  "OLD_DAY_MASK = mask 26" "NEW_DAY_MASK = push_bit 26 (mask 22)"
  "SUB_DAY_MASK = mask 22"
  "TTL_MASK = push_bit 39 (mask 9)" "EXP_DELTA_MASK = push_bit 26 (mask 13)"
  "TTL_MIN_MASK = push_bit 37 (mask 11)" "MIN_MASK = push_bit 26 (mask 11)"
  "SUB_DELTA_MASK = push_bit 23 (mask 3)" "KEY_FLAG_MASK = mask 16"
  by (simp_all add: OLD_DAY_MASK_def NEW_DAY_MASK_def SUB_DAY_MASK_def
      TTL_MASK_def EXP_DELTA_MASK_def TTL_MIN_MASK_def MIN_MASK_def SUB_DELTA_MASK_def
      NEW_DAY_SHIFT_def MAX_DAY_DELTA_def TTL_SHIFT_def TTL_DAY_MASK_def MAX_EXP_DELTA_def
      TTL_MIN_SHIFT_def MAX_TTL_MINS_def SUB_DELTA_SHIFT_def MAX_SUB_DELTA_def
      KEY_FLAG_MASK_def mask_eq_exp_minus_1)

lemma day_numbers [codec_simps]:
  "NEW_DAY_SHIFT = 26" "TTL_SHIFT = 39" "TTL_MIN_SHIFT = 37" "SUB_DELTA_SHIFT = 23"
  "KEY_FLAG_SHIFT = 48" "MAX_EXP_DELTA = 8191" "MAX_TTL_DAYS = 511" "MAX_TTL_MINS = 2047"
  "MAX_SUB_DELTA = 7" "MIN_SEC = 60" "MIN_OF_DAY = 1440" "DAY_SEC = 86400"
  by (simp_all add: NEW_DAY_SHIFT_def TTL_SHIFT_def TTL_MIN_SHIFT_def SUB_DELTA_SHIFT_def
      KEY_FLAG_SHIFT_def MAX_EXP_DELTA_def MAX_TTL_DAYS_def TTL_DAY_MASK_def MAX_TTL_MINS_def
      MAX_SUB_DELTA_def MIN_SEC_def MIN_OF_DAY_def DAY_SEC_def)

section \<open>Operations\<close>

text \<open>The argument of \<open>conv_ttl\<close>; a \<open>timedelta\<close> is its total in seconds.\<close>

datatype ttl_arg = TTL_None | TTL_Delta rat | TTL_Num pynum | TTL_Other

definition conv_ttl_secs :: "pynum \<Rightarrow> pynum" where
  "conv_ttl_secs secs =
     (if num_val secs \<le> 0 then PI (if num_val secs < 0 then -1 else 0)
      else
        let s = max 1 (case secs of PI i \<Rightarrow> i | PF r \<Rightarrow> py_round r)
        in if s < DAY_SEC
           then PF (of_int (min (- ((- s) div MIN_SEC)) MAX_TTL_MINS) / of_int MIN_OF_DAY)
           else PI (min (- ((- s) div DAY_SEC)) MAX_TTL_DAYS))"

fun conv_ttl :: "ttl_arg \<Rightarrow> pynum res" where
  "conv_ttl TTL_None = Inr (PI (-1))"
| "conv_ttl (TTL_Delta secs) = Inr (conv_ttl_secs (PF secs))"
| "conv_ttl (TTL_Num (PI d)) = Inr (conv_ttl_secs (PI (d * DAY_SEC)))"
| "conv_ttl (TTL_Num (PF d)) = Inr (conv_ttl_secs (PF (d * of_int DAY_SEC)))"
| "conv_ttl TTL_Other = Inl JValueError"

fun num_int :: "pynum \<Rightarrow> int" where
  "num_int (PI i) = i"
| "num_int (PF r) = py_trunc r"

definition pack_days :: "pynum \<Rightarrow> pynum \<Rightarrow> pynum \<Rightarrow> int" where
  "pack_days cdays mdays ttl =
     (let cday_i = num_int cdays; mday_i = num_int mdays; delta = mday_i - cday_i in
      if num_val ttl \<le> 0 then
        (if delta > 0
         then (cday_i AND OLD_DAY_MASK) OR (push_bit NEW_DAY_SHIFT delta AND NEW_DAY_MASK)
         else cday_i AND OLD_DAY_MASK)
      else if num_val ttl \<ge> 1 \<or> mday_i > SUB_DAY_MASK then
        (let ttl_i = min (num_int ttl) MAX_TTL_DAYS;
             (cday_i, delta) = (if delta > MAX_EXP_DELTA then (mday_i, 0) else (cday_i, delta))
         in (cday_i AND OLD_DAY_MASK) OR (push_bit NEW_DAY_SHIFT delta AND EXP_DELTA_MASK)
              OR push_bit TTL_SHIFT ttl_i)
      else
        (let ttl_i = max 1 (min (py_round (num_val ttl * of_int MIN_OF_DAY)) MAX_TTL_MINS);
             (cday_i, delta) =
               (if \<not> (MAX_SUB_DELTA \<ge> delta \<and> delta \<ge> 0) then (mday_i, 0) else (cday_i, delta));
             mmin = py_round ((num_val mdays - of_int mday_i) * of_int MIN_OF_DAY) mod MIN_OF_DAY
         in (cday_i AND SUB_DAY_MASK) OR push_bit SUB_DELTA_SHIFT delta OR SUB_DAY_BIT
              OR push_bit NEW_DAY_SHIFT mmin OR push_bit TTL_MIN_SHIFT ttl_i))"

definition unpack_days :: "int \<Rightarrow> int \<Rightarrow> int \<times> pynum \<times> pynum" where
  "unpack_days days flags =
     (if flags AND KF_EXPIRE = 0 then
        (let cdays = days AND OLD_DAY_MASK
         in (cdays, PI (cdays + drop_bit NEW_DAY_SHIFT (days AND NEW_DAY_MASK)), PI 0))
      else if days AND SUB_DAY_BIT = 0 then
        (let cdays = days AND OLD_DAY_MASK
         in (cdays, PI (cdays + drop_bit NEW_DAY_SHIFT (days AND EXP_DELTA_MASK)),
             PI (drop_bit TTL_SHIFT (days AND TTL_MASK))))
      else
        (let cdays = days AND SUB_DAY_MASK;
             mdays = of_int (cdays + drop_bit SUB_DELTA_SHIFT (days AND SUB_DELTA_MASK))
                       + of_int (drop_bit NEW_DAY_SHIFT (days AND MIN_MASK)) / of_int MIN_OF_DAY
         in (cdays, PF mdays,
             PF (of_int (drop_bit TTL_MIN_SHIFT (days AND TTL_MIN_MASK)) / of_int MIN_OF_DAY))))"

text \<open>Masks, shifts and sums on a number that may be a float.\<close>

fun num_and :: "pynum \<Rightarrow> int \<Rightarrow> int res" where
  "num_and (PI i) m = Inr (i AND m)"
| "num_and (PF r) m = Inl TypeError"

fun num_or :: "pynum \<Rightarrow> int \<Rightarrow> int res" where
  "num_or (PI i) m = Inr (i OR m)"
| "num_or (PF r) m = Inl TypeError"

fun num_shl :: "pynum \<Rightarrow> nat \<Rightarrow> int res" where
  "num_shl (PI i) k = Inr (push_bit k i)"
| "num_shl (PF r) k = Inl TypeError"

fun num_sub :: "pynum \<Rightarrow> pynum \<Rightarrow> pynum" where
  "num_sub (PI a) (PI b) = PI (a - b)"
| "num_sub a b = PF (num_val a - num_val b)"

fun num_add_int :: "pynum \<Rightarrow> int \<Rightarrow> pynum" where
  "num_add_int (PI a) b = PI (a + b)"
| "num_add_int (PF a) b = PF (a + of_int b)"

text \<open>The folding that each \<open>dumps_v*\<close> inlines.\<close>

definition fold_days :: "pynum \<Rightarrow> pynum \<Rightarrow> pynum \<Rightarrow> int res" where
  "fold_days cdays mdays ttl =
     (let delta = num_sub mdays cdays in
      if num_val ttl \<le> 0 then
        (if num_val delta > 0
         then res_bind (num_and cdays OLD_DAY_MASK) (\<lambda>c.
                Inr (c OR (push_bit NEW_DAY_SHIFT (num_int delta) AND NEW_DAY_MASK)))
         else num_and cdays OLD_DAY_MASK)
      else if num_val ttl < 1 then Inr (pack_days cdays mdays ttl)
      else
        (let ttl = (if num_val ttl < of_int MAX_TTL_DAYS then ttl else PI MAX_TTL_DAYS);
             delta = num_int delta
         in if delta > MAX_EXP_DELTA
            then res_bind (num_and (num_add_int cdays delta) OLD_DAY_MASK) (\<lambda>c.
                 res_bind (num_shl ttl TTL_SHIFT) (\<lambda>t. Inr (c OR t)))
            else res_bind (num_or cdays (push_bit NEW_DAY_SHIFT delta AND EXP_DELTA_MASK)) (\<lambda>c.
                 res_bind (num_shl ttl TTL_SHIFT) (\<lambda>t. Inr (c OR t)))))"

text \<open>The unfolding that each \<open>loads_v*\<close> inlines.\<close>

definition unfold_days :: "int \<Rightarrow> int \<Rightarrow> int \<times> pynum \<times> pynum" where
  "unfold_days days flags =
     (let cdays = days AND OLD_DAY_MASK in
      if flags AND KF_EXPIRE \<noteq> 0 then
        (if days AND SUB_DAY_BIT \<noteq> 0 then unpack_days days flags
         else (cdays, PI (cdays + drop_bit NEW_DAY_SHIFT (days AND EXP_DELTA_MASK)),
               PI (drop_bit TTL_SHIFT (days AND TTL_MASK))))
      else (cdays, PI (cdays + drop_bit NEW_DAY_SHIFT (days AND NEW_DAY_MASK)), PI 0))"


section \<open>The layouts as bit fields\<close>

lemma sub_day_iff: "days AND SUB_DAY_BIT = 0 \<longleftrightarrow> \<not> bit days 22"
  by (simp only: SUB_DAY_BIT_def and_single_bit)

lemma unpack_days_fields:
  "unpack_days days flags =
     (if flags AND KF_EXPIRE = 0
      then (bit_field 0 26 days, PI (bit_field 0 26 days + bit_field 26 22 days), PI 0)
      else if \<not> bit days 22
      then (bit_field 0 26 days, PI (bit_field 0 26 days + bit_field 26 13 days),
            PI (bit_field 39 9 days))
      else (bit_field 0 22 days,
            PF (of_int (bit_field 0 22 days + bit_field 23 3 days) + of_int (bit_field 26 11 days) / 1440),
            PF (of_int (bit_field 37 11 days) / 1440)))"
  by (simp only: unpack_days_def sub_day_iff codec_simps and_mask_field drop_and_mask_field Let_def)
     simp

lemma unfold_days_eq_unpack_days: "unfold_days days flags = unpack_days days flags"
  by (simp add: unfold_days_def unpack_days_def Let_def)

lemma bit_field_flags [simp]:
  assumes "v + w \<le> 48"
  shows "bit_field v w (days OR push_bit 48 x) = bit_field v w days"
  using assms by (simp add: bit_field_or bit_field_above)

text \<open>The key flags that \<open>v0\<close> and \<open>v1\<close> rows keep above the days do not disturb them.\<close>

lemma unpack_days_flags_above:
  "unpack_days (days OR push_bit 48 x) flags = unpack_days days flags"
  by (simp add: unpack_days_fields bit_or_iff bit_push_bit_iff)

lemma pack_plain:
  "pack_days (PI c) m (PI 0) =
     bit_field 0 26 c OR
       (if num_int m - c > 0 then push_bit 26 (bit_field 0 22 (num_int m - c)) else 0)"
  by (simp add: pack_days_def codec_simps and_mask_field push_and_mask_field Let_def)

lemma pack_day:
  assumes "1 \<le> t" "t \<le> 511"
  shows "pack_days (PI c) m (PI t) =
     (if num_int m - c > 8191 then bit_field 0 26 (num_int m) OR push_bit 39 t
      else bit_field 0 26 c OR push_bit 26 (bit_field 0 13 (num_int m - c)) OR push_bit 39 t)"
  using assms
  by (auto simp: pack_days_def codec_simps and_mask_field push_and_mask_field Let_def)

definition minute_of_day :: "pynum \<Rightarrow> int" where
  "minute_of_day m = py_round ((num_val m - of_int (num_int m)) * 1440) mod 1440"

lemma pack_minute:
  assumes "1 \<le> k" "k < 1440" "num_int m \<le> SUB_DAY_MASK"
  shows "pack_days (PI c) m (PF (of_int k / 1440)) =
     (if 0 \<le> num_int m - c \<and> num_int m - c \<le> 7
      then bit_field 0 22 c OR push_bit 23 (num_int m - c) else bit_field 0 22 (num_int m))
      OR push_bit 22 1 OR push_bit 26 (minute_of_day m) OR push_bit 37 k"
proof -
  have "\<not> (of_int k / 1440 \<le> (0::rat))" "\<not> (1 \<le> of_int k / (1440::rat))"
    using assms by (simp_all add: field_simps)
  moreover have "py_round (of_int k / 1440 * of_int MIN_OF_DAY) = k"
    by (simp add: codec_simps)
  ultimately show ?thesis
    using assms
    by (auto simp: pack_days_def and_mask_field Let_def minute_of_day_def
        SUB_DAY_BIT_def or.assoc) (auto simp: codec_simps and_mask_field minute_of_day_def or.assoc)
qed

lemma minute_of_day_bounds: "0 \<le> minute_of_day m" "minute_of_day m < 1440"
  by (simp_all add: minute_of_day_def)


section \<open>Round trips\<close>

lemma PF_ratio: "PF (of_int a / 1440) = PF (of_int b / 1440) \<longleftrightarrow> a = b"
  by simp

lemma bit22_small: "0 \<le> c \<Longrightarrow> c < 2 ^ 22 \<Longrightarrow> \<not> bit (c::int) 22"
  using small_int_bit by blast

lemmas field_simps_days =
  bit_field_or bit_field_push bit_field_id bit_field_below bit_field_below0 bit_field_above
  bit_field_nested

lemma days_roundtrip_plain:
  assumes "0 \<le> c" "c < 2 ^ 26" "num_int m - c < 2 ^ 22" "flags AND KF_EXPIRE = 0"
  shows "unpack_days (pack_days (PI c) m (PI 0)) flags = (c, PI (max c (num_int m)), PI 0)"
proof (cases "num_int m - c > 0")
  case True
  then have "bit_field 26 22 (push_bit 26 (num_int m - c)) = num_int m - c"
    using assms by (intro bit_field_push) simp_all
  moreover have "bit_field 0 22 (num_int m - c) = num_int m - c"
    using assms True by (intro bit_field_id) simp_all
  ultimately show ?thesis using True assms
    by (simp add: unpack_days_fields pack_plain bit_field_or bit_field_id bit_field_below0
        bit_field_above max_def)
next
  case False
  then show ?thesis using assms
    by (simp add: unpack_days_fields pack_plain bit_field_id bit_field_below0 max_def)
qed

lemma days_roundtrip_day:
  assumes "0 \<le> c" "c \<le> num_int m" "num_int m < 2 ^ 22" "1 \<le> t" "t \<le> 511"
    and "flags AND KF_EXPIRE \<noteq> 0"
  shows "unpack_days (pack_days (PI c) m (PI t)) flags =
           (if num_int m - c > 8191 then num_int m else c, PI (num_int m), PI t)"
proof (cases "num_int m - c > 8191")
  case True
  have "\<not> bit (num_int m OR push_bit 39 t) 22"
    using assms by (simp add: bit_or_iff bit_push_bit_iff bit22_small)
  moreover have "bit_field 0 26 (num_int m) = num_int m" "bit_field 39 9 (num_int m) = 0"
    "bit_field 26 13 (num_int m) = 0"
    using assms by (simp_all add: bit_field_id bit_field_below0)
  moreover have "bit_field 39 9 (push_bit 39 t) = t"
    using assms by (intro bit_field_push) simp_all
  ultimately show ?thesis using assms True
    by (simp add: pack_day unpack_days_fields bit_field_or bit_field_above)
next
  case False
  define d where "d = num_int m - c"
  have d: "0 \<le> d" "d < 8192" and m: "num_int m = c + d"
    using assms False by (auto simp: d_def)
  have "\<not> bit (c OR push_bit 26 d OR push_bit 39 t) 22"
    using assms by (simp add: bit_or_iff bit_push_bit_iff bit22_small)
  moreover have "bit_field 0 26 c = c" "bit_field 39 9 c = 0" "bit_field 26 13 c = 0"
    using assms by (simp_all add: bit_field_id bit_field_below0)
  moreover have "bit_field 39 9 (push_bit 39 t) = t" "bit_field 26 13 (push_bit 26 d) = d"
    "bit_field 0 13 d = d" "bit_field 39 9 (push_bit 26 d) = 0"
    using assms d by (simp_all add: bit_field_push bit_field_id bit_field_below [where v = 13])
  ultimately show ?thesis using assms False d
    by (simp add: pack_day unpack_days_fields bit_field_or bit_field_above m)
qed

lemma days_roundtrip_minute:
  assumes "0 \<le> c" "c < 2 ^ 22" "0 \<le> num_int m" "num_int m < 2 ^ 22" "1 \<le> k" "k < 1440"
    and "flags AND KF_EXPIRE \<noteq> 0"
  shows "unpack_days (pack_days (PI c) m (PF (of_int k / 1440))) flags =
           (if 0 \<le> num_int m - c \<and> num_int m - c \<le> 7 then c else num_int m,
            PF (of_int (num_int m) + of_int (minute_of_day m) / 1440), PF (of_int k / 1440))"
proof -
  define mm where "mm = minute_of_day m"
  have mm: "0 \<le> mm" "mm < 2048"
    using minute_of_day_bounds [of m] by (simp_all add: mm_def)
  have hi: "bit_field 37 11 (push_bit 37 k) = k" "bit_field 26 11 (push_bit 26 mm) = mm"
    "bit_field 37 11 (push_bit 26 mm) = 0"
    using assms mm by (simp_all add: bit_field_push bit_field_below [where v = 11])
  have sub: "bit_field 26 11 (4194304::int) = 0" "bit_field 37 11 (4194304::int) = 0"
    "bit_field 23 3 (4194304::int) = 0" "bit_field 0 22 (4194304::int) = 0" "bit (4194304::int) 22"
    by (simp_all add: bit_field_below0) (simp_all add: bit_field_def)
  define c' where "c' = (if 0 \<le> num_int m - c \<and> num_int m - c \<le> 7 then c else num_int m)"
  define d where "d = num_int m - c'"
  have c': "0 \<le> c'" "c' < 2 ^ 22" and d: "0 \<le> d" "d < 8"
    using assms by (auto simp: c'_def d_def)
  have lo: "bit_field 0 22 c' = c'" "bit_field 23 3 c' = 0" "bit_field 26 11 c' = 0"
    "bit_field 37 11 c' = 0" "bit_field 23 3 (push_bit 23 d) = d" "bit_field 26 11 (push_bit 23 d) = 0"
    "bit_field 37 11 (push_bit 23 d) = 0"
    using c' d by (simp_all add: bit_field_id bit_field_below0 bit_field_push bit_field_below [where v = 3])
  have "pack_days (PI c) m (PF (of_int k / 1440)) =
      c' OR push_bit 23 d OR push_bit 22 1 OR push_bit 26 mm OR push_bit 37 k"
    using assms by (auto simp: pack_minute SUB_DAY_MASK_def c'_def d_def mm_def bit_field_id or.assoc)
  then show ?thesis
    using assms(7) hi lo sub
    by (simp add: unpack_days_fields bit_field_or bit_field_above bit_or_iff)
      (simp add: c'_def d_def mm_def)
qed


section \<open>What a row remembers\<close>

text \<open>
  The abstract contract of the day field: a plain row keeps both days; a whole-day
  lifetime narrows the distance between them to 8191 days and a sub-day lifetime to
  7, beyond which the creation day collapses onto the modification day; the minute
  of the day survives for a sub-day lifetime only.
\<close>

definition day_view :: "int \<Rightarrow> pynum \<Rightarrow> pynum \<Rightarrow> int \<times> pynum \<times> pynum" where
  "day_view c m ttl =
     (let d = num_int m in
      if num_val ttl \<le> 0 then (c, PI (max c d), PI 0)
      else if num_val ttl < 1 then
        (if 0 \<le> d - c \<and> d - c \<le> 7 then c else d,
         PF (of_int d + of_int (minute_of_day m) / 1440), ttl)
      else (if d - c > 8191 then d else c, PI d, PI (min (num_int ttl) 511)))"

text \<open>The lifetimes \<open>conv_ttl\<close> produces and a row can hold.\<close>

definition stored_ttl :: "pynum \<Rightarrow> bool" where
  "stored_ttl ttl = (case ttl of PI t \<Rightarrow> True
     | PF r \<Rightarrow> 0 < r \<and> r < 1 \<and> r * 1440 = of_int \<lfloor>r * 1440\<rfloor>)"

lemma stored_ttl_cases:
  assumes "stored_ttl ttl"
  obtains t where "ttl = PI t" | k where "ttl = PF (of_int k / 1440)" "1 \<le> k" "k < 1440"
proof (cases ttl)
  case (PF r)
  define k where "k = \<lfloor>r * 1440\<rfloor>"
  have rk: "r * 1440 = of_int k" and r: "0 < r" "r < 1"
    using assms PF by (auto simp: stored_ttl_def k_def)
  then have "r = of_int k / 1440" by simp
  moreover have "0 < k" using r(1) rk by (metis mult_pos_pos of_int_0_less_iff zero_less_numeral)
  moreover have "k < 1440"
  proof -
    have "(of_int k :: rat) < 1440" using r(2) by (simp flip: rk)
    then show ?thesis by simp
  qed
  ultimately show ?thesis using PF that(2) [of k] by simp
qed (use that in auto)

lemma num_int_mono: "of_int c \<le> num_val m \<Longrightarrow> 0 \<le> c \<Longrightarrow> c \<le> num_int m"
  by (cases m) (auto simp: py_trunc_def le_floor_iff)

lemma num_int_sub:
  assumes "of_int c \<le> num_val m" "0 \<le> c"
  shows "num_int (num_sub m (PI c)) = num_int m - c"
proof (cases m)
  case (PF r)
  then have "of_int c \<le> r" "0 \<le> r" using assms by simp_all
  then show ?thesis using PF by (simp add: py_trunc_def)
qed simp

lemma num_val_sub: "num_val (num_sub m (PI c)) = num_val m - of_int c"
  by (cases m) simp_all

lemma fold_days_eq_pack_days:
  assumes "0 \<le> c" "c < 2 ^ 26" "of_int c \<le> num_val m" "stored_ttl ttl"
  shows "fold_days (PI c) m ttl = Inr (pack_days (PI c) m ttl)"
proof -
  have c: "c AND OLD_DAY_MASK = c"
    using assms by (simp add: codec_simps and_mask_field bit_field_id)
  have sub: "num_int (num_sub m (PI c)) = num_int m - c" "c \<le> num_int m"
    using assms by (simp_all add: num_int_sub num_int_mono)
  have pos: "num_val m - of_int c > 0 \<or> num_int m - c = 0"
    using assms(3) by (cases "num_val m = of_int c") (cases m; auto)+
  from assms(4) show ?thesis
  proof (cases rule: stored_ttl_cases)
    case (1 t)
    then show ?thesis using c sub pos
      by (auto simp: fold_days_def pack_days_def num_val_sub Let_def min_def codec_simps
          num_int_sub or.assoc)
  next
    case (2 k)
    then show ?thesis by (simp add: fold_days_def field_simps)
  qed
qed


lemma pack_days_view:
  assumes "0 \<le> c" "of_int c \<le> num_val m" "num_int m < 2 ^ 22" "stored_ttl ttl"
    and "flags AND KF_EXPIRE \<noteq> 0 \<longleftrightarrow> 0 < num_val ttl"
  shows "unpack_days (pack_days (PI c) m ttl) flags = day_view c m ttl"
proof -
  have cm: "c \<le> num_int m" using assms by (simp add: num_int_mono)
  from assms(4) show ?thesis
  proof (cases rule: stored_ttl_cases)
    case (1 t)
    show ?thesis
    proof (cases "0 < t")
      case True
      then have "pack_days (PI c) m (PI t) = pack_days (PI c) m (PI (min t 511))"
        by (simp add: pack_days_def codec_simps min_def)
      then show ?thesis using 1 True assms cm days_roundtrip_day [of c m "min t 511" flags]
        by (simp add: day_view_def Let_def)
    next
      case False
      then have "pack_days (PI c) m (PI t) = pack_days (PI c) m (PI 0)"
        by (simp add: pack_days_def)
      then show ?thesis using 1 False assms cm days_roundtrip_plain [of c m flags]
        by (simp add: day_view_def Let_def)
    qed
  next
    case (2 k)
    then show ?thesis using assms cm days_roundtrip_minute [of c m k flags]
      by (simp add: day_view_def field_simps Let_def)
  qed
qed

lemma push_bit_nonneg_int: "0 \<le> (x::int) \<Longrightarrow> 0 \<le> push_bit n x"
  by simp

lemma minute_less: "minute_of_day m < 2048"
  using minute_of_day_bounds(2) [of m] by linarith

lemma bit_field_less_48: "w + s \<le> 48 \<Longrightarrow> push_bit s (bit_field v w x) < 2 ^ 48"
  by (rule push_bit_less_exp [where w = w]) simp_all

lemma bit_field0_less_48: "w \<le> 48 \<Longrightarrow> bit_field v w x < 2 ^ 48"
  using bit_field_less_48 [of w 0 v x] by simp

lemma pack_days_48_bits:
  assumes "stored_ttl ttl" "num_int m < 2 ^ 22" "of_int c \<le> num_val m" "0 \<le> c"
  shows "0 \<le> pack_days (PI c) m ttl \<and> pack_days (PI c) m ttl < 2 ^ 48"
proof -
  have cm: "c \<le> num_int m" using assms by (simp add: num_int_mono)
  from assms(1) show ?thesis
  proof (cases rule: stored_ttl_cases)
    case (1 t)
    show ?thesis
    proof (cases "0 < t")
      case True
      then have e: "pack_days (PI c) m (PI t) = pack_days (PI c) m (PI (min t 511))"
        by (simp add: pack_days_def codec_simps min_def)
      have "push_bit 39 (min t 511) < 2 ^ 48" using True
        by (intro push_bit_less_exp [where w = 9]) auto
      then show ?thesis unfolding 1 e using True
        by (auto simp: pack_day bit_field0_less_48 [simplified] bit_field_less_48 [simplified]
            intro!: int_or_less_exp [where n = 48, simplified])
    next
      case False
      then have "pack_days (PI c) m (PI t) = pack_days (PI c) m (PI 0)"
        by (simp add: pack_days_def)
      then show ?thesis unfolding 1
        by (auto simp: pack_plain bit_field0_less_48 [simplified] bit_field_less_48 [simplified]
            intro!: int_or_less_exp [where n = 48, simplified])
    qed
  next
    case (2 k)
    have "push_bit 37 k < 2 ^ 48" "push_bit 26 (minute_of_day m) < 2 ^ 48"
      using 2 minute_less minute_of_day_bounds
      by (intro push_bit_less_exp [where w = 11]; simp)+
    moreover have "push_bit 23 (num_int m - c) < 2 ^ 48"
      if "num_int m - c \<le> 7" using that cm by (intro push_bit_less_exp [where w = 3]) auto
    ultimately show ?thesis unfolding 2 using 2 assms cm
      by (auto simp: pack_minute SUB_DAY_MASK_def bit_field0_less_48 [simplified] minute_of_day_bounds
          intro!: int_or_less_exp [where n = 48, simplified])
  qed
qed

lemma fold_unfold_days_view:
  assumes "0 \<le> c" "of_int c \<le> num_val m" "num_int m < 2 ^ 22" "stored_ttl ttl"
    and "flags AND KF_EXPIRE \<noteq> 0 \<longleftrightarrow> 0 < num_val ttl"
  shows "\<exists>d. fold_days (PI c) m ttl = Inr d \<and> 0 \<le> d \<and> d < 2 ^ 48 \<and>
             unfold_days d flags = day_view c m ttl"
proof -
  have "c < 2 ^ 26" using assms num_int_mono [of c m] by simp
  then show ?thesis
    using assms fold_days_eq_pack_days pack_days_48_bits pack_days_view
    by (simp add: unfold_days_eq_unpack_days)
qed

text \<open>
  C19: the day field a row codec writes never fails to encode, fits its 48 bits, and
  the inlined decoder of every row codec reads back exactly the promised view: both
  days and the lifetime, with the documented collapses, for each of the three
  layouts (no lifetime, whole days, minutes).
\<close>

theorem fold_unfold_days:
  assumes "0 \<le> c" "of_int c \<le> num_val m" "num_int m < 2 ^ 22" "stored_ttl ttl"
    and "flags AND KF_EXPIRE \<noteq> 0 \<longleftrightarrow> 0 < num_val ttl"
  shows "\<exists>d. fold_days (PI c) m ttl = Inr d \<and> 0 \<le> d \<and> d < 2 ^ 48 \<and>
             unfold_days d flags = day_view c m ttl"
  using assms by (rule fold_unfold_days_view)

theorem fold_unfold_days_witness:
  "\<exists>d. fold_days (PI 739000) (PF (739003 + 61 / 1440)) (PF (90 / 1440)) = Inr d \<and> 0 \<le> d \<and> d < 2 ^ 48 \<and>
       unfold_days d KF_EXPIRE = day_view 739000 (PF (739003 + 61 / 1440)) (PF (90 / 1440))"
  by (rule fold_unfold_days) (simp_all add: py_trunc_def stored_ttl_def)


section \<open>Lifetimes\<close>

text \<open>The whole seconds \<open>conv_ttl\<close> counts for a positive number of seconds.\<close>

definition ttl_whole_secs :: "rat \<Rightarrow> int" where
  "ttl_whole_secs secs = max 1 (py_round secs)"

lemma neg_div_ceil:
  assumes "0 < (b::int)" "1 \<le> s"
  shows "1 \<le> - ((- s) div b)" "(- ((- s) div b) - 1) * b < s" "s \<le> - ((- s) div b) * b"
proof -
  define q where "q = - ((- s) div b)"
  have "- s = (- q) * b + (- s) mod b" by (simp add: q_def)
  moreover have "0 \<le> (- s) mod b" "(- s) mod b < b" using assms by simp_all
  ultimately have qs: "s \<le> q * b" "q * b < s + b" by (simp_all add: algebra_simps)
  then show "s \<le> - ((- s) div b) * b" by (simp add: q_def)
  show "(- ((- s) div b) - 1) * b < s" using qs(2) by (simp add: q_def algebra_simps)
  show "1 \<le> - ((- s) div b)"
  proof (rule ccontr)
    assume "\<not> 1 \<le> - ((- s) div b)"
    then have "q * b \<le> 0" using assms by (simp add: q_def mult_le_0_iff)
    then show False using qs(1) assms by linarith
  qed
qed

text \<open>
  C20: \<open>conv_ttl\<close> of a positive duration below one day is a number of minutes that is
  the duration rounded up, at least one; from one day on it is a number of days
  rounded up and capped at 511.  A duration of 86340 seconds or less stays below
  1440 minutes, so its result is one the row codecs can store.
\<close>

theorem conv_ttl_rounds_up:
  assumes "0 < secs"
  shows "\<exists>k. 1 \<le> k \<and>
     (if ttl_whole_secs secs < 86400
      then conv_ttl (TTL_Delta secs) = Inr (PF (of_int k / 1440)) \<and>
           (k - 1) * 60 < ttl_whole_secs secs \<and> ttl_whole_secs secs \<le> k * 60 \<and>
           (ttl_whole_secs secs \<le> 86340 \<longrightarrow> stored_ttl (PF (of_int k / 1440)))
      else conv_ttl (TTL_Delta secs) = Inr (PI (min k 511)) \<and>
           (k - 1) * 86400 < ttl_whole_secs secs \<and> ttl_whole_secs secs \<le> k * 86400)"
proof (cases "ttl_whole_secs secs < 86400")
  case True
  define s where "s = ttl_whole_secs secs"
  define k where "k = - ((- s) div 60)"
  have s: "1 \<le> s" "s < 86400" using True by (simp_all add: s_def ttl_whole_secs_def)
  have k: "1 \<le> k" "(k - 1) * 60 < s" "s \<le> k * 60"
    using neg_div_ceil [of 60 s] s by (simp_all add: k_def)
  have "conv_ttl (TTL_Delta secs) = Inr (PF (of_int k / 1440))"
    using assms s k
    by (simp add: conv_ttl_secs_def codec_simps Let_def s_def [unfolded ttl_whole_secs_def, symmetric]
        k_def [symmetric])
  moreover have "stored_ttl (PF (of_int k / 1440))" if "s \<le> 86340"
    using that k by (simp add: stored_ttl_def)
  ultimately show ?thesis using True k by (intro exI [of _ k]) (simp add: s_def)
next
  case False
  define s where "s = ttl_whole_secs secs"
  define k where "k = - ((- s) div 86400)"
  have s: "86400 \<le> s" using False by (simp add: s_def)
  have k: "1 \<le> k" "(k - 1) * 86400 < s" "s \<le> k * 86400"
    using neg_div_ceil [of 86400 s] s by (simp_all add: k_def)
  have "conv_ttl (TTL_Delta secs) = Inr (PI (min k 511))"
    using assms s k
    by (simp add: conv_ttl_secs_def codec_simps Let_def s_def [unfolded ttl_whole_secs_def, symmetric]
        k_def [symmetric])
  then show ?thesis using False k by (intro exI [of _ k]) (simp add: s_def)
qed

theorem conv_ttl_rounds_up_witness:
  "\<exists>k. 1 \<le> k \<and>
     (if ttl_whole_secs 61 < 86400
      then conv_ttl (TTL_Delta 61) = Inr (PF (of_int k / 1440)) \<and>
           (k - 1) * 60 < ttl_whole_secs 61 \<and> ttl_whole_secs 61 \<le> k * 60 \<and>
           (ttl_whole_secs 61 \<le> 86340 \<longrightarrow> stored_ttl (PF (of_int k / 1440)))
      else conv_ttl (TTL_Delta 61) = Inr (PI (min k 511)) \<and>
           (k - 1) * 86400 < ttl_whole_secs 61 \<and> ttl_whole_secs 61 \<le> k * 86400)"
  by (rule conv_ttl_rounds_up) simp

text \<open>
  The last 59 seconds of a day escape that guarantee.  A \<open>timedelta\<close> of 86399
  seconds becomes 1440 minutes, that is the float 1.0, which is neither a minute
  lifetime nor an \<open>int\<close> of days; the row encoder then shifts a float and raises
  \<open>TypeError\<close>, so the write fails.
\<close>

theorem conv_ttl_last_minute:
  "conv_ttl (TTL_Delta 86399) = Inr (PF 1) \<and> fold_days (PI c) m (PF 1) = Inl TypeError"
proof
  have "py_round (86399 :: rat) = 86399" using py_round_of_int [of 86399] by simp
  then show "conv_ttl (TTL_Delta 86399) = Inr (PF 1)"
    by (simp add: conv_ttl_secs_def codec_simps)
  show "fold_days (PI c) m (PF 1) = Inl TypeError"
    by (cases m) (simp_all add: fold_days_def codec_simps Let_def)
qed

text \<open>
  A whole-day lifetime with a modification day before the creation day: the distance
  wraps to 13 bits, so the modification day is read back 8192 days later.
\<close>

lemma fold_days_negative_delta:
  "fold_days (PI 739000) (PI 738990) (PI 5) = Inr 3297864533688 \<and>
   unfold_days 3297864533688 KF_EXPIRE = (739000, PI (738990 + 8192), PI 5)"
  by (simp add: fold_days_def unfold_days_def codec_simps mask_eq_exp_minus_1 SUB_DAY_BIT_def Let_def)

end
