(* ===== verification/Byte_Stream.thy ===== *)
theory Byte_Stream
  imports Prelude
begin

text \<open>
  \<open>omni_json_db/jdb_file.py\<close>, class \<open>JBytesIO\<close>: the in-memory binary stream under the
  message-pack encoder and the memory files.  Its state is the byte buffer and the
  position; every method is a function on that state, with the value it returns
  first.  A position past the end is legal (a later write fills the gap with zeros).
\<close>

record jbytesio =
  buf :: bytes
  idx :: nat

definition new_stream :: "bytes \<Rightarrow> jbytesio" where
  "new_stream b = \<lparr>buf = b, idx = 0\<rparr>"

definition NL :: byte where "NL = 10"

text \<open>\<open>buf.find(b'\n', i, j)\<close>: the offset of the first newline in \<open>[i, j)\<close>.\<close>

fun find_nl :: "bytes \<Rightarrow> nat option" where
  "find_nl [] = None"
| "find_nl (b # bs) = (if b = NL then Some 0 else map_option Suc (find_nl bs))"

definition stream_readline :: "int option \<Rightarrow> jbytesio \<Rightarrow> bytes \<times> jbytesio" where
  "stream_readline sz s =
     (let i = idx s; max_size = length (buf s) in
      if i \<ge> max_size then ([], s)
      else
        let max_idx = (case sz of None \<Rightarrow> max_size
                         | Some n \<Rightarrow> if n < 0 then max_size else min max_size (i + nat n))
        in case find_nl (take (max_idx - i) (drop i (buf s))) of
             None \<Rightarrow> (take (max_idx - i) (drop i (buf s)), s\<lparr>idx := max_idx\<rparr>)
           | Some k \<Rightarrow>
               let next_idx = min max_idx (i + k + 1)
               in (take (next_idx - i) (drop i (buf s)), s\<lparr>idx := next_idx\<rparr>))"

lemma find_nl_Some: "find_nl bs = Some k \<Longrightarrow> k < length bs \<and> bs ! k = NL \<and> (\<forall>j<k. bs ! j \<noteq> NL)"
proof (induction bs arbitrary: k)
  case (Cons b bs)
  then show ?case
  proof (cases "b = NL")
    case False
    with Cons.prems obtain k' where k': "find_nl bs = Some k'" "k = Suc k'" by auto
    show ?thesis using Cons.IH [OF k'(1)] False k'(2) by (auto simp: nth_Cons')
  qed auto
qed simp

lemma find_nl_None: "find_nl bs = None \<longleftrightarrow> NL \<notin> set bs"
  by (induction bs) auto

lemma readline_progress:
  assumes "idx s < length (buf s)" "sz = None \<or> sz = Some (-1)"
  shows "idx s < idx (snd (stream_readline sz s))" "idx (snd (stream_readline sz s)) \<le> length (buf s)"
    and "buf (snd (stream_readline sz s)) = buf s" "fst (stream_readline sz s) \<noteq> []"
    and "fst (stream_readline sz s) =
           take (idx (snd (stream_readline sz s)) - idx s) (drop (idx s) (buf s))"
  using assms
  by (auto simp: stream_readline_def Let_def split: option.splits dest!: find_nl_Some)

text \<open>
  The loop of \<open>readlines\<close> (its argument-free \<open>readline\<close> reads without limit); it ends
  because a non-empty line moves the position forward.
\<close>

function readlines_loop :: "int option \<Rightarrow> nat \<Rightarrow> jbytesio \<Rightarrow> bytes list \<times> jbytesio" where
  "readlines_loop hint total_read s =
     (let (line, s') = stream_readline (Some (-1)) s in
      if line = [] then ([], s')
      else
        let total_read = total_read + length line in
        if (case hint of None \<Rightarrow> False | Some h \<Rightarrow> h > 0 \<and> int total_read > h) then ([line], s')
        else let (lines, s'') = readlines_loop hint total_read s' in (line # lines, s''))"
  by pat_completeness auto
termination
proof (relation "measure (\<lambda>(hint, total, s). length (buf s) - idx s)", goal_cases)
  case (2 hint total s p line s' total')
  have lt: "idx s < length (buf s)"
  proof (rule ccontr)
    assume "\<not> idx s < length (buf s)"
    then have "stream_readline (Some (-1)) s = ([], s)" by (simp add: stream_readline_def)
    with 2 show False by simp
  qed
  have s': "s' = snd (stream_readline (Some (-1)) s)" using 2 by (metis snd_conv)
  show ?case using readline_progress [OF lt, of "Some (-1)"] lt unfolding s' by simp
qed simp

declare readlines_loop.simps [simp del]

definition stream_readlines :: "int option \<Rightarrow> jbytesio \<Rightarrow> bytes list \<times> jbytesio" where
  "stream_readlines hint s =
     (if idx s \<ge> length (buf s) then ([], s) else readlines_loop hint 0 s)"

datatype whence = SEEK_SET | SEEK_CUR | SEEK_END | SEEK_INVALID

definition stream_seek :: "int \<Rightarrow> whence \<Rightarrow> jbytesio \<Rightarrow> (int \<times> jbytesio) res" where
  "stream_seek offset w s =
     (if w = SEEK_INVALID then Inl ValueError
      else
        let next_idx = (case w of SEEK_SET \<Rightarrow> offset
                          | SEEK_END \<Rightarrow> int (length (buf s)) + offset
                          | _ \<Rightarrow> int (idx s) + offset)
        in if next_idx < 0 then Inl ValueError
           else Inr (next_idx, s\<lparr>idx := nat next_idx\<rparr>))"

definition stream_tell :: "jbytesio \<Rightarrow> nat" where
  "stream_tell s = idx s"

definition stream_truncate :: "int option \<Rightarrow> jbytesio \<Rightarrow> (int \<times> jbytesio) res" where
  "stream_truncate sz s =
     (let sz = (case sz of None \<Rightarrow> int (idx s) | Some n \<Rightarrow> n) in
      if sz < 0 then Inl ValueError
      else Inr (sz, if sz < int (length (buf s)) then s\<lparr>buf := take (nat sz) (buf s)\<rparr> else s))"

definition stream_write :: "bytes \<Rightarrow> jbytesio \<Rightarrow> nat \<times> jbytesio" where
  "stream_write b s =
     (let n_byte = length b in
      if n_byte = 0 then (0, s)
      else
        let i = idx s;
            bf = (if i > length (buf s) then buf s @ replicate (i - length (buf s)) 0 else buf s)
        in if i \<ge> length bf then (n_byte, \<lparr>buf = bf @ b, idx = length (bf @ b)\<rparr>)
           else (n_byte, \<lparr>buf = take i bf @ b @ drop (i + n_byte) bf, idx = i + n_byte\<rparr>))"

fun stream_writelines :: "bytes list \<Rightarrow> jbytesio \<Rightarrow> jbytesio" where
  "stream_writelines [] s = s"
| "stream_writelines (l # ls) s = stream_writelines ls (snd (stream_write l s))"

definition stream_read :: "int option \<Rightarrow> jbytesio \<Rightarrow> bytes \<times> jbytesio" where
  "stream_read sz s =
     (let max_size = length (buf s); i = idx s;
          next_idx = (case sz of None \<Rightarrow> max_size
                        | Some n \<Rightarrow> if n < 0 then max_size else min max_size (i + nat n))
      in if next_idx \<le> i then ([], s)
         else (take (next_idx - i) (drop i (buf s)), s\<lparr>idx := next_idx\<rparr>))"

definition stream_readall :: "jbytesio \<Rightarrow> bytes \<times> jbytesio" where
  "stream_readall s = stream_read (Some (-1)) s"

text \<open>\<open>readinto\<close>: the count, the caller's buffer after the copy, and the stream.\<close>

definition stream_readinto :: "bytes \<Rightarrow> jbytesio \<Rightarrow> nat \<times> bytes \<times> jbytesio" where
  "stream_readinto b s =
     (let i = idx s; rest_size = int (length (buf s)) - int i in
      if rest_size \<le> 0 then (0, b, s)
      else
        let rd_size = min (length b) (nat rest_size) in
        if rd_size > 0
        then (rd_size, take rd_size (drop i (buf s)) @ drop rd_size b, s\<lparr>idx := i + rd_size\<rparr>)
        else (0, b, s))"


section \<open>Writing\<close>

text \<open>One equation for the three cases of a write: inside, across and past the end.\<close>

lemma stream_write_eq [codec_simps]:
  assumes "b \<noteq> []"
  shows "stream_write b s =
     (length b,
      \<lparr>buf = take (idx s) (buf s) @ replicate (idx s - length (buf s)) 0 @ b @ drop (idx s + length b) (buf s),
       idx = idx s + length b\<rparr>)"
  using assms by (cases "idx s > length (buf s)") (auto simp: stream_write_def Let_def)

lemma stream_write_Nil [simp]: "stream_write [] s = (0, s)"
  by (simp add: stream_write_def)

text \<open>Writing at the end appends.\<close>

lemma stream_write_append:
  "idx s = length (buf s) \<Longrightarrow>
     snd (stream_write b s) = \<lparr>buf = buf s @ b, idx = length (buf s) + length b\<rparr>"
  by (cases "b = []") (simp_all add: stream_write_eq)

lemma stream_write_rewind:
  "idx s = i \<Longrightarrow> i \<le> length (buf s) \<Longrightarrow>
     snd (stream_write b s) = \<lparr>buf = take i (buf s) @ b @ drop (i + length b) (buf s), idx = i + length b\<rparr>"
  by (cases "b = []") (simp_all add: stream_write_eq)

text \<open>
  C22: a write changes exactly the bytes it covers and puts zeros in the gap of an
  earlier seek; the buffer keeps its length or grows to the end of what was written,
  so no byte behind the written ones is lost, and an empty write changes nothing but
  is not an error past the end.  It returns the number of bytes, moves the position past
  them, and seeking back and reading that many bytes returns what was written.
\<close>

theorem stream_write_read:
  "fst (stream_write b s) = length b \<and>
   idx (snd (stream_write b s)) = idx s + length b \<and>
   length (buf (snd (stream_write b s))) =
     (if b = [] then length (buf s) else max (length (buf s)) (idx s + length b)) \<and>
   (\<forall>j < length (buf (snd (stream_write b s))).
      buf (snd (stream_write b s)) ! j =
        (if idx s \<le> j \<and> j < idx s + length b then b ! (j - idx s)
         else if j < length (buf s) then buf s ! j else 0)) \<and>
   fst (stream_read (Some (int (length b)))
          ((snd (stream_write b s))\<lparr>idx := idx s\<rparr>)) = b"
  by (cases "b = []")
     (auto simp: stream_write_eq stream_read_def nth_append Let_def min_def max_def)

theorem stream_write_read_witness:
  "fst (stream_read (Some 2) ((snd (stream_write [7, 9] \<lparr>buf = [1], idx = 3\<rparr>))\<lparr>idx := 3\<rparr>)) = [7, 9] \<and>
   idx (snd (stream_write [7, 9] \<lparr>buf = [1], idx = 3\<rparr>)) = 5 \<and>
   length (buf (snd (stream_write [7, 9] \<lparr>buf = [1], idx = 3\<rparr>))) = 5"
  using stream_write_read [of "[7, 9]" "\<lparr>buf = [1], idx = 3\<rparr>"] by simp

section \<open>Reading lines\<close>

definition is_line :: "bytes \<Rightarrow> bool" where
  "is_line l \<longleftrightarrow> l \<noteq> [] \<and> NL \<notin> set (butlast l)"

lemma readline_cases:
  assumes "idx s < length (buf s)"
  defines "rest \<equiv> drop (idx s) (buf s)"
  obtains (nl) k where "find_nl rest = Some k"
      "stream_readline (Some (-1)) s = (take (Suc k) rest, s\<lparr>idx := idx s + k + 1\<rparr>)"
  | (eof) "find_nl rest = None" "stream_readline (Some (-1)) s = (rest, s\<lparr>idx := length (buf s)\<rparr>)"
proof (cases "find_nl rest")
  case None
  then show ?thesis using eof assms by (simp add: stream_readline_def Let_def)
next
  case (Some k)
  then have "idx s + k + 1 \<le> length (buf s)"
    using find_nl_Some [OF Some, THEN conjunct1] assms(1) by (simp add: rest_def)
  then have "stream_readline (Some (-1)) s = (take (Suc k) rest, s\<lparr>idx := idx s + k + 1\<rparr>)"
    using Some assms by (simp add: stream_readline_def Let_def min_def)
  with Some show ?thesis by (rule nl)
qed

lemma line_upto_nl:
  assumes "find_nl rest = Some k"
  shows "is_line (take (Suc k) rest)" "last (take (Suc k) rest) = NL" "take (Suc k) rest \<noteq> []"
proof -
  have k: "k < length rest" "rest ! k = NL" "\<And>j. j < k \<Longrightarrow> rest ! j \<noteq> NL"
    using find_nl_Some [OF assms] by auto
  then have t: "take (Suc k) rest = take k rest @ [NL]"
    by (simp add: take_Suc_conv_app_nth)
  show "take (Suc k) rest \<noteq> []" "last (take (Suc k) rest) = NL" by (simp_all add: t)
  show "is_line (take (Suc k) rest)" using k(3)
    by (auto simp: is_line_def t in_set_conv_nth)
qed

lemma readlines_loop_None:
  assumes "readlines_loop None n s = (lines, s')"
  shows "concat lines = drop (idx s) (buf s) \<and> (\<forall>l\<in>set lines. is_line l) \<and>
         (\<forall>l\<in>set (butlast lines). last l = NL)"
  using assms
proof (induction "None :: int option" n s arbitrary: lines s' rule: readlines_loop.induct)
  case (1 n s)
  show ?case
  proof (cases "idx s < length (buf s)")
    case False
    then show ?thesis using "1.prems" by (simp add: readlines_loop.simps stream_readline_def)
  next
    case True
    then show ?thesis
    proof (cases rule: readline_cases)
      case (nl k)
      let ?line = "take (Suc k) (drop (idx s) (buf s))" and ?s = "s\<lparr>idx := idx s + k + 1\<rparr>"
      obtain ls t where r: "readlines_loop None (n + length ?line) ?s = (ls, t)"
        by (cases "readlines_loop None (n + length ?line) ?s") auto
      have lines: "lines = ?line # ls"
        using "1.prems" nl r line_upto_nl(3) [OF nl(1)]
        by (simp add: readlines_loop.simps [of _ n])
      have "concat ls = drop (idx ?s) (buf ?s) \<and> (\<forall>l\<in>set ls. is_line l) \<and>
         (\<forall>l\<in>set (butlast ls). last l = NL)"
        using "1.hyps" [OF nl(2) [symmetric] refl line_upto_nl(3) [OF nl(1)] refl _ r] by simp
      moreover have "?line @ drop (idx s + k + 1) (buf s) = drop (idx s) (buf s)"
        using append_take_drop_id [of "Suc k" "drop (idx s) (buf s)"] by (simp add: ac_simps)
      ultimately show ?thesis using line_upto_nl [OF nl(1)] by (auto simp: lines)
    next
      case eof
      have "readlines_loop None m (s\<lparr>idx := length (buf s)\<rparr>) = ([], s\<lparr>idx := length (buf s)\<rparr>)" for m
        by (simp add: readlines_loop.simps stream_readline_def)
      then have "lines = [drop (idx s) (buf s)]"
        using "1.prems" eof True by (simp add: readlines_loop.simps [of _ n])
      moreover have "is_line (drop (idx s) (buf s))"
        using eof(1) True by (auto simp: is_line_def find_nl_None dest: in_set_butlastD)
      ultimately show ?thesis by simp
    qed
  qed
qed

text \<open>
  C23: \<open>readlines\<close> without a hint terminates and splits the rest of the stream
  exactly: the lines concatenate to it, none is empty, a newline occurs in a line
  only at its end, and every line but the last ends with one.
\<close>

theorem stream_readlines_split:
  "concat (fst (stream_readlines None s)) = drop (idx s) (buf s) \<and>
   (\<forall>l\<in>set (fst (stream_readlines None s)). is_line l) \<and>
   (\<forall>l\<in>set (butlast (fst (stream_readlines None s))). last l = NL)"
  using readlines_loop_None [of 0 s]
  by (cases "readlines_loop None 0 s") (auto simp: stream_readlines_def)


theorem stream_readlines_split_witness:
  "concat (fst (stream_readlines None \<lparr>buf = [65, 10, 66], idx = 1\<rparr>)) = [10, 66]"
  using stream_readlines_split [of "\<lparr>buf = [65, 10, 66], idx = 1\<rparr>"] by simp

end
