(* ===== verification/Utf8.thy ===== *)
theory Utf8
  imports Prelude
begin

text \<open>
  Python's strict UTF-8 codec, which the serializers apply to every string: encoding
  raises \<open>UnicodeError\<close> on a surrogate, decoding on a malformed, truncated or overlong
  sequence, on a surrogate and above U+10FFFF.
\<close>

definition scalar :: "nat \<Rightarrow> bool" where
  "scalar c = (c < 0xD800 \<or> (0xE000 \<le> c \<and> c \<le> 0x10FFFF))"

definition utf8_char :: "nat \<Rightarrow> bytes" where
  "utf8_char c =
     (if c < 0x80 then [byte_of c]
      else if c < 0x800 then [byte_of (0xC0 + c div 64), byte_of (0x80 + c mod 64)]
      else if c < 0x10000 then
        [byte_of (0xE0 + c div 4096), byte_of (0x80 + c div 64 mod 64),
         byte_of (0x80 + c mod 64)]
      else
        [byte_of (0xF0 + c div 262144), byte_of (0x80 + c div 4096 mod 64),
         byte_of (0x80 + c div 64 mod 64), byte_of (0x80 + c mod 64)])"

definition utf8_encode :: "nat list \<Rightarrow> bytes res" where
  "utf8_encode s = (if list_all scalar s then Inr (concat (map utf8_char s)) else Inl UnicodeError)"

definition is_cont :: "byte \<Rightarrow> bool" where
  "is_cont b = (0x80 \<le> unat b \<and> unat b < 0xC0)"

fun utf8_decode :: "bytes \<Rightarrow> nat list res" where
  "utf8_decode [] = Inr []"
| "utf8_decode (a # bs) =
     (if unat a < 0x80 then res_bind (utf8_decode bs) (\<lambda>s. Inr (unat a # s))
      else if unat a < 0xC0 then Inl UnicodeError
      else if unat a < 0xE0 then
        (case bs of b # bs' \<Rightarrow>
           let c = (unat a - 0xC0) * 64 + (unat b - 0x80) in
           if is_cont b \<and> 0x80 \<le> c then res_bind (utf8_decode bs') (\<lambda>s. Inr (c # s))
           else Inl UnicodeError
         | _ \<Rightarrow> Inl UnicodeError)
      else if unat a < 0xF0 then
        (case bs of b # b' # bs' \<Rightarrow>
           let c = (unat a - 0xE0) * 4096 + (unat b - 0x80) * 64 + (unat b' - 0x80) in
           if is_cont b \<and> is_cont b' \<and> 0x800 \<le> c \<and> scalar c
           then res_bind (utf8_decode bs') (\<lambda>s. Inr (c # s)) else Inl UnicodeError
         | _ \<Rightarrow> Inl UnicodeError)
      else if unat a < 0xF8 then
        (case bs of b # b' # b'' # bs' \<Rightarrow>
           let c = (unat a - 0xF0) * 262144 + (unat b - 0x80) * 4096 + (unat b' - 0x80) * 64
                     + (unat b'' - 0x80) in
           if is_cont b \<and> is_cont b' \<and> is_cont b'' \<and> 0x10000 \<le> c \<and> scalar c
           then res_bind (utf8_decode bs') (\<lambda>s. Inr (c # s)) else Inl UnicodeError
         | _ \<Rightarrow> Inl UnicodeError)
      else Inl UnicodeError)"

lemma split64: "(c::nat) div 64 * 64 + c mod 64 = c"
  by simp

lemma split4096: "(c::nat) div 4096 * 4096 + c div 64 mod 64 * 64 + c mod 64 = c"
proof -
  have e: "c div 4096 = c div 64 div 64" by (simp add: div_mult2_eq [symmetric])
  show ?thesis unfolding e using split64 [of c] split64 [of "c div 64"] by linarith
qed

lemma split262144:
  "(c::nat) div 262144 * 262144 + c div 4096 mod 64 * 4096 + c div 64 mod 64 * 64 + c mod 64 = c"
proof -
  have e: "c div 262144 = c div 4096 div 64" by (simp add: div_mult2_eq [symmetric])
  show ?thesis unfolding e using split4096 [of c] split64 [of "c div 4096"] by linarith
qed

lemma utf8_decode_char:
  assumes "scalar c"
  shows "utf8_decode (utf8_char c @ bs) = res_bind (utf8_decode bs) (\<lambda>s. Inr (c # s))"
proof -
  have c: "c < 0x110000" using assms by (auto simp: scalar_def)
  consider "c < 0x80" | "0x80 \<le> c" "c < 0x800" | "0x800 \<le> c" "c < 0x10000" | "0x10000 \<le> c"
    by linarith
  then show ?thesis
  proof cases
    case 1
    then show ?thesis by (simp add: utf8_char_def)
  next
    case 2
    then have "c div 64 < 32" by (simp add: less_mult_imp_div_less)
    then show ?thesis using 2 split64 [of c]
      by (auto simp add: utf8_char_def is_cont_def)
  next
    case 3
    then have "c div 4096 < 16" by (simp add: less_mult_imp_div_less)
    then show ?thesis using 3 split4096 [of c] assms
      by (simp add: utf8_char_def is_cont_def)
  next
    case 4
    then have "c div 262144 < 8" using c by (simp add: less_mult_imp_div_less)
    then show ?thesis using 4 c split262144 [of c] assms
      by (simp add: utf8_char_def is_cont_def)
  qed
qed

lemma utf8_decode_encode:
  assumes "utf8_encode s = Inr b"
  shows "utf8_decode b = Inr s"
proof -
  have "list_all scalar s" "b = concat (map utf8_char s)"
    using assms by (auto simp: utf8_encode_def split: if_splits)
  then show ?thesis
    by (induction s arbitrary: b) (auto simp: utf8_decode_char simp del: utf8_decode.simps(2))
qed

end
