(* ===== verification/Values.thy ===== *)
theory Values
  imports Prelude
begin

text \<open>
  The Python values a record can hold, with the language's equality and hashability,
  and the two functions of \<open>omni_json_db/utils.py\<close> on them: \<open>is_value_extension\<close>,
  which decides what an append-only record accepts, and \<open>deepcopy\<close>, which fills the
  read cache.  A string is the list of its code points, a float its IEEE-754 bit
  pattern; a set lists its elements and a dictionary its items in iteration order.
  Two floats that are both not-a-number are different objects, so they compare unequal.
\<close>

datatype pyval =
    VNone | VBool bool | VInt int | VFloat "64 word"
  | VStr "nat list" | VBytes bytes | VByteArray bytes
  | VList "pyval list" | VTuple "pyval list" | VDict "(pyval \<times> pyval) list"
  | VSet "pyval list" | VFrozen "pyval list"

section \<open>Numbers\<close>

text \<open>The exact value of a finite double; infinities and not-a-number have none.\<close>

definition float_value :: "64 word \<Rightarrow> rat option" where
  "float_value w =
     (let u = unat w; m = u mod 2 ^ 52; e = u div 2 ^ 52 mod 2 ^ 11;
          sg = (if u div 2 ^ 63 = 1 then -1 else 1 :: rat)
      in if e = 2047 then None
         else if e = 0 then Some (sg * of_nat m / 2 ^ 1074)
         else if e < 1075 then Some (sg * of_nat (2 ^ 52 + m) / 2 ^ (1075 - e))
         else Some (sg * of_nat (2 ^ 52 + m) * 2 ^ (e - 1075)))"

definition float_nan :: "64 word \<Rightarrow> bool" where
  "float_nan w = (unat w div 2 ^ 52 mod 2 ^ 11 = 2047 \<and> unat w mod 2 ^ 52 \<noteq> 0)"

fun number_of :: "pyval \<Rightarrow> rat option" where
  "number_of (VBool b) = Some (if b then 1 else 0)"
| "number_of (VInt i) = Some (of_int i)"
| "number_of (VFloat w) = float_value w"
| "number_of _ = None"

text \<open>Numeric \<open>==\<close>: by exact value, or as equal infinities.\<close>

fun num_eq :: "pyval \<Rightarrow> pyval \<Rightarrow> bool" where
  "num_eq (VFloat a) (VFloat b) =
     (if float_value a = None \<or> float_value b = None then a = b \<and> \<not> float_nan a
      else float_value a = float_value b)"
| "num_eq x y = (number_of x \<noteq> None \<and> number_of x = number_of y)"

fun is_number :: "pyval \<Rightarrow> bool" where
  "is_number (VBool _) = True"
| "is_number (VInt _) = True"
| "is_number (VFloat _) = True"
| "is_number _ = False"

section \<open>Equality and hashability\<close>

lemma zip_size [termination_simp]:
  "(a, b) \<in> set (zip xs ys) \<Longrightarrow> size a < Suc (size_list size xs)"
  by (drule set_zip_leftD) (simp add: size_list_estimation' less_Suc_eq_le)

fun py_eq :: "pyval \<Rightarrow> pyval \<Rightarrow> bool" where
  "py_eq VNone y = (y = VNone)"
| "py_eq (VStr a) y = (case y of VStr b \<Rightarrow> a = b | _ \<Rightarrow> False)"
| "py_eq (VBytes a) y = (case y of VBytes b \<Rightarrow> a = b | VByteArray b \<Rightarrow> a = b | _ \<Rightarrow> False)"
| "py_eq (VByteArray a) y = (case y of VBytes b \<Rightarrow> a = b | VByteArray b \<Rightarrow> a = b | _ \<Rightarrow> False)"
| "py_eq (VList xs) y =
     (case y of VList ys \<Rightarrow> length xs = length ys \<and> list_all (\<lambda>(a, b). py_eq a b) (zip xs ys)
      | _ \<Rightarrow> False)"
| "py_eq (VTuple xs) y =
     (case y of VTuple ys \<Rightarrow> length xs = length ys \<and> list_all (\<lambda>(a, b). py_eq a b) (zip xs ys)
      | _ \<Rightarrow> False)"
| "py_eq (VDict xs) y =
     (case y of VDict ys \<Rightarrow> length xs = length ys \<and>
        list_all (\<lambda>(k, v). list_ex (\<lambda>(k', v'). py_eq k k' \<and> py_eq v v') ys) xs
      | _ \<Rightarrow> False)"
| "py_eq (VSet xs) y =
     (case y of VSet ys \<Rightarrow> length xs = length ys \<and> list_all (\<lambda>a. list_ex (\<lambda>b. py_eq a b) ys) xs
      | VFrozen ys \<Rightarrow> length xs = length ys \<and> list_all (\<lambda>a. list_ex (\<lambda>b. py_eq a b) ys) xs
      | _ \<Rightarrow> False)"
| "py_eq (VFrozen xs) y =
     (case y of VSet ys \<Rightarrow> length xs = length ys \<and> list_all (\<lambda>a. list_ex (\<lambda>b. py_eq a b) ys) xs
      | VFrozen ys \<Rightarrow> length xs = length ys \<and> list_all (\<lambda>a. list_ex (\<lambda>b. py_eq a b) ys) xs
      | _ \<Rightarrow> False)"
| "py_eq x y = num_eq x y"


fun hashable :: "pyval \<Rightarrow> bool" where
  "hashable (VTuple xs) = list_all hashable xs"
| "hashable (VList xs) = False"
| "hashable (VDict xs) = False"
| "hashable (VSet xs) = False"
| "hashable (VByteArray b) = False"
| "hashable v = True"

text \<open>Adding a member to a set: an equal member that is already there stays.\<close>

definition set_add :: "pyval list \<Rightarrow> pyval \<Rightarrow> pyval list" where
  "set_add xs v = (if list_ex (\<lambda>u. py_eq u v) xs then xs else xs @ [v])"

text \<open>Assigning an item of a dictionary: an equal key keeps its place.\<close>

fun dict_set :: "(pyval \<times> pyval) list \<Rightarrow> pyval \<Rightarrow> pyval \<Rightarrow> (pyval \<times> pyval) list" where
  "dict_set [] k v = [(k, v)]"
| "dict_set ((k', v') # d) k v = (if py_eq k' k then (k', v) # d else (k', v') # dict_set d k v)"

fun dict_get :: "(pyval \<times> pyval) list \<Rightarrow> pyval \<Rightarrow> pyval option" where
  "dict_get [] k = None"
| "dict_get ((k', v') # d) k = (if py_eq k' k then Some v' else dict_get d k)"

section \<open>\<open>is_value_extension\<close>\<close>

definition is_prefix :: "'a list \<Rightarrow> 'a list \<Rightarrow> bool" where
  "is_prefix a b = (take (length a) b = a)"

fun is_value_extension :: "pyval \<Rightarrow> pyval \<Rightarrow> bool" where
  "is_value_extension VNone new = (new \<noteq> VNone)"
| "is_value_extension (VStr a) (VStr b) = (length b > length a \<and> is_prefix a b)"
| "is_value_extension (VBytes a) (VBytes b) = (length b > length a \<and> is_prefix a b)"
| "is_value_extension (VByteArray a) (VByteArray b) = (length b > length a \<and> is_prefix a b)"
| "is_value_extension (VList a) (VList b) =
     (length b > length a \<and> py_eq (VList (take (length a) b)) (VList a))"
| "is_value_extension (VTuple a) (VTuple b) =
     (length b > length a \<and> py_eq (VTuple (take (length a) b)) (VTuple a))"
| "is_value_extension (VDict a) (VDict b) =
     (length b > length a \<and>
      list_all (\<lambda>(k, v). case dict_get b k of None \<Rightarrow> False | Some w \<Rightarrow> py_eq w v) a)"
| "is_value_extension (VSet a) (VSet b) =
     (length b > length a \<and> list_all (\<lambda>x. list_ex (\<lambda>y. py_eq x y) b) a)"
| "is_value_extension (VFrozen a) (VFrozen b) =
     (length b > length a \<and> list_all (\<lambda>x. list_ex (\<lambda>y. py_eq x y) b) a)"
| "is_value_extension old new = False"

section \<open>\<open>deepcopy\<close>\<close>

text \<open>
  A value without \<open>__hash__\<close> that no earlier branch takes is rebuilt as a list of its
  elements; besides lists these are the byte arrays, whose elements are integers.
\<close>

fun deepcopy :: "pyval \<Rightarrow> pyval" where
  "deepcopy (VTuple xs) = VTuple (map deepcopy xs)"
| "deepcopy (VDict items) = VDict (map (\<lambda>(k, v). (k, deepcopy v)) items)"
| "deepcopy (VSet xs) = VSet xs"
| "deepcopy (VList xs) = VList (map deepcopy xs)"
| "deepcopy (VByteArray b) = VList (map (\<lambda>x. VInt (uint x)) b)"
| "deepcopy v = v"

text \<open>Values in which no container \<open>deepcopy\<close> enters holds a byte array.\<close>

fun no_bytearray :: "pyval \<Rightarrow> bool" where
  "no_bytearray (VByteArray b) = False"
| "no_bytearray (VTuple xs) = list_all no_bytearray xs"
| "no_bytearray (VList xs) = list_all no_bytearray xs"
| "no_bytearray (VDict items) = list_all (\<lambda>(k, v). no_bytearray v) items"
| "no_bytearray v = True"

text \<open>
  \<open>deepcopy\<close> preserves a value exactly when it contains no byte array: the
  documented copy holds for every other type, while a byte array comes back as a list
  of integers, so the value served from the cache after a write is not the value written.
\<close>

theorem deepcopy_preserves_iff: "deepcopy v = v \<longleftrightarrow> no_bytearray v"
proof (induction v rule: deepcopy.induct)
  case (1 xs)
  then show ?case by (auto simp: list_all_iff map_idI list.map_ident_strong intro: map_idI)
      (metis map_eq_conv map_ident)
next
  case (2 items)
  have "map (\<lambda>(k, v). (k, deepcopy v)) items = items \<longleftrightarrow>
      (\<forall>(k, v)\<in>set items. deepcopy v = v)"
    by (induction items) auto
  with 2 show ?case by (fastforce simp: list_all_iff)
next
  case (4 xs)
  then show ?case by (auto simp: list_all_iff map_idI) (metis map_eq_conv map_ident)
qed simp_all

text \<open>\<open>type(x) is type(y)\<close>.\<close>

fun same_type :: "pyval \<Rightarrow> pyval \<Rightarrow> bool" where
  "same_type VNone y = (y = VNone)"
| "same_type (VBool _) y = (\<exists>b. y = VBool b)"
| "same_type (VInt _) y = (\<exists>b. y = VInt b)"
| "same_type (VFloat _) y = (\<exists>b. y = VFloat b)"
| "same_type (VStr _) y = (\<exists>b. y = VStr b)"
| "same_type (VBytes _) y = (\<exists>b. y = VBytes b)"
| "same_type (VByteArray _) y = (\<exists>b. y = VByteArray b)"
| "same_type (VList _) y = (\<exists>b. y = VList b)"
| "same_type (VTuple _) y = (\<exists>b. y = VTuple b)"
| "same_type (VDict _) y = (\<exists>b. y = VDict b)"
| "same_type (VSet _) y = (\<exists>b. y = VSet b)"
| "same_type (VFrozen _) y = (\<exists>b. y = VFrozen b)"

lemma is_prefix_append: "is_prefix a b \<longleftrightarrow> (\<exists>t. b = a @ t)"
  by (auto simp: is_prefix_def) (metis append_take_drop_id)

lemma is_value_extension_same_type:
  "is_value_extension old new \<Longrightarrow> old = VNone \<or> same_type old new"
  by (cases "(old, new)" rule: is_value_extension.cases) auto

lemma is_value_extension_asym:
  "is_value_extension old new \<Longrightarrow> \<not> is_value_extension new old"
  by (cases "(old, new)" rule: is_value_extension.cases) (auto, cases new, auto)

lemma py_eq_list_take:
  assumes "py_eq (VList (take n b)) (VList a)"
  shows "list_all2 py_eq (take n b) a"
  using assms by (auto simp: list_all_iff list_all2_iff)

lemma is_value_extension_list:
  assumes "is_value_extension (VList xs) new"
  shows "\<exists>ys zs. zs \<noteq> [] \<and> new = VList (ys @ zs) \<and> list_all2 py_eq ys xs"
proof -
  obtain b where b: "new = VList b" "length xs < length b"
      "py_eq (VList (take (length xs) b)) (VList xs)"
    using assms by (cases new) auto
  then show ?thesis
    using py_eq_list_take [OF b(3)]
    by (intro exI [of _ "take (length xs) b"] exI [of _ "drop (length xs) b"]) simp
qed

lemma is_value_extension_tuple:
  assumes "is_value_extension (VTuple xs) new"
  shows "\<exists>ys zs. zs \<noteq> [] \<and> new = VTuple (ys @ zs) \<and> list_all2 py_eq ys xs"
proof -
  obtain b where b: "new = VTuple b" "length xs < length b"
      "py_eq (VTuple (take (length xs) b)) (VTuple xs)"
    using assms by (cases new) auto
  then have "list_all2 py_eq (take (length xs) b) xs"
    by (auto simp: list_all_iff list_all2_iff)
  with b show ?thesis
    by (intro exI [of _ "take (length xs) b"] exI [of _ "drop (length xs) b"]) simp
qed

lemma is_value_extension_dict:
  "is_value_extension (VDict a) new \<longleftrightarrow>
     (\<exists>b. new = VDict b \<and> length a < length b \<and>
        (\<forall>(k, v) \<in> set a. \<exists>w. dict_get b k = Some w \<and> py_eq w v))"
  by (cases new) (auto simp: list_all_iff split: option.splits)

lemma is_value_extension_set:
  "is_value_extension (VSet a) new \<longleftrightarrow>
     (\<exists>b. new = VSet b \<and> length a < length b \<and> (\<forall>x \<in> set a. \<exists>y \<in> set b. py_eq x y))"
  "is_value_extension (VFrozen a) new \<longleftrightarrow>
     (\<exists>b. new = VFrozen b \<and> length a < length b \<and> (\<forall>x \<in> set a. \<exists>y \<in> set b. py_eq x y))"
  by (cases new, auto simp: list_all_iff list_ex_iff)+

text \<open>
  C24: what an append-only record accepts strictly grows it.  An accepted value is
  never accepted back, nothing replaces itself, and only a record that holds \<open>None\<close> may
  change its type.  A text, a byte string or a byte array keeps the old one as a proper
  prefix; a list or a tuple is longer and starts with equal elements; a dictionary has
  more items, and each old key is still there with an equal value; a set or a frozen set
  has more members, and each old one still has an equal member.
\<close>

theorem is_value_extension_grows:
  assumes "is_value_extension old new"
  shows "\<not> is_value_extension new old \<and> (old = VNone \<or> same_type old new) \<and>
     (\<forall>s. old = VStr s \<longrightarrow> (\<exists>t. t \<noteq> [] \<and> new = VStr (s @ t))) \<and>
     (\<forall>b. old = VBytes b \<longrightarrow> (\<exists>t. t \<noteq> [] \<and> new = VBytes (b @ t))) \<and>
     (\<forall>b. old = VByteArray b \<longrightarrow> (\<exists>t. t \<noteq> [] \<and> new = VByteArray (b @ t))) \<and>
     (\<forall>xs. old = VList xs \<longrightarrow>
        (\<exists>ys zs. zs \<noteq> [] \<and> new = VList (ys @ zs) \<and> list_all2 py_eq ys xs)) \<and>
     (\<forall>xs. old = VTuple xs \<longrightarrow>
        (\<exists>ys zs. zs \<noteq> [] \<and> new = VTuple (ys @ zs) \<and> list_all2 py_eq ys xs)) \<and>
     (\<forall>a. old = VDict a \<longrightarrow>
        (\<exists>b. new = VDict b \<and> length a < length b \<and>
           (\<forall>(k, v) \<in> set a. \<exists>w. dict_get b k = Some w \<and> py_eq w v))) \<and>
     (\<forall>a. old = VSet a \<longrightarrow>
        (\<exists>b. new = VSet b \<and> length a < length b \<and> (\<forall>x \<in> set a. \<exists>y \<in> set b. py_eq x y))) \<and>
     (\<forall>a. old = VFrozen a \<longrightarrow>
        (\<exists>b. new = VFrozen b \<and> length a < length b \<and> (\<forall>x \<in> set a. \<exists>y \<in> set b. py_eq x y)))"
proof (intro conjI allI impI)
  show "\<not> is_value_extension new old" "old = VNone \<or> same_type old new"
    using assms by (simp_all add: is_value_extension_asym is_value_extension_same_type)
  show "\<exists>t. t \<noteq> [] \<and> new = VStr (s @ t)" if "old = VStr s" for s
    using assms that by (cases new) (auto simp: is_prefix_append)
  show "\<exists>t. t \<noteq> [] \<and> new = VBytes (b @ t)" if "old = VBytes b" for b
    using assms that by (cases new) (auto simp: is_prefix_append)
  show "\<exists>t. t \<noteq> [] \<and> new = VByteArray (b @ t)" if "old = VByteArray b" for b
    using assms that by (cases new) (auto simp: is_prefix_append)
qed (use assms in \<open>blast dest: is_value_extension_list is_value_extension_tuple
       is_value_extension_dict [THEN iffD1] is_value_extension_set [THEN iffD1]\<close>)+

theorem is_value_extension_grows_witness:
  "is_value_extension (VDict [(VInt 1, VNone)]) (VDict [(VStr [97], VInt 2), (VBool True, VNone)]) \<and>
   \<not> is_value_extension (VDict [(VStr [97], VInt 2), (VBool True, VNone)]) (VDict [(VInt 1, VNone)])"
  using is_value_extension_grows
    [of "VDict [(VInt 1, VNone)]" "VDict [(VStr [97], VInt 2), (VBool True, VNone)]"]
  by simp

end
