(* ===== verification/Msgpack.thy ===== *)
theory Msgpack
  imports Byte_Stream Utf8 Values
begin

text \<open>
  \<open>omni_json_db/jdb_codec.py\<close>: the pure-Python message-pack codec, which serves when
  the optional C library is absent.  \<open>msg_pack\<close> is the encoder as written, on the
  stream it writes to, including the rewind that puts an extension header in front of
  a set; \<open>enc\<close> is the encoding it implements.  The decoder recurses on a fuel that
  bounds the nesting; running out of it is a \<open>RecursionError\<close>, which a theorem excludes.
\<close>

section \<open>Headers\<close>

definition be_int :: "nat \<Rightarrow> int \<Rightarrow> bytes" where
  "be_int k i = be_bytes k (nat (i mod 256 ^ k))"

definition pack_int :: "int \<Rightarrow> bytes res" where
  "pack_int obj =
     (if 0 \<le> obj \<and> obj < 0x80 then Inr (be_int 1 obj)
      else if - 0x20 \<le> obj \<and> obj < 0 then Inr (be_int 1 obj)
      else if 0x80 \<le> obj \<and> obj \<le> 0xFF then Inr (0xCC # be_int 1 obj)
      else if - 0x80 \<le> obj \<and> obj < 0 then Inr (0xD0 # be_int 1 obj)
      else if 0xFF < obj \<and> obj \<le> 0xFFFF then Inr (0xCD # be_int 2 obj)
      else if - 0x8000 \<le> obj \<and> obj < - 0x80 then Inr (0xD1 # be_int 2 obj)
      else if 0xFFFF < obj \<and> obj \<le> 0xFFFFFFFF then Inr (0xCE # be_int 4 obj)
      else if - 0x80000000 \<le> obj \<and> obj < - 0x8000 then Inr (0xD2 # be_int 4 obj)
      else if 0xFFFFFFFF < obj \<and> obj \<le> 0xFFFFFFFFFFFFFFFF then Inr (0xCF # be_int 8 obj)
      else if - 0x8000000000000000 \<le> obj \<and> obj < - 0x80000000 then Inr (0xD3 # be_int 8 obj)
      else Inl ValueError)"

definition bin_header :: "nat \<Rightarrow> bytes" where
  "bin_header n =
     (if n \<le> 0xFF then 0xC4 # be_bytes 1 n else if n \<le> 0xFFFF then 0xC5 # be_bytes 2 n
      else 0xC6 # be_bytes 4 n)"

definition str_header :: "nat \<Rightarrow> bytes" where
  "str_header n =
     (if n \<le> 0x1F then be_bytes 1 (0xA0 + n) else if n \<le> 0xFF then 0xD9 # be_bytes 1 n
      else if n \<le> 0xFFFF then 0xDA # be_bytes 2 n else 0xDB # be_bytes 4 n)"

definition array_header :: "nat \<Rightarrow> bytes" where
  "array_header n =
     (if n \<le> 0xF then be_bytes 1 (0x90 + n) else if n \<le> 0xFFFF then 0xDC # be_bytes 2 n
      else 0xDD # be_bytes 4 n)"

definition map_header :: "nat \<Rightarrow> bytes" where
  "map_header n =
     (if n \<le> 0xF then be_bytes 1 (0x80 + n) else if n \<le> 0xFFFF then 0xDE # be_bytes 2 n
      else 0xDF # be_bytes 4 n)"

definition ext_header :: "nat \<Rightarrow> bytes" where
  "ext_header L =
     (if L > 0xFFFF then 0xC9 # be_bytes 4 L else if L > 0xFF then 0xC8 # be_bytes 2 L
      else if L = 16 then [0xD8] else if L = 8 then [0xD7] else if L = 4 then [0xD6]
      else if L = 2 then [0xD5] else if L = 1 then [0xD4] else 0xC7 # be_bytes 1 L)"

definition EXT_SET :: nat where "EXT_SET = 123"
definition EXT_FROZENSET :: nat where "EXT_FROZENSET = 124"

section \<open>The encoder on the stream\<close>

abbreviation put :: "bytes \<Rightarrow> jbytesio \<Rightarrow> jbytesio" where
  "put b s \<equiv> snd (stream_write b s)"

text \<open>The end of the array branch when \<open>ext_code\<close> is set: the array just written from
  offset \<open>i\<close> on is read back, the position rewound, and header, code and array written;
  \<open>struct\<close> refuses a length of more than 32 bits.\<close>

definition wrap_ext :: "nat \<Rightarrow> nat \<Rightarrow> jbytesio \<Rightarrow> jbytesio res" where
  "wrap_ext ext_code i s =
     (let L = idx s - i; data = take L (drop i (buf s))
      in if 2 ^ 32 \<le> L then Inl StructError
         else Inr (put data (put [byte_of ext_code] (put (ext_header L) (s\<lparr>idx := i\<rparr>)))))"

function (sequential) msg_pack :: "int \<Rightarrow> pyval \<Rightarrow> jbytesio \<Rightarrow> jbytesio res"
  and msg_pack_all :: "int \<Rightarrow> pyval list \<Rightarrow> jbytesio \<Rightarrow> jbytesio res"
  and msg_pack_items :: "int \<Rightarrow> (pyval \<times> pyval) list \<Rightarrow> jbytesio \<Rightarrow> jbytesio res" where
  "msg_pack nl VNone s = (if nl < 0 then Inl ValueError else Inr (put [0xC0] s))"
| "msg_pack nl (VBool b) s =
     (if nl < 0 then Inl ValueError else Inr (put [if b then 0xC3 else 0xC2] s))"
| "msg_pack nl (VInt i) s =
     (if nl < 0 then Inl ValueError else res_bind (pack_int i) (\<lambda>b. Inr (put b s)))"
| "msg_pack nl (VBytes b) s =
     (if nl < 0 \<or> 2 ^ 32 \<le> length b then Inl ValueError
      else Inr (put b (put (bin_header (length b)) s)))"
| "msg_pack nl (VByteArray b) s =
     (if nl < 0 \<or> 2 ^ 32 \<le> length b then Inl ValueError
      else Inr (put b (put (bin_header (length b)) s)))"
| "msg_pack nl (VStr t) s =
     (if nl < 0 then Inl ValueError
      else res_bind (utf8_encode t) (\<lambda>b.
        if 2 ^ 32 \<le> length b then Inl ValueError
        else Inr (put b (put (str_header (length b)) s))))"
| "msg_pack nl (VFloat w) s =
     (if nl < 0 then Inl ValueError else Inr (put (0xCB # be_bytes 8 (unat w)) s))"
| "msg_pack nl (VList xs) s =
     (if nl < 0 \<or> 2 ^ 32 \<le> length xs then Inl ValueError
      else msg_pack_all (nl - 1) xs (put (array_header (length xs)) s))"
| "msg_pack nl (VTuple xs) s =
     (if nl < 0 \<or> 2 ^ 32 \<le> length xs then Inl ValueError
      else msg_pack_all (nl - 1) xs (put (array_header (length xs)) s))"
| "msg_pack nl (VDict items) s =
     (if nl < 0 \<or> 2 ^ 32 \<le> length items then Inl ValueError
      else msg_pack_items (nl - 1) items (put (map_header (length items)) s))"
| "msg_pack nl (VSet xs) s =
     (if nl < 0 \<or> 2 ^ 32 \<le> length xs then Inl ValueError
      else res_bind (msg_pack_all (nl - 1) xs (put (array_header (length xs)) s)) (\<lambda>s'.
        wrap_ext EXT_SET (idx s) s'))"
| "msg_pack nl (VFrozen xs) s =
     (if nl < 0 \<or> 2 ^ 32 \<le> length xs then Inl ValueError
      else res_bind (msg_pack_all (nl - 1) xs (put (array_header (length xs)) s)) (\<lambda>s'.
        wrap_ext EXT_FROZENSET (idx s) s'))"
| "msg_pack_all nl [] s = Inr s"
| "msg_pack_all nl (v # vs) s = res_bind (msg_pack nl v s) (\<lambda>s'. msg_pack_all nl vs s')"
| "msg_pack_items nl [] s = Inr s"
| "msg_pack_items nl ((k, v) # items) s =
     res_bind (msg_pack nl k s) (\<lambda>s'. res_bind (msg_pack nl v s') (\<lambda>s''.
       msg_pack_items nl items s''))"
  by pat_completeness auto
termination
  by (relation "measure (case_sum (\<lambda>(nl, v, s). size v)
        (case_sum (\<lambda>(nl, vs, s). size_list size vs)
          (\<lambda>(nl, items, s). size_list (size_prod size size) items)))") auto

definition msg_dumps :: "pyval \<Rightarrow> bytes res" where
  "msg_dumps obj = res_bind (msg_pack 1024 obj (new_stream [])) (\<lambda>s. Inr (buf s))"

section \<open>The decoder\<close>

definition get8 :: "bytes \<Rightarrow> nat \<Rightarrow> nat res" where
  "get8 b i = (if i < length b then Inr (unat (b ! i)) else Inl IndexError)"

definition get_be :: "nat \<Rightarrow> bytes \<Rightarrow> nat \<Rightarrow> nat res" where
  "get_be k b i = (if i + k \<le> length b then Inr (be_val (take k (drop i b))) else Inl StructError)"

definition signed :: "nat \<Rightarrow> nat \<Rightarrow> int" where
  "signed k n = (if n < 2 ^ (8 * k - 1) then int n else int n - 2 ^ (8 * k))"

definition slice :: "bytes \<Rightarrow> nat \<Rightarrow> nat \<Rightarrow> bytes" where
  "slice b i j = take (j - i) (drop i b)"

text \<open>The position of the highest bit of a positive number.\<close>

fun top_bit :: "nat \<Rightarrow> nat" where
  "top_bit m = (if m \<le> 1 then 0 else Suc (top_bit (m div 2)))"

declare top_bit.simps [simp del]

text \<open>The double that holds the value of a single-precision bit pattern.\<close>

definition float32_widen :: "nat \<Rightarrow> 64 word" where
  "float32_widen u =
     (let s = u div 2 ^ 31; e = u div 2 ^ 23 mod 2 ^ 8; m = u mod 2 ^ 23
      in word_of_nat (s * 2 ^ 63 +
           (if e = 255 then 2047 * 2 ^ 52 + m * 2 ^ 29
            else if e \<noteq> 0 then (e + 896) * 2 ^ 52 + m * 2 ^ 29
            else if m = 0 then 0
            else let p = top_bit m in (p + 874) * 2 ^ 52 + (m - 2 ^ p) * 2 ^ (52 - p))))"

text \<open>The members a container yields when iterated, and the set built from them.\<close>

fun py_iter :: "pyval \<Rightarrow> pyval list res" where
  "py_iter (VStr t) = Inr (map (\<lambda>c. VStr [c]) t)"
| "py_iter (VBytes b) = Inr (map (\<lambda>x. VInt (uint x)) b)"
| "py_iter (VByteArray b) = Inr (map (\<lambda>x. VInt (uint x)) b)"
| "py_iter (VList xs) = Inr xs"
| "py_iter (VTuple xs) = Inr xs"
| "py_iter (VDict items) = Inr (map fst items)"
| "py_iter (VSet xs) = Inr xs"
| "py_iter (VFrozen xs) = Inr xs"
| "py_iter _ = Inl TypeError"

definition make_set :: "pyval \<Rightarrow> pyval list res" where
  "make_set members =
     res_bind (py_iter members) (\<lambda>xs.
       if list_all hashable xs then Inr (foldl set_add [] xs) else Inl TypeError)"


text \<open>One object at offset \<open>i\<close>; the fuel bounds the nesting depth.\<close>

definition dec_str :: "bytes \<Rightarrow> nat \<Rightarrow> nat \<Rightarrow> (pyval \<times> nat) res" where
  "dec_str b i n = res_bind (utf8_decode (slice b i (i + n))) (\<lambda>t. Inr (VStr t, i + n))"

definition dec_bin :: "bytes \<Rightarrow> nat \<Rightarrow> nat \<Rightarrow> (pyval \<times> nat) res" where
  "dec_bin b i n = Inr (VBytes (slice b i (i + n)), i + n)"

definition dec_uint :: "nat \<Rightarrow> bytes \<Rightarrow> nat \<Rightarrow> (pyval \<times> nat) res" where
  "dec_uint k b i = res_bind (get_be k b i) (\<lambda>n. Inr (VInt (int n), i + k))"

definition dec_sint :: "nat \<Rightarrow> bytes \<Rightarrow> nat \<Rightarrow> (pyval \<times> nat) res" where
  "dec_sint k b i = res_bind (get_be k b i) (\<lambda>n. Inr (VInt (signed k n), i + k))"

function (sequential) msg_unpack :: "nat \<Rightarrow> bytes \<Rightarrow> nat \<Rightarrow> (pyval \<times> nat) res"
  and read_array :: "nat \<Rightarrow> bytes \<Rightarrow> nat \<Rightarrow> nat \<Rightarrow> (pyval list \<times> nat) res"
  and read_map :: "nat \<Rightarrow> bytes \<Rightarrow> nat \<Rightarrow> nat \<Rightarrow> (pyval \<times> pyval) list \<Rightarrow> ((pyval \<times> pyval) list \<times> nat) res"
  and read_ext :: "nat \<Rightarrow> bytes \<Rightarrow> nat \<Rightarrow> nat \<Rightarrow> (pyval \<times> nat) res" where
  "msg_unpack 0 b i = Inl RecursionError"
| "msg_unpack (Suc f) b i0 =
     res_bind (get8 b i0) (\<lambda>h. let i = i0 + 1 in
       if h < 0x80 then Inr (VInt (int h), i)
       else if h \<le> 0x8F then res_bind (read_map f b i (h mod 16) []) (\<lambda>(d, j). Inr (VDict d, j))
       else if h \<le> 0x9F then res_bind (read_array f b i (h mod 16)) (\<lambda>(xs, j). Inr (VList xs, j))
       else if h \<le> 0xBF then dec_str b i (h mod 32)
       else if h \<ge> 0xE0 then Inr (VInt (int h - 0x100), i)
       else if h = 0xC0 then Inr (VNone, i)
       else if h = 0xC2 then Inr (VBool False, i)
       else if h = 0xC3 then Inr (VBool True, i)
       else if h = 0xCC then res_bind (get8 b i) (\<lambda>n. Inr (VInt (int n), i + 1))
       else if h = 0xCD then dec_uint 2 b i
       else if h = 0xCE then dec_uint 4 b i
       else if h = 0xCF then dec_uint 8 b i
       else if h = 0xD0 then dec_sint 1 b i
       else if h = 0xD1 then dec_sint 2 b i
       else if h = 0xD2 then dec_sint 4 b i
       else if h = 0xD3 then dec_sint 8 b i
       else if h = 0xCB then res_bind (get_be 8 b i) (\<lambda>n. Inr (VFloat (word_of_nat n), i + 8))
       else if h = 0xCA then res_bind (get_be 4 b i) (\<lambda>n. Inr (VFloat (float32_widen n), i + 4))
       else if h = 0xD9 then res_bind (get8 b i) (\<lambda>n. dec_str b (i + 1) n)
       else if h = 0xDA then res_bind (get_be 2 b i) (\<lambda>n. dec_str b (i + 2) n)
       else if h = 0xDB then res_bind (get_be 4 b i) (\<lambda>n. dec_str b (i + 4) n)
       else if h = 0xC4 then res_bind (get8 b i) (\<lambda>n. dec_bin b (i + 1) n)
       else if h = 0xC5 then res_bind (get_be 2 b i) (\<lambda>n. dec_bin b (i + 2) n)
       else if h = 0xC6 then res_bind (get_be 4 b i) (\<lambda>n. dec_bin b (i + 4) n)
       else if h = 0xDC then res_bind (get_be 2 b i) (\<lambda>n.
              res_bind (read_array f b (i + 2) n) (\<lambda>(xs, j). Inr (VList xs, j)))
       else if h = 0xDD then res_bind (get_be 4 b i) (\<lambda>n.
              res_bind (read_array f b (i + 4) n) (\<lambda>(xs, j). Inr (VList xs, j)))
       else if h = 0xDE then res_bind (get_be 2 b i) (\<lambda>n.
              res_bind (read_map f b (i + 2) n []) (\<lambda>(d, j). Inr (VDict d, j)))
       else if h = 0xDF then res_bind (get_be 4 b i) (\<lambda>n.
              res_bind (read_map f b (i + 4) n []) (\<lambda>(d, j). Inr (VDict d, j)))
       else if h = 0xD4 then read_ext f b i 1
       else if h = 0xD5 then read_ext f b i 2
       else if h = 0xD6 then read_ext f b i 4
       else if h = 0xD7 then read_ext f b i 8
       else if h = 0xD8 then read_ext f b i 16
       else if h = 0xC7 then res_bind (get8 b i) (\<lambda>n. read_ext f b (i + 1) n)
       else if h = 0xC8 then res_bind (get_be 2 b i) (\<lambda>n. read_ext f b (i + 2) n)
       else if h = 0xC9 then res_bind (get_be 4 b i) (\<lambda>n. read_ext f b (i + 4) n)
       else Inl ValueError)"
| "read_array f b i 0 = Inr ([], i)"
| "read_array f b i (Suc n) =
     res_bind (msg_unpack f b i) (\<lambda>(v, j).
       res_bind (read_array f b j n) (\<lambda>(vs, j'). Inr (v # vs, j')))"
| "read_map f b i 0 out = Inr (out, i)"
| "read_map f b i (Suc n) out =
     res_bind (msg_unpack f b i) (\<lambda>(k, j).
       res_bind (msg_unpack f b j) (\<lambda>(v, j').
         if hashable k then read_map f b j' n (dict_set out k v) else Inl TypeError))"
| "read_ext f b i sz =
     res_bind (get8 b i) (\<lambda>c.
       let code = (if c > 0x7F then int c - 0x100 else int c); i = i + 1 in
       if code = int EXT_SET \<or> code = int EXT_FROZENSET then
         res_bind (msg_unpack f b i) (\<lambda>(members, _).
           res_bind (make_set members) (\<lambda>xs.
             Inr (if code = int EXT_FROZENSET then VFrozen xs else VSet xs, i + sz)))
       else Inl ValueError)"
  by pat_completeness auto
termination
  by (relation "measures
        [case_sum (case_sum (\<lambda>(f, b, i). f) (\<lambda>(f, b, i, n). f))
           (case_sum (\<lambda>(f, b, i, n, out). f) (\<lambda>(f, b, i, sz). f)),
         case_sum (case_sum (\<lambda>(f, b, i). 0) (\<lambda>(f, b, i, n). Suc n))
           (case_sum (\<lambda>(f, b, i, n, out). Suc n) (\<lambda>(f, b, i, sz). 1))]") auto

definition msg_loads :: "bytes \<Rightarrow> pyval res" where
  "msg_loads data =
     (if data = [] then Inl ValueError
      else case msg_unpack (length data + 1) data 0 of
             Inr (obj, _) \<Rightarrow> Inr obj
           | Inl e \<Rightarrow> Inl (if e = IndexError \<or> e = StructError then ValueError else e))"


text \<open>
  The streaming \<open>Unpacker\<close> on a fed buffer: the next object and the new position, or
  nothing (\<open>StopIteration\<close>) at the end or at an incomplete object.
\<close>

definition unpacker_next :: "bytes \<Rightarrow> nat \<Rightarrow> (pyval \<times> nat) option res" where
  "unpacker_next b i =
     (if i \<ge> length b then Inr None
      else case msg_unpack (length b + 1) b i of
             Inr r \<Rightarrow> Inr (Some r)
           | Inl e \<Rightarrow> if e = IndexError \<or> e = StructError then Inr None else Inl e)"

text \<open>\<open>_msg_decode\<close>, the hook for extension codes; a \<open>ValueError\<close> falls through.\<close>

definition is_value_error :: "py_error \<Rightarrow> bool" where
  "is_value_error e = (e \<in> {ValueError, UnicodeError, JValueError})"

definition msg_decode :: "int \<Rightarrow> bytes \<Rightarrow> pyval res" where
  "msg_decode code data =
     (if code = 123 \<or> code = 124 then
        (case res_bind (msg_loads data) make_set of
           Inr xs \<Rightarrow> Inr (if code = 123 then VSet xs else VFrozen xs)
         | Inl e \<Rightarrow> Inl (if is_value_error e then TypeError else e))
      else Inl TypeError)"

section \<open>The encoding as a function of the value\<close>

definition enc_ext :: "nat \<Rightarrow> bytes \<Rightarrow> bytes res" where
  "enc_ext code payload =
     (if 2 ^ 32 \<le> length payload then Inl StructError
      else Inr (ext_header (length payload) @ [byte_of code] @ payload))"

function (sequential) enc :: "int \<Rightarrow> pyval \<Rightarrow> bytes res"
  and enc_all :: "int \<Rightarrow> pyval list \<Rightarrow> bytes res"
  and enc_items :: "int \<Rightarrow> (pyval \<times> pyval) list \<Rightarrow> bytes res" where
  "enc nl VNone = (if nl < 0 then Inl ValueError else Inr [0xC0])"
| "enc nl (VBool b) = (if nl < 0 then Inl ValueError else Inr [if b then 0xC3 else 0xC2])"
| "enc nl (VInt i) = (if nl < 0 then Inl ValueError else pack_int i)"
| "enc nl (VBytes b) =
     (if nl < 0 \<or> 2 ^ 32 \<le> length b then Inl ValueError else Inr (bin_header (length b) @ b))"
| "enc nl (VByteArray b) =
     (if nl < 0 \<or> 2 ^ 32 \<le> length b then Inl ValueError else Inr (bin_header (length b) @ b))"
| "enc nl (VStr t) =
     (if nl < 0 then Inl ValueError
      else res_bind (utf8_encode t) (\<lambda>b.
        if 2 ^ 32 \<le> length b then Inl ValueError else Inr (str_header (length b) @ b)))"
| "enc nl (VFloat w) = (if nl < 0 then Inl ValueError else Inr (0xCB # be_bytes 8 (unat w)))"
| "enc nl (VList xs) =
     (if nl < 0 \<or> 2 ^ 32 \<le> length xs then Inl ValueError
      else res_bind (enc_all (nl - 1) xs) (\<lambda>b. Inr (array_header (length xs) @ b)))"
| "enc nl (VTuple xs) =
     (if nl < 0 \<or> 2 ^ 32 \<le> length xs then Inl ValueError
      else res_bind (enc_all (nl - 1) xs) (\<lambda>b. Inr (array_header (length xs) @ b)))"
| "enc nl (VDict items) =
     (if nl < 0 \<or> 2 ^ 32 \<le> length items then Inl ValueError
      else res_bind (enc_items (nl - 1) items) (\<lambda>b. Inr (map_header (length items) @ b)))"
| "enc nl (VSet xs) =
     (if nl < 0 \<or> 2 ^ 32 \<le> length xs then Inl ValueError
      else res_bind (enc_all (nl - 1) xs) (\<lambda>b. enc_ext EXT_SET (array_header (length xs) @ b)))"
| "enc nl (VFrozen xs) =
     (if nl < 0 \<or> 2 ^ 32 \<le> length xs then Inl ValueError
      else res_bind (enc_all (nl - 1) xs) (\<lambda>b. enc_ext EXT_FROZENSET (array_header (length xs) @ b)))"
| "enc_all nl [] = Inr []"
| "enc_all nl (v # vs) = res_bind (enc nl v) (\<lambda>b. res_bind (enc_all nl vs) (\<lambda>b'. Inr (b @ b')))"
| "enc_items nl [] = Inr []"
| "enc_items nl ((k, v) # items) =
     res_bind (enc nl k) (\<lambda>b. res_bind (enc nl v) (\<lambda>b'. res_bind (enc_items nl items) (\<lambda>b''.
       Inr (b @ b' @ b''))))"
  by pat_completeness auto
termination
  by (relation "measure (case_sum (\<lambda>(nl, v). size v)
        (case_sum (\<lambda>(nl, vs). size_list size vs)
          (\<lambda>(nl, items). size_list (size_prod size size) items)))") auto

definition appended :: "jbytesio \<Rightarrow> bytes \<Rightarrow> jbytesio" where
  "appended s b = \<lparr>buf = buf s @ b, idx = length (buf s) + length b\<rparr>"

definition at_end :: "jbytesio \<Rightarrow> bool" where
  "at_end s \<longleftrightarrow> idx s = length (buf s)"

lemma put_at_end: "at_end s \<Longrightarrow> put b s = appended s b"
  by (simp add: at_end_def appended_def stream_write_append)

lemma at_end_appended [simp]: "at_end (appended s b)"
  by (simp add: at_end_def appended_def)

lemma appended_appended [simp]: "appended (appended s a) b = appended s (a @ b)"
  by (simp add: appended_def)

lemma appended_Nil [simp]: "at_end s \<Longrightarrow> appended s [] = s"
  by (simp add: appended_def at_end_def)

lemma ext_header_nonempty [simp]: "ext_header L \<noteq> []"
  by (simp add: ext_header_def)

text \<open>
  Rewinding over the payload and writing header, code and payload again leaves
  exactly header, code and payload: the longer run covers all that it rewrites.
\<close>

lemma wrap_ext_appended:
  assumes "at_end s"
  shows "wrap_ext code (idx s) (appended s p) = res_bind (enc_ext code p) (\<lambda>b. Inr (appended s b))"
proof -
  let ?n = "length (buf s)"
  have i: "idx s = ?n" using assms by (simp add: at_end_def)
  have h: "put (ext_header (length p)) ((appended s p)\<lparr>idx := ?n\<rparr>) =
      \<lparr>buf = buf s @ ext_header (length p) @ drop (length (ext_header (length p))) p,
       idx = ?n + length (ext_header (length p))\<rparr>"
    by (simp add: stream_write_eq appended_def)
  have c: "put [byte_of code] (put (ext_header (length p)) ((appended s p)\<lparr>idx := ?n\<rparr>)) =
      \<lparr>buf = buf s @ ext_header (length p) @ [byte_of code] @ drop (Suc (length (ext_header (length p)))) p,
       idx = ?n + Suc (length (ext_header (length p)))\<rparr>"
    unfolding h by (simp add: stream_write_eq)
  have d: "take (idx (appended s p) - ?n) (drop ?n (buf (appended s p))) = p"
    by (simp add: appended_def)
  have "put p (put [byte_of code] (put (ext_header (length p)) ((appended s p)\<lparr>idx := ?n\<rparr>))) =
      appended s (ext_header (length p) @ [byte_of code] @ p)"
    unfolding c by (cases "p = []") (simp_all add: stream_write_eq appended_def)
  moreover have "idx (appended s p) - ?n = length p" by (simp add: appended_def)
  ultimately show ?thesis using d by (simp add: wrap_ext_def enc_ext_def i)
qed

lemma msg_pack_enc:
  "at_end s \<Longrightarrow> msg_pack nl v s = res_bind (enc nl v) (\<lambda>b. Inr (appended s b))"
  "at_end s \<Longrightarrow> msg_pack_all nl vs s = res_bind (enc_all nl vs) (\<lambda>b. Inr (appended s b))"
  "at_end s \<Longrightarrow> msg_pack_items nl items s = res_bind (enc_items nl items) (\<lambda>b. Inr (appended s b))"
proof (induction nl v s and nl vs s and nl items s rule: msg_pack_msg_pack_all_msg_pack_items.induct)
  case (11 nl xs s)
  then show ?case
    by (cases "enc_all (nl - 1) xs")
       (auto simp: put_at_end wrap_ext_appended simp del: append_assoc)
next
  case (12 nl xs s)
  then show ?case
    by (cases "enc_all (nl - 1) xs")
       (auto simp: put_at_end wrap_ext_appended simp del: append_assoc)
next
  case (14 nl v vs s)
  then show ?case by (cases "enc nl v"; cases "enc_all nl vs") auto
next
  case (16 nl k v items s)
  then show ?case by (cases "enc nl k"; cases "enc nl v"; cases "enc_items nl items") auto
qed (auto simp: put_at_end split: sum.splits simp: res_bind_def)

text \<open>
  C25: the encoder as written, which writes to a stream and for a set goes back over
  what it wrote, implements the encoding of the value: appended at the end of any
  stream, with the same errors for values that cannot be encoded.
\<close>

theorem msg_pack_refines_enc:
  assumes "idx s = length (buf s)"
  shows "msg_pack nl v s =
     res_bind (enc nl v) (\<lambda>b. Inr \<lparr>buf = buf s @ b, idx = length (buf s) + length b\<rparr>)"
  using msg_pack_enc(1) [of s nl v] assms by (simp add: at_end_def appended_def)

theorem msg_pack_refines_enc_witness:
  "msg_pack 9 (VSet [VInt 5, VNone]) \<lparr>buf = [7], idx = 1\<rparr> =
     Inr \<lparr>buf = [7, 0xC7, 3, 0x7B, 0x92, 0x05, 0xC0], idx = 7\<rparr>"
  by (subst msg_pack_refines_enc)
     (simp_all add: pack_int_def be_int_def array_header_def ext_header_def enc_ext_def EXT_SET_def byte_of_def)

lemma msg_dumps_enc: "msg_dumps v = enc 1024 v"
  by (simp add: msg_dumps_def msg_pack_enc at_end_def new_stream_def appended_def res_bind_def
      split: sum.splits)


section \<open>Reading back\<close>

text \<open>The bytes \<open>xs\<close> stand in \<open>b\<close> from offset \<open>i\<close> on.\<close>

definition has_at :: "bytes \<Rightarrow> nat \<Rightarrow> bytes \<Rightarrow> bool" where
  "has_at b i xs \<longleftrightarrow> (\<exists>post. drop i b = xs @ post)"

lemma has_at_append [simp]:
  "has_at b i (xs @ ys) \<longleftrightarrow> has_at b i xs \<and> has_at b (i + length xs) ys"
proof
  assume "has_at b i (xs @ ys)"
  then obtain post where p: "drop i b = xs @ ys @ post" by (auto simp: has_at_def)
  have "drop (i + length xs) b = drop (length xs) (drop i b)" by (simp add: add.commute)
  with p show "has_at b i xs \<and> has_at b (i + length xs) ys" by (auto simp: has_at_def)
next
  assume "has_at b i xs \<and> has_at b (i + length xs) ys"
  then obtain p q where p: "drop i b = xs @ p" and q: "drop (i + length xs) b = ys @ q"
    by (auto simp: has_at_def)
  have "drop (i + length xs) b = drop (length xs) (drop i b)" by (simp add: add.commute)
  then have "p = ys @ q" using p q by simp
  with p show "has_at b i (xs @ ys)" by (auto simp: has_at_def)
qed

lemma has_at_Nil [simp]: "has_at b i []"
  by (simp add: has_at_def)

lemma get8_Inr_iff: "get8 b i = Inr (unat x) \<longleftrightarrow> i < length b \<and> b ! i = x"
  by (auto simp: get8_def word_unat_eq_iff)

lemma has_at_Cons [simp]: "has_at b i (x # xs) \<longleftrightarrow> get8 b i = Inr (unat x) \<and> has_at b (i + 1) xs"
proof (cases "i < length b")
  case True
  then have "drop i b = b ! i # drop (Suc i) b" by (simp add: Cons_nth_drop_Suc)
  then show ?thesis using True by (auto simp: has_at_def get8_Inr_iff)
next
  case False
  then show ?thesis by (auto simp: has_at_def get8_Inr_iff)
qed

lemma has_at_slice: "has_at b i xs \<Longrightarrow> slice b i (i + length xs) = xs"
  by (auto simp: has_at_def slice_def)

lemma has_at_bound: "has_at b i xs \<Longrightarrow> xs \<noteq> [] \<Longrightarrow> i + length xs \<le> length b"
proof -
  assume "has_at b i xs" "xs \<noteq> []"
  then obtain post where p: "drop i b = xs @ post" "xs \<noteq> []" by (auto simp: has_at_def)
  then have "length b - i = length xs + length post" by (metis length_append length_drop)
  with p(2) show ?thesis by (cases xs) auto
qed

lemma has_at_get_be:
  assumes "has_at b i (be_bytes k n)" "0 < k" "n < 256 ^ k"
  shows "get_be k b i = Inr n"
proof -
  have "be_bytes k n \<noteq> []" using assms(2) by (metis length_be_bytes length_0_conv not_less0)
  then have "i + k \<le> length b" using has_at_bound [OF assms(1)] by simp
  moreover have "take k (drop i b) = be_bytes k n"
    using has_at_slice [OF assms(1)] by (simp add: slice_def)
  ultimately show ?thesis using assms(3) by (simp add: get_be_def)
qed

lemma be_bytes_1: "be_bytes 1 n = [byte_of (n mod 256)]"
  using be_bytes.simps(2) [of 0 n] by simp

lemma has_at_get8_be: "has_at b i (be_bytes 1 n) \<Longrightarrow> n < 256 \<Longrightarrow> get8 b i = Inr n"
  by (simp add: be_bytes_1)

subsection \<open>What the decoder returns\<close>

text \<open>
  Message pack has one array and one binary type, so tuples come back as lists and
  byte arrays as \<open>bytes\<close>.
\<close>

fun canon :: "pyval \<Rightarrow> pyval" where
  "canon (VByteArray b) = VBytes b"
| "canon (VList xs) = VList (map canon xs)"
| "canon (VTuple xs) = VList (map canon xs)"
| "canon (VDict items) = VDict (map (\<lambda>(k, v). (canon k, canon v)) items)"
| "canon (VSet xs) = VSet (map canon xs)"
| "canon (VFrozen xs) = VFrozen (map canon xs)"
| "canon v = v"

definition distinct_eq :: "pyval list \<Rightarrow> bool" where
  "distinct_eq xs = sorted_wrt (\<lambda>x y. \<not> py_eq x y) xs"

text \<open>
  Values that come back: members of sets and keys of dictionaries stay hashable and
  pairwise different after that change of type, that is they contain no tuple.
\<close>

fun decodable :: "pyval \<Rightarrow> bool" where
  "decodable (VList xs) = list_all decodable xs"
| "decodable (VTuple xs) = list_all decodable xs"
| "decodable (VSet xs) =
     (list_all decodable xs \<and> list_all hashable (map canon xs) \<and> distinct_eq (map canon xs))"
| "decodable (VFrozen xs) =
     (list_all decodable xs \<and> list_all hashable (map canon xs) \<and> distinct_eq (map canon xs))"
| "decodable (VDict items) =
     (list_all (\<lambda>(k, v). decodable k \<and> decodable v) items \<and>
      list_all hashable (map (canon \<circ> fst) items) \<and> distinct_eq (map (canon \<circ> fst) items))"
| "decodable v = True"

lemma foldl_set_add:
  "distinct_eq (acc @ xs) \<Longrightarrow> foldl set_add acc xs = acc @ xs"
proof (induction xs arbitrary: acc)
  case (Cons x xs)
  then have "\<not> list_ex (\<lambda>u. py_eq u x) acc"
    by (auto simp: distinct_eq_def sorted_wrt_append list_ex_iff)
  then show ?case using Cons by (simp add: set_add_def)
qed simp

lemma make_set_distinct:
  "list_all hashable xs \<Longrightarrow> distinct_eq xs \<Longrightarrow> make_set (VList xs) = Inr xs"
  using foldl_set_add [of "[]" xs] by (simp add: make_set_def)

lemma dict_set_new:
  "\<forall>k'\<in>set (map fst d). \<not> py_eq k' k \<Longrightarrow> dict_set d k v = d @ [(k, v)]"
  by (induction d) auto


subsection \<open>Each kind of object\<close>

lemma dec_bin_at: "has_at b j x \<Longrightarrow> dec_bin b j (length x) = Inr (VBytes x, j + length x)"
  by (simp add: dec_bin_def has_at_slice)

lemma dec_str_at:
  "has_at b j x \<Longrightarrow> utf8_decode x = Inr t \<Longrightarrow> dec_str b j (length x) = Inr (VStr t, j + length x)"
  by (simp add: dec_str_def has_at_slice)

lemma mod_shift: "(n::nat) < m \<Longrightarrow> (k * m + n) mod m = n"
  by simp

lemma unpack_bin:
  assumes "has_at b i (bin_header (length x) @ x)" "length x < 2 ^ 32"
  shows "msg_unpack (Suc f) b i = Inr (VBytes x, i + length (bin_header (length x) @ x))"
proof -
  consider "length x \<le> 0xFF" | "0xFF < length x" "length x \<le> 0xFFFF" | "0xFFFF < length x" by linarith
  then show ?thesis
  proof cases
    case 1
    then have "get8 b (Suc i) = Inr (length x)" "has_at b (i + 2) x"
      using assms by (simp_all add: bin_header_def be_bytes_1)
    then show ?thesis using assms 1
      by (simp add: bin_header_def dec_bin_at)
  next
    case 2
    then have "get_be 2 b (Suc i) = Inr (length x)" "has_at b (Suc (i + 2)) x"
      using assms by (simp_all add: bin_header_def has_at_get_be)
    then show ?thesis using assms 2
      by (simp add: bin_header_def dec_bin_at)
  next
    case 3
    then have "get_be 4 b (Suc i) = Inr (length x)" "has_at b (5 + i) x"
      using assms by (simp_all add: bin_header_def has_at_get_be)
    then show ?thesis using assms 3
      by (simp add: bin_header_def dec_bin_at)
  qed
qed

lemma unpack_str:
  assumes "has_at b i (str_header (length x) @ x)" "length x < 2 ^ 32" "utf8_encode t = Inr x"
  shows "msg_unpack (Suc f) b i = Inr (VStr t, i + length (str_header (length x) @ x))"
proof -
  have t: "utf8_decode x = Inr t" using assms(3) by (rule utf8_decode_encode)
  consider "length x \<le> 0x1F" | "0x1F < length x" "length x \<le> 0xFF"
    | "0xFF < length x" "length x \<le> 0xFFFF" | "0xFFFF < length x" by linarith
  then show ?thesis
  proof cases
    case 1
    then have "get8 b i = Inr (0xA0 + length x)" "has_at b (i + 1) x"
      using assms by (simp_all add: str_header_def be_bytes_1)
    moreover have "(160 + length x) mod 32 = length x" using 1 mod_shift [of "length x" 32 5] by simp
    ultimately show ?thesis using assms 1 t
      by (simp add: str_header_def dec_str_at)
  next
    case 2
    then have "get8 b (Suc i) = Inr (length x)" "has_at b (i + 2) x"
      using assms by (simp_all add: str_header_def be_bytes_1)
    then show ?thesis using assms 2 t
      by (simp add: str_header_def dec_str_at)
  next
    case 3
    then have "get_be 2 b (Suc i) = Inr (length x)" "has_at b (Suc (i + 2)) x"
      using assms by (simp_all add: str_header_def has_at_get_be)
    then show ?thesis using assms 3 t
      by (simp add: str_header_def dec_str_at)
  next
    case 4
    then have "get_be 4 b (Suc i) = Inr (length x)" "has_at b (5 + i) x"
      using assms by (simp_all add: str_header_def has_at_get_be)
    then show ?thesis using assms 4 t
      by (simp add: str_header_def dec_str_at)
  qed
qed


lemma be_int_nonneg: "0 \<le> n \<Longrightarrow> n < 256 ^ k \<Longrightarrow> be_int k n = be_bytes k (nat n)"
  by (simp add: be_int_def)

lemma be_int_neg:
  assumes "n < 0" "- (256 ^ k) \<le> n"
  shows "be_int k n = be_bytes k (nat (n + 256 ^ k))" "nat (n + 256 ^ k) < 256 ^ k"
proof -
  have "n mod 256 ^ k = (n + 256 ^ k) mod 256 ^ k" by simp
  also have "\<dots> = n + 256 ^ k" using assms by (intro mod_pos_pos_trivial) auto
  finally show "be_int k n = be_bytes k (nat (n + 256 ^ k))" by (simp add: be_int_def)
  have "int (nat (n + 256 ^ k)) < int (256 ^ k)" using assms by simp
  then show "nat (n + 256 ^ k) < 256 ^ k" by (simp only: of_nat_less_iff)
qed

lemma dec_uint_at:
  assumes "has_at b j (be_int k n)" "0 < k" "0 \<le> n" "n < 256 ^ k"
  shows "dec_uint k b j = Inr (VInt n, j + k)"
proof -
  have "nat n < 256 ^ k" using assms by (simp add: nat_less_iff)
  then show ?thesis using assms has_at_get_be [of b j k "nat n"]
    by (simp add: dec_uint_def be_int_nonneg)
qed

lemma pow256: "(256::int) ^ k = 2 ^ (8 * k)"
  by (simp add: power_mult)

lemma length_be_int [simp]: "length (be_int k n) = k"
  by (simp add: be_int_def)

lemma dec_sint_at:
  assumes "has_at b j (be_int k n)" "0 < k" "n < 0" "- (2 ^ (8 * k - 1)) \<le> n"
  shows "dec_sint k b j = Inr (VInt n, j + k)"
proof -
  have p: "(256::int) ^ k = 2 * 2 ^ (8 * k - 1)"
    using assms(2) by (simp add: pow256 flip: power_Suc)
  then have n: "- (256 ^ k) \<le> n" using assms(4) by (smt (verit) zero_le_power)
  have g: "get_be k b j = Inr (nat (n + 256 ^ k))"
    using assms be_int_neg [OF assms(3) n] by (simp add: has_at_get_be)
  have "\<not> nat (n + 256 ^ k) < 2 ^ (8 * k - 1)"
  proof -
    have "int (2 ^ (8 * k - 1)) \<le> n + 256 ^ k" using assms(4) p by simp
    then show ?thesis by linarith
  qed
  moreover have "int (nat (n + 256 ^ k)) - 2 ^ (8 * k) = n"
    using n by (simp add: pow256)
  ultimately show ?thesis by (simp add: dec_sint_def g signed_def)
qed

lemma unpack_int:
  assumes "has_at b i x" "pack_int n = Inr x"
  shows "msg_unpack (Suc f) b i = Inr (VInt n, i + length x)"
proof -
  note defs = pack_int_def be_int_def [of 1]
  consider "0 \<le> n" "n < 0x80" | "- 0x20 \<le> n" "n < 0" | "0x80 \<le> n" "n \<le> 0xFF"
    | "- 0x80 \<le> n" "n < - 0x20" | "0xFF < n" "n \<le> 0xFFFF" | "- 0x8000 \<le> n" "n < - 0x80"
    | "0xFFFF < n" "n \<le> 0xFFFFFFFF" | "- 0x80000000 \<le> n" "n < - 0x8000"
    | "0xFFFFFFFF < n" "n \<le> 0xFFFFFFFFFFFFFFFF"
    | "- 0x8000000000000000 \<le> n" "n < - 0x80000000"
    using assms(2) by (auto simp: pack_int_def split: if_splits)
  then show ?thesis
  proof cases
    case 1
    then have "x = [byte_of (nat n)]" "nat n < 128"
      using assms(2) by (auto simp: pack_int_def be_int_nonneg be_bytes_1)
    then show ?thesis using assms(1) 1 by simp
  next
    case 2
    then have "x = [byte_of (nat (n + 256))]" "224 \<le> nat (n + 256)" "nat (n + 256) < 256"
      using assms(2) be_int_neg [of n 1] by (auto simp: pack_int_def be_bytes_1)
    then show ?thesis using assms(1) 2 by simp
  next
    case 3
    then have "x = 0xCC # be_bytes 1 (nat n)" "nat n < 256"
      using assms(2) by (auto simp: pack_int_def be_int_nonneg)
    then show ?thesis using assms(1) 3 by (simp add: be_bytes_1)
  next
    case 4
    then have "x = 0xD0 # be_int 1 n" using assms(2) by (auto simp: pack_int_def)
    then show ?thesis using assms(1) 4 dec_sint_at [of b "Suc i" 1 n] by simp
  next
    case 5
    then have "x = 0xCD # be_int 2 n" using assms(2) by (auto simp: pack_int_def)
    then show ?thesis using assms(1) 5 dec_uint_at [of b "Suc i" 2 n] by simp
  next
    case 6
    then have "x = 0xD1 # be_int 2 n" using assms(2) by (auto simp: pack_int_def)
    then show ?thesis using assms(1) 6 dec_sint_at [of b "Suc i" 2 n] by simp
  next
    case 7
    then have "x = 0xCE # be_int 4 n" using assms(2) by (auto simp: pack_int_def)
    then show ?thesis using assms(1) 7 dec_uint_at [of b "Suc i" 4 n] by simp
  next
    case 8
    then have "x = 0xD2 # be_int 4 n" using assms(2) by (auto simp: pack_int_def)
    then show ?thesis using assms(1) 8 dec_sint_at [of b "Suc i" 4 n] by simp
  next
    case 9
    then have "x = 0xCF # be_int 8 n" using assms(2) by (auto simp: pack_int_def)
    then show ?thesis using assms(1) 9 dec_uint_at [of b "Suc i" 8 n] by simp
  next
    case 10
    then have "x = 0xD3 # be_int 8 n" using assms(2) by (auto simp: pack_int_def)
    then show ?thesis using assms(1) 10 dec_sint_at [of b "Suc i" 8 n] by simp
  qed
qed


lemma unpack_float:
  assumes "has_at b i (0xCB # be_bytes 8 (unat w))"
  shows "msg_unpack (Suc f) b i = Inr (VFloat w, i + 9)"
proof -
  have "unat w < 256 ^ 8" using unsigned_less [of w, where ?'a = nat] by simp
  then have "get_be 8 b (Suc i) = Inr (unat w)" using assms by (simp add: has_at_get_be)
  then show ?thesis using assms by simp
qed

lemma unpack_array:
  assumes "has_at b i (array_header n)" "n < 2 ^ 32"
    and "read_array f b (i + length (array_header n)) n = Inr (xs, j)"
  shows "msg_unpack (Suc f) b i = Inr (VList xs, j)"
proof -
  consider "n \<le> 0xF" | "0xF < n" "n \<le> 0xFFFF" | "0xFFFF < n" by linarith
  then show ?thesis
  proof cases
    case 1
    then have "get8 b i = Inr (0x90 + n)" "(144 + n) mod 16 = n"
      using assms mod_shift [of n 16 9] by (simp_all add: array_header_def be_bytes_1)
    then show ?thesis using 1 assms(3) by (simp add: array_header_def)
  next
    case 2
    then have "get_be 2 b (Suc i) = Inr n"
      using assms by (simp add: array_header_def has_at_get_be)
    then show ?thesis using 2 assms by (simp add: array_header_def numeral_3_eq_3)
  next
    case 3
    then have "get_be 4 b (Suc i) = Inr n"
      using assms by (simp add: array_header_def has_at_get_be)
    then show ?thesis using 3 assms by (simp add: array_header_def add.commute [of i])
  qed
qed

lemma unpack_map:
  assumes "has_at b i (map_header n)" "n < 2 ^ 32"
    and "read_map f b (i + length (map_header n)) n [] = Inr (d, j)"
  shows "msg_unpack (Suc f) b i = Inr (VDict d, j)"
proof -
  consider "n \<le> 0xF" | "0xF < n" "n \<le> 0xFFFF" | "0xFFFF < n" by linarith
  then show ?thesis
  proof cases
    case 1
    then have "get8 b i = Inr (0x80 + n)" "(128 + n) mod 16 = n"
      using assms mod_shift [of n 16 8] by (simp_all add: map_header_def be_bytes_1)
    then show ?thesis using 1 assms(3) by (simp add: map_header_def)
  next
    case 2
    then have "get_be 2 b (Suc i) = Inr n"
      using assms by (simp add: map_header_def has_at_get_be)
    then show ?thesis using 2 assms by (simp add: map_header_def numeral_3_eq_3)
  next
    case 3
    then have "get_be 4 b (Suc i) = Inr n"
      using assms by (simp add: map_header_def has_at_get_be)
    then show ?thesis using 3 assms by (simp add: map_header_def add.commute [of i])
  qed
qed

lemma unpack_ext:
  assumes "has_at b i (ext_header n)" "n < 2 ^ 32"
  shows "msg_unpack (Suc f) b i = read_ext f b (i + length (ext_header n)) n"
proof -
  consider "0xFFFF < n" | "0xFF < n" "n \<le> 0xFFFF" | "n \<le> 0xFF" "n \<in> {1, 2, 4, 8, 16}"
    | "n \<le> 0xFF" "n \<notin> {1, 2, 4, 8, 16}" by linarith
  then show ?thesis
  proof cases
    case 1
    then have "get_be 4 b (Suc i) = Inr n"
      using assms by (simp add: ext_header_def has_at_get_be)
    then show ?thesis using 1 assms by (simp add: ext_header_def add.commute [of i] del: read_ext.simps)
  next
    case 2
    then have "get_be 2 b (Suc i) = Inr n"
      using assms by (simp add: ext_header_def has_at_get_be)
    then show ?thesis using 2 assms by (simp add: ext_header_def numeral_3_eq_3 del: read_ext.simps)
  next
    case 3
    then show ?thesis using assms by (auto simp add: ext_header_def simp del: read_ext.simps)
  next
    case 4
    then have "get8 b (Suc i) = Inr n"
      using assms by (simp add: ext_header_def be_bytes_1)
    then show ?thesis using 4 assms by (simp add: ext_header_def del: read_ext.simps)
  qed
qed

lemma unpack_set:
  assumes "enc_ext code p = Inr e" "has_at b i e" "code = EXT_SET \<or> code = EXT_FROZENSET"
    and "msg_unpack f b (i + length (ext_header (length p)) + 1) = Inr (VList xs, j)"
    and "list_all hashable xs" "distinct_eq xs"
  shows "msg_unpack (Suc f) b i =
     Inr (if code = EXT_FROZENSET then VFrozen xs else VSet xs, i + length e)"
proof -
  have e: "e = ext_header (length p) @ byte_of code # p" "length p < 2 ^ 32"
    using assms(1) by (auto simp: enc_ext_def split: if_splits)
  have "msg_unpack (Suc f) b i = read_ext f b (i + length (ext_header (length p))) (length p)"
    using assms(2) e by (intro unpack_ext) simp_all
  moreover have "get8 b (i + length (ext_header (length p))) = Inr code"
    using assms(2,3) e by (auto simp: EXT_SET_def EXT_FROZENSET_def)
  ultimately show ?thesis
    using assms(3,4,5,6) e make_set_distinct [of xs]
    by (auto simp: EXT_SET_def EXT_FROZENSET_def)
qed


subsection \<open>The round trip\<close>

lemma header_length [simp]:
  "0 < length (array_header n)" "0 < length (map_header n)" "0 < length (bin_header n)"
  "0 < length (str_header n)" "0 < length (ext_header n)"
  by (simp_all add: array_header_def map_header_def bin_header_def str_header_def)

lemma pack_int_nonempty: "pack_int i = Inr e \<Longrightarrow> e \<noteq> []"
  by (auto simp: pack_int_def be_int_def be_bytes_1 split: if_splits)

lemma fuel_step:
  assumes "length (h @ e) \<le> f" "0 < length h"
  obtains f' where "f = Suc f'" "length e \<le> f'"
  using assms by (cases f; cases h) auto

text \<open>The array that a set or a list holds, decoded with what is known of its members.\<close>

lemma unpack_members:
  assumes "\<And>f b i. has_at b i e \<Longrightarrow> length e \<le> f \<Longrightarrow>
      read_array f b i (length xs) = Inr (map canon xs, i + length e)"
    and "has_at b i (array_header (length xs) @ e)" "length xs < 2 ^ 32"
    and "length (array_header (length xs) @ e) \<le> f"
  shows "msg_unpack f b i = Inr (VList (map canon xs), i + length (array_header (length xs) @ e))"
proof -
  obtain f' where f: "f = Suc f'" "length e \<le> f'"
    using assms(4) header_length(1) by (rule fuel_step)
  show ?thesis unfolding f(1)
    by (rule unpack_array) (use assms f in auto)
qed

lemma unpack_set_members:
  assumes "\<And>f b i. has_at b i e' \<Longrightarrow> length e' \<le> f \<Longrightarrow>
      read_array f b i (length xs) = Inr (map canon xs, i + length e')"
    and "enc_ext code (array_header (length xs) @ e') = Inr e" "has_at b i e" "length e \<le> f"
    and "code = EXT_SET \<or> code = EXT_FROZENSET" "length xs < 2 ^ 32"
    and "list_all hashable (map canon xs)" "distinct_eq (map canon xs)"
  shows "msg_unpack f b i =
     Inr (if code = EXT_FROZENSET then VFrozen (map canon xs) else VSet (map canon xs), i + length e)"
proof -
  let ?p = "array_header (length xs) @ e'"
  have e: "e = ext_header (length ?p) @ byte_of code # ?p"
    using assms(2) by (auto simp: enc_ext_def split: if_splits)
  then obtain f' where f: "f = Suc f'" "length ?p \<le> f'"
    using assms(4) fuel_step [of "ext_header (length ?p) @ [byte_of code]" ?p f] by auto
  have "has_at b (i + length (ext_header (length ?p)) + 1) ?p" using assms(3) e by simp
  then have "msg_unpack f' b (i + length (ext_header (length ?p)) + 1) =
      Inr (VList (map canon xs), i + length (ext_header (length ?p)) + 1 + length ?p)"
    using assms(1,6) f by (intro unpack_members) auto
  then show ?thesis unfolding f(1) by (intro unpack_set) (use assms in auto)
qed

lemma distinct_eq_snoc:
  "distinct_eq (xs @ y # ys) \<Longrightarrow> \<forall>x\<in>set xs. \<not> py_eq x y"
  by (auto simp: distinct_eq_def sorted_wrt_append)

lemma unpack_enc:
  "enc nl v = Inr e \<Longrightarrow> decodable v \<Longrightarrow> has_at b i e \<Longrightarrow> length e \<le> f \<Longrightarrow>
     msg_unpack f b i = Inr (canon v, i + length e)"
  "enc_all nl vs = Inr e \<Longrightarrow> list_all decodable vs \<Longrightarrow> has_at b i e \<Longrightarrow> length e \<le> f \<Longrightarrow>
     read_array f b i (length vs) = Inr (map canon vs, i + length e)"
  "enc_items nl items = Inr e \<Longrightarrow> list_all (\<lambda>(k, v). decodable k \<and> decodable v) items \<Longrightarrow>
     list_all hashable (map (canon \<circ> fst) items) \<Longrightarrow>
     distinct_eq (map fst out @ map (canon \<circ> fst) items) \<Longrightarrow> has_at b i e \<Longrightarrow> length e \<le> f \<Longrightarrow>
     read_map f b i (length items) out =
       Inr (out @ map (\<lambda>(k, v). (canon k, canon v)) items, i + length e)"
proof (induction nl v and nl vs and nl items arbitrary: e b i f and e b i f and e b i f out
    rule: enc_enc_all_enc_items.induct)
  case (3 nl n)
  then obtain f' where "f = Suc f'" using pack_int_nonempty by (cases f) (auto split: if_splits)
  then show ?case using 3 unpack_int [of b i e n] by (auto split: if_splits)
next
  case (4 nl x)
  then obtain f' where "f = Suc f'" by (cases f) (auto simp: bin_header_def split: if_splits)
  then show ?case using 4 unpack_bin [of b i x] by (auto split: if_splits)
next
  case (5 nl x)
  then obtain f' where "f = Suc f'" by (cases f) (auto simp: bin_header_def split: if_splits)
  then show ?case using 5 unpack_bin [of b i x] by (auto split: if_splits)
next
  case (6 nl t)
  then obtain x where x: "utf8_encode t = Inr x" "e = str_header (length x) @ x" "length x < 2 ^ 32"
    by (auto simp: res_bind_Inr_iff split: if_splits)
  then obtain f' where "f = Suc f'" using 6 header_length(4) [of "length x"] by (cases f) auto
  then show ?case using 6 x unpack_str [of b i x] by simp
next
  case (7 nl w)
  then obtain f' where "f = Suc f'" by (cases f) (auto split: if_splits)
  then show ?case using 7 unpack_float [of b i w] by (auto split: if_splits)
next
  case (8 nl xs)
  then obtain e' where e: "enc_all (nl - 1) xs = Inr e'" "e = array_header (length xs) @ e'"
    "length xs < 2 ^ 32" "\<not> (nl < 0 \<or> 2 ^ 32 \<le> length xs)"
    by (auto simp: res_bind_Inr_iff split: if_splits)
  have "msg_unpack f b i = Inr (VList (map canon xs), i + length (array_header (length xs) @ e'))"
    by (rule unpack_members) (use "8.IH" [OF e(4,1)] "8.prems" e in auto)
  then show ?case using e by simp
next
  case (9 nl xs)
  then obtain e' where e: "enc_all (nl - 1) xs = Inr e'" "e = array_header (length xs) @ e'"
    "length xs < 2 ^ 32" "\<not> (nl < 0 \<or> 2 ^ 32 \<le> length xs)"
    by (auto simp: res_bind_Inr_iff split: if_splits)
  have "msg_unpack f b i = Inr (VList (map canon xs), i + length (array_header (length xs) @ e'))"
    by (rule unpack_members) (use "9.IH" [OF e(4,1)] "9.prems" e in auto)
  then show ?case using e by simp
next
  case (10 nl items)
  then obtain e' where e: "enc_items (nl - 1) items = Inr e'" "e = map_header (length items) @ e'"
    "length items < 2 ^ 32" "\<not> (nl < 0 \<or> 2 ^ 32 \<le> length items)"
    by (auto simp: res_bind_Inr_iff split: if_splits)
  then obtain f' where f: "f = Suc f'" "length e' \<le> f'"
    using "10.prems"(4) header_length(2) by (auto intro: fuel_step [of "map_header (length items)" e' f])
  show ?case unfolding f(1) canon.simps
    by (rule unpack_map) (use "10.IH" [OF e(4,1), where out = "[]"] "10.prems" e f in \<open>auto simp: o_def\<close>)
next
  case (11 nl xs)
  then obtain e' where e: "enc_all (nl - 1) xs = Inr e'"
    "enc_ext EXT_SET (array_header (length xs) @ e') = Inr e"
    "length xs < 2 ^ 32" "\<not> (nl < 0 \<or> 2 ^ 32 \<le> length xs)"
    by (auto simp: res_bind_Inr_iff split: if_splits)
  show ?case
    using "11.IH" [OF e(4,1)] "11.prems" e unpack_set_members [of e' xs EXT_SET e b i f]
    by (simp add: EXT_SET_def EXT_FROZENSET_def)
next
  case (12 nl xs)
  then obtain e' where e: "enc_all (nl - 1) xs = Inr e'"
    "enc_ext EXT_FROZENSET (array_header (length xs) @ e') = Inr e"
    "length xs < 2 ^ 32" "\<not> (nl < 0 \<or> 2 ^ 32 \<le> length xs)"
    by (auto simp: res_bind_Inr_iff split: if_splits)
  show ?case
    using "12.IH" [OF e(4,1)] "12.prems" e unpack_set_members [of e' xs EXT_FROZENSET e b i f]
    by (simp add: EXT_SET_def EXT_FROZENSET_def)
next
  case (14 nl v vs)
  then obtain e1 e2 where e: "enc nl v = Inr e1" "enc_all nl vs = Inr e2" "e = e1 @ e2"
    by (auto simp: res_bind_Inr_iff)
  then show ?case using 14 by (auto simp: add.assoc)
next
  case (16 nl k v items)
  then obtain e1 e2 e3 where e: "enc nl k = Inr e1" "enc nl v = Inr e2" "enc_items nl items = Inr e3"
      "e = e1 @ e2 @ e3"
    by (auto simp: res_bind_Inr_iff)
  have new: "dict_set out (canon k) (canon v) = out @ [(canon k, canon v)]"
    by (intro dict_set_new distinct_eq_snoc [of _ _ "map (canon \<circ> fst) items"])
       (use "16.prems" in \<open>simp add: o_def\<close>)
  show ?case using 16 e new by (auto simp: add.assoc)
qed (case_tac f; auto split: if_splits)+


lemma msg_roundtrip_view:
  assumes "msg_dumps v = Inr b" "decodable v"
  shows "msg_loads (b @ pad) = Inr (canon v)"
proof -
  have e: "enc 1024 v = Inr b" using assms(1) by (simp add: msg_dumps_enc)
  have "has_at (b @ pad) 0 b" by (auto simp: has_at_def)
  then have r: "msg_unpack (length (b @ pad) + 1) (b @ pad) 0 = Inr (canon v, length b)"
    using unpack_enc(1) [OF e assms(2), of "b @ pad" 0 "length (b @ pad) + 1"] by simp
  moreover have "b @ pad \<noteq> []"
  proof
    assume "b @ pad = []"
    then show False using r by (simp add: get8_def)
  qed
  ultimately show ?thesis unfolding msg_loads_def by (simp only: if_False sum.case prod.case)
qed

text \<open>
  C26: a value that the encoder accepts and that can be read, which is one whose sets and
  dictionary keys hold no tuples and stay pairwise different, is returned by the decoder: at any
  shape and nesting the bytes of \<open>msg_dumps\<close> decode to the value, with tuples as lists and byte
  arrays as \<open>bytes\<close>, whatever padding follows them.  A set of tuples is accepted too, but cannot
  be read (\<open>set_of_tuples_unreadable\<close>).
\<close>

theorem msg_roundtrip:
  assumes "msg_dumps v = Inr b" "decodable v"
  shows "msg_loads (b @ pad) = Inr (canon v)"
  using assms by (rule msg_roundtrip_view)

theorem msg_roundtrip_witness:
  "msg_loads ([0x82, 0xA1, 0x61, 0xC4, 1, 7, 0x01, 0xD5, 0x7B, 0x91, 0xFF] @ [0xC1, 0xC1]) =
     Inr (VDict [(VStr [97], VBytes [7]), (VInt 1, VSet [VInt (-1)])])"
proof -
  let ?v = "VDict [(VStr [97], VByteArray [7]), (VInt 1, VSet [VInt (-1)])]"
  have "msg_dumps ?v = Inr [0x82, 0xA1, 0x61, 0xC4, 1, 7, 0x01, 0xD5, 0x7B, 0x91, 0xFF]"
    by (simp add: msg_dumps_enc utf8_encode_def scalar_def utf8_char_def str_header_def bin_header_def
        map_header_def pack_int_def be_int_def enc_ext_def ext_header_def array_header_def EXT_SET_def
        byte_of_def)
  moreover have "decodable ?v" by (simp add: distinct_eq_def)
  ultimately show ?thesis using msg_roundtrip [of ?v _ "[0xC1, 0xC1]"] by simp
qed

section \<open>Errors of the decoder\<close>

lemma utf8_decode_error: "utf8_decode b = Inl e \<Longrightarrow> e = UnicodeError"
proof (induction b rule: utf8_decode.induct)
  case (2 a bs)
  show ?case
    using "2.prems" "2.IH"
    by (subst (asm) utf8_decode.simps(2))
       (auto simp: res_bind_Inl_iff Let_def simp del: utf8_decode.simps
         split: if_split_asm list.split_asm)
qed simp

lemma make_set_error: "make_set m = Inl e \<Longrightarrow> e = TypeError"
  by (cases m) (auto simp: make_set_def split: if_splits)

lemma decode_errors:
  "get8 b i = Inl e \<Longrightarrow> e = IndexError" "get_be k b i = Inl e \<Longrightarrow> e = StructError"
  "dec_str b i n = Inl e \<Longrightarrow> e = UnicodeError" "dec_bin b i n = Inl e \<Longrightarrow> False"
  "dec_uint k b i = Inl e \<Longrightarrow> e = StructError" "dec_sint k b i = Inl e \<Longrightarrow> e = StructError"
  by (auto simp: get8_def get_be_def dec_str_def dec_bin_def dec_uint_def dec_sint_def res_bind_Inl_iff
      dest: utf8_decode_error split: if_splits)

lemma get8_less: "get8 b i = Inr h \<Longrightarrow> i < length b"
  by (auto simp: get8_def split: if_splits)

lemma decode_progress:
  "dec_str b i n = Inr (v, j) \<Longrightarrow> i \<le> j" "dec_bin b i n = Inr (v, j) \<Longrightarrow> i \<le> j"
  "dec_uint k b i = Inr (v, j) \<Longrightarrow> i \<le> j" "dec_sint k b i = Inr (v, j) \<Longrightarrow> i \<le> j"
  by (auto simp: dec_str_def dec_bin_def dec_uint_def dec_sint_def res_bind_Inr_iff)


text \<open>A decoding step that neither runs out of fuel nor moves backwards.\<close>

definition advances :: "nat \<Rightarrow> ('a \<times> nat) res \<Rightarrow> bool" where
  "advances i r \<longleftrightarrow> r \<noteq> Inl RecursionError \<and> (\<forall>v j. r = Inr (v, j) \<longrightarrow> i \<le> j)"

lemma advances_Inr [simp]: "advances i (Inr (v, j)) \<longleftrightarrow> i \<le> j"
  by (auto simp: advances_def)

lemma advances_Inl [simp]: "advances i (Inl e) \<longleftrightarrow> e \<noteq> RecursionError"
  by (auto simp: advances_def)

lemma advances_if: "(c \<Longrightarrow> advances i x) \<Longrightarrow> (\<not> c \<Longrightarrow> advances i y) \<Longrightarrow> advances i (if c then x else y)"
  by simp

lemma advances_dec:
  "i \<le> j \<Longrightarrow> advances i (dec_str b j n)" "i \<le> j \<Longrightarrow> advances i (dec_bin b j n)"
  "i \<le> j \<Longrightarrow> advances i (dec_uint k b j)" "i \<le> j \<Longrightarrow> advances i (dec_sint k b j)"
  by (auto simp: advances_def dest: decode_errors decode_progress)

lemma advances_get:
  "(\<And>n. j < length b \<Longrightarrow> advances i (g n)) \<Longrightarrow> advances i (res_bind (get8 b j) g)"
  "(\<And>n. advances i (g n)) \<Longrightarrow> advances i (res_bind (get_be k b j) g)"
  by (auto simp: get8_def get_be_def)

lemma advances_bind:
  "advances i m \<Longrightarrow> (\<And>v j. i \<le> j \<Longrightarrow> advances i (g (v, j))) \<Longrightarrow> advances i (res_bind m g)"
  by (cases m) (auto simp: advances_def)

lemma advances_mono: "advances j r \<Longrightarrow> i \<le> j \<Longrightarrow> advances i r"
  by (force simp: advances_def)

lemma read_array_advances:
  assumes "\<And>i. length b - i < f \<Longrightarrow> advances i (msg_unpack f b i)" "length b - i < f"
  shows "advances i (read_array f b i n)"
  using assms(2)
proof (induction n arbitrary: i)
  case (Suc n)
  have rest: "advances i (read_array f b j n)" if "i \<le> j" for j
    using Suc.IH [of j] Suc.prems that by - (rule advances_mono [of j], simp_all)
  show ?case
    unfolding read_array.simps
  proof (rule advances_bind)
    show "advances i (msg_unpack f b i)" using assms(1) Suc.prems by blast
    show "advances i (case (v, j) of (v, j) \<Rightarrow>
        res_bind (read_array f b j n) (\<lambda>(vs, j'). Inr (v # vs, j')))" if "i \<le> j" for v j
      unfolding prod.case by (rule advances_bind [OF rest [OF that]]) simp
  qed
qed simp

lemma read_map_advances:
  assumes "\<And>i. length b - i < f \<Longrightarrow> advances i (msg_unpack f b i)" "length b - i < f"
  shows "advances i (read_map f b i n out)"
  using assms(2)
proof (induction n arbitrary: i out)
  case (Suc n)
  have step: "advances i (msg_unpack f b j)" if "i \<le> j" for j
    using assms(1) [of j] Suc.prems that by - (rule advances_mono [of j], simp_all)
  have rest: "advances i (if hashable k then read_map f b j n out' else Inl TypeError)"
    if "i \<le> j" for j out' k
    using Suc.IH [of j] Suc.prems that by - (cases "hashable k", auto intro!: advances_mono [of j "read_map f b j n out'" i])
  show ?case
    unfolding read_map.simps
  proof (rule advances_bind)
    show "advances i (msg_unpack f b i)" by (rule step) simp
    show "advances i (case (k, j) of (k, j) \<Rightarrow> res_bind (msg_unpack f b j) (\<lambda>(v, j').
        if hashable k then read_map f b j' n (dict_set out k v) else Inl TypeError))"
      if "i \<le> j" for k j
      unfolding prod.case by (rule advances_bind [OF step [OF that]]) (simp only: prod.case rest)
  qed
qed simp

lemma read_ext_advances:
  assumes "\<And>i. length b - i < f \<Longrightarrow> advances i (msg_unpack f b i)" "length b - i \<le> f"
  shows "advances i (read_ext f b i sz)"
proof -
  have u: "advances i (msg_unpack f b (i + 1))" if "i < length b"
    using assms(1) [of "i + 1"] assms(2) that by - (rule advances_mono [of "i + 1"], simp_all)
  have m: "advances i (res_bind (make_set m) (\<lambda>xs. Inr (F xs, i + 1 + sz)))" for m F
    by (cases "make_set m") (auto dest: make_set_error)
  show ?thesis
    unfolding read_ext.simps Let_def
  proof (rule advances_get(1), rule advances_if, goal_cases)
    case (1 c)
    show ?case by (rule advances_bind [OF u [OF 1(1)]]) (simp only: prod.case m)
  qed simp
qed

lemma msg_unpack_advances: "length b - i < f \<Longrightarrow> advances i (msg_unpack f b i)"
proof (induction f arbitrary: i)
  case (Suc f)
  have arr: "advances i (res_bind (read_array f b j n) (\<lambda>(xs, j). Inr (VList xs, j)))"
    if "i < j" "i < length b" for j n
  proof (rule advances_bind)
    show "advances i (read_array f b j n)"
      using that Suc by - (rule advances_mono [of j], rule read_array_advances, auto)
  qed simp
  have mp: "advances i (res_bind (read_map f b j n []) (\<lambda>(xs, j). Inr (VDict xs, j)))"
    if "i < j" "i < length b" for j n
  proof (rule advances_bind)
    show "advances i (read_map f b j n [])"
      using that Suc by - (rule advances_mono [of j], rule read_map_advances, auto)
  qed simp
  have ext: "advances i (read_ext f b j n)" if "i < j" "i < length b" for j n
    using that Suc by - (rule advances_mono [of j], rule read_ext_advances, auto)
  show ?case
    unfolding msg_unpack.simps Let_def
    by (intro advances_get advances_if advances_dec arr mp ext) (simp_all del: read_ext.simps)
qed simp

text \<open>
  C27: the decoder always finishes: every nested object starts at a later byte, so on
  no input, well formed or not, is its recursion deeper than the data is long.  The limit that
  Python itself puts on recursion is not modelled.
\<close>

theorem msg_loads_total: "msg_loads data \<noteq> Inl RecursionError"
  using msg_unpack_advances [of data 0 "length data + 1"]
  by (auto simp: msg_loads_def advances_def split: sum.splits)

text \<open>
  A set whose members are tuples is written without an error but cannot be read
  back: the members decode as lists, which no set can hold, and \<open>TypeError\<close> is raised.
  Dictionaries with tuples as keys fail in the same way.
\<close>

theorem set_of_tuples_unreadable:
  "res_bind (msg_dumps (VSet [VTuple [VInt 1]])) msg_loads = Inl TypeError \<and>
   res_bind (msg_dumps (VDict [(VTuple [VInt 1], VNone)])) msg_loads = Inl TypeError"
  by (simp add: msg_dumps_enc map_header_def pack_int_def be_int_def enc_ext_def ext_header_def
      array_header_def EXT_SET_def EXT_FROZENSET_def byte_of_def msg_loads_def get8_def make_set_def)

text \<open>
  Truncated input is not always an error: a string or binary object cut short
  decodes to the bytes that are left, where the documentation promises \<open>ValueError\<close>.
\<close>

theorem truncated_text_accepted:
  "msg_dumps (VStr [97, 98, 99, 100, 101]) = Inr [0xA5, 97, 98, 99, 100, 101] \<and>
   msg_loads [0xA5, 97, 98] = Inr (VStr [97, 98])"
  by (simp add: msg_dumps_enc utf8_encode_def scalar_def utf8_char_def str_header_def byte_of_def
      msg_loads_def get8_def dec_str_def slice_def)

end
