(* ===== verification/Row_Codec.thy ===== *)
theory Row_Codec
  imports Day_Codec Msgpack
begin

text \<open>
  \<open>omni_json_db/jdb_codec.py\<close>, classes \<open>JIoKEY_*\<close> and \<open>JIoVAL_*\<close>: one key row of the
  index in its three stored layouts, under each serializer, and the value codecs.
  Message pack is the model of this development; the serializers that are not part of
  the repository (JSON, marshal, pickle, a developer's codec) are parameters, with
  their documented round trip as the contract of the locale \<open>tuple_codec\<close>.
\<close>

section \<open>Rows\<close>

text \<open>
  A row as the callers see it.  Python does not check the type of the fields it only
  copies, so those are values; \<open>cdays\<close>, \<open>mdays\<close> and \<open>ttl\<close> are numbers.
\<close>

record key_row =
  row_key :: pyval
  file_id :: pyval
  offset :: pyval
  row_size :: pyval
  val_size :: pyval
  ver :: pyval
  cdays :: pynum
  mdays :: pynum
  ttl :: pynum
  kflags :: int

fun as_int :: "pyval \<Rightarrow> int res" where
  "as_int (VInt i) = Inr i"
| "as_int (VBool b) = Inr (if b then 1 else 0)"
| "as_int _ = Inl TypeError"

text \<open>The exceptions the codecs turn into \<open>JValueError\<close>; \<open>struct.error\<close> and \<open>KeyError\<close> pass.\<close>

definition caught :: "py_error \<Rightarrow> bool" where
  "caught e = (e \<in> {ValueError, TypeError, RuntimeError, RecursionError, UnicodeError, IndexError,
                      JValueError, JTypeError, NotRegisteredError})"

definition as_JValueError :: "'a res \<Rightarrow> 'a res" where
  "as_JValueError r = (case r of Inl e \<Rightarrow> Inl (if caught e then JValueError else e) | Inr x \<Rightarrow> Inr x)"

lemma as_JValueError_Inr [simp]: "as_JValueError (Inr x) = Inr x"
  by (simp add: as_JValueError_def)

lemma as_JValueError_Inr_iff [simp]: "as_JValueError r = Inr x \<longleftrightarrow> r = Inr x"
  by (cases r) (auto simp: as_JValueError_def)

text \<open>How \<open>JIo.write_key\<close> completes a row before it reaches the codec.\<close>

definition write_key_row ::
    "int \<Rightarrow> pynum \<Rightarrow> int \<Rightarrow> nat list \<Rightarrow> int \<Rightarrow> int \<Rightarrow> int \<Rightarrow> int \<Rightarrow> int option \<Rightarrow> int \<Rightarrow> pynum \<Rightarrow> pynum \<Rightarrow>
     int option \<Rightarrow> key_row" where
  "write_key_row today now sync_id key fid off rsize vsize vr cds mds lt fl =
     (let lt = (if num_val lt \<le> 0 then PI 0
                else if num_val lt < of_int MAX_TTL_DAYS then lt else PI MAX_TTL_DAYS);
          cds = (if cds < 0 then today else cds AND SUB_DAY_MASK);
          mds = (if num_val mds < 0 then (if 0 < num_val lt \<and> num_val lt < 1 then now else PI today)
                 else
                   let m = (if \<not> (1 > num_val lt \<and> num_val lt > 0) then PI (num_int mds) else mds)
                   in if num_val m < of_int cds then PI cds else m);
          vr = (case vr of None \<Rightarrow> sync_id | Some v \<Rightarrow> v);
          fl = (case fl of None \<Rightarrow> 0 | Some f \<Rightarrow> f AND KEY_FLAG_MASK);
          fl = (if key \<noteq> [] \<and> fid = 0x10 \<and> rsize = 0 then fl OR KF_GROUP else fl);
          fl = (if num_val lt > 0 then fl OR KF_EXPIRE else fl AND NOT KF_EXPIRE)
      in \<lparr>row_key = VStr key, file_id = VInt fid, offset = VInt off, row_size = VInt rsize,
          val_size = VInt vsize, ver = VInt vr, cdays = PI cds, mdays = mds, ttl = lt, kflags = fl\<rparr>)"

section \<open>The stored fields\<close>

text \<open>The tuple each \<open>dumps_v*\<close> hands to its serializer.\<close>

definition dump_fields_v0 :: "key_row \<Rightarrow> pyval list res" where
  "dump_fields_v0 r =
     res_bind (fold_days (cdays r) (mdays r) (ttl r)) (\<lambda>days.
     res_bind (as_int (row_size r)) (\<lambda>rs. res_bind (as_int (val_size r)) (\<lambda>vs.
       Inr [row_key r, file_id r, offset r, VInt (rs OR push_bit 32 vs), ver r,
            VInt (days OR push_bit KEY_FLAG_SHIFT (kflags r AND KEY_FLAG_MASK))])))"

definition dump_fields_v1 :: "key_row \<Rightarrow> pyval list res" where
  "dump_fields_v1 r =
     res_bind (fold_days (cdays r) (mdays r) (ttl r)) (\<lambda>days.
       Inr [row_key r, file_id r, offset r, row_size r, val_size r, ver r,
            VInt (days OR push_bit KEY_FLAG_SHIFT (kflags r AND KEY_FLAG_MASK))])"

definition dump_fields_v2 :: "key_row \<Rightarrow> pyval list res" where
  "dump_fields_v2 r =
     res_bind (fold_days (cdays r) (mdays r) (ttl r)) (\<lambda>days.
       Inr [row_key r, file_id r, offset r, row_size r, val_size r, ver r, VInt days, VInt (kflags r)])"

text \<open>The flags of a \<open>v0\<close> or \<open>v1\<close> row; a group is recognised by its place as well.\<close>

definition flags_above :: "int \<Rightarrow> pyval \<Rightarrow> pyval \<Rightarrow> int" where
  "flags_above days rs fid =
     (drop_bit KEY_FLAG_SHIFT days AND KEY_FLAG_MASK)
       OR (if py_eq rs (VInt 0) \<and> py_eq fid (VInt 0x10) then KF_GROUP else 0)"

definition make_row ::
    "pyval \<Rightarrow> pyval \<Rightarrow> pyval \<Rightarrow> pyval \<Rightarrow> pyval \<Rightarrow> pyval \<Rightarrow> int \<Rightarrow> int \<Rightarrow> key_row" where
  "make_row key fid off rs vs vr days flags =
     (let (cd, md, lt) = unfold_days days flags
      in \<lparr>row_key = key, file_id = fid, offset = off, row_size = rs, val_size = vs, ver = vr,
          cdays = PI cd, mdays = md, ttl = lt, kflags = flags\<rparr>)"

text \<open>What each \<open>loads_v*\<close> does with the unpacked fields; a wrong number of them is a
  \<open>ValueError\<close>.\<close>

definition load_fields_v0 :: "pyval list \<Rightarrow> key_row res" where
  "load_fields_v0 fs =
     (case fs of
        [key, fid, off, rs, vr, days] \<Rightarrow>
          res_bind (as_int rs) (\<lambda>rs. res_bind (as_int days) (\<lambda>days.
            let vs = drop_bit 32 rs; rs = rs AND 0xFFFFFFFF
            in Inr (make_row key fid off (VInt rs) (VInt vs) vr days (flags_above days (VInt rs) fid))))
      | _ \<Rightarrow> Inl ValueError)"

definition load_fields_v1 :: "pyval list \<Rightarrow> key_row res" where
  "load_fields_v1 fs =
     (case fs of
        [key, fid, off, rs, vs, vr, days] \<Rightarrow>
          res_bind (as_int days) (\<lambda>days.
            Inr (make_row key fid off rs vs vr days (flags_above days rs fid)))
      | _ \<Rightarrow> Inl ValueError)"

definition load_fields_v2 :: "pyval list \<Rightarrow> key_row res" where
  "load_fields_v2 fs =
     (case fs of
        [key, fid, off, rs, vs, vr, days, flags] \<Rightarrow>
          res_bind (as_int days) (\<lambda>days. res_bind (as_int flags) (\<lambda>flags.
            Inr (make_row key fid off rs vs vr days flags)))
      | _ \<Rightarrow> Inl ValueError)"

text \<open>\<open>x[:n]\<close>, which sequences only support, and the unpacking that follows.\<close>

fun py_take :: "nat \<Rightarrow> pyval \<Rightarrow> pyval list res" where
  "py_take n (VList xs) = Inr (take n xs)"
| "py_take n (VTuple xs) = Inr (take n xs)"
| "py_take n (VStr t) = py_iter (VStr (take n t))"
| "py_take n (VBytes b) = py_iter (VBytes (take n b))"
| "py_take n (VByteArray b) = py_iter (VByteArray (take n b))"
| "py_take n _ = Inl TypeError"


section \<open>The key row codecs\<close>

text \<open>\<open>JIoKEY_J\<close>, over a JSON serializer.\<close>

definition JIoKEY_J_dumps_v0 :: "(pyval \<Rightarrow> bytes res) \<Rightarrow> key_row \<Rightarrow> bytes res" where
  "JIoKEY_J_dumps_v0 json_dumps r =
     as_JValueError (res_bind (dump_fields_v0 r) (\<lambda>fs. json_dumps (VTuple fs)))"

definition JIoKEY_J_loads_v0 :: "(bytes \<Rightarrow> pyval res) \<Rightarrow> bytes \<Rightarrow> key_row res" where
  "JIoKEY_J_loads_v0 json_loads data =
     as_JValueError (res_bind (json_loads data) (\<lambda>v. res_bind (py_take 6 v) load_fields_v0))"

definition JIoKEY_J_dumps_v1 :: "(pyval \<Rightarrow> bytes res) \<Rightarrow> key_row \<Rightarrow> bytes res" where
  "JIoKEY_J_dumps_v1 json_dumps r =
     as_JValueError (res_bind (dump_fields_v1 r) (\<lambda>fs. json_dumps (VTuple fs)))"

definition JIoKEY_J_loads_v1 :: "(bytes \<Rightarrow> pyval res) \<Rightarrow> bytes \<Rightarrow> key_row res" where
  "JIoKEY_J_loads_v1 json_loads data =
     as_JValueError (res_bind (json_loads data) (\<lambda>v. res_bind (py_take 7 v) load_fields_v1))"

definition JIoKEY_J_dumps_v2 :: "(pyval \<Rightarrow> bytes res) \<Rightarrow> key_row \<Rightarrow> bytes res" where
  "JIoKEY_J_dumps_v2 json_dumps r =
     as_JValueError (res_bind (dump_fields_v2 r) (\<lambda>fs. json_dumps (VTuple fs)))"

definition JIoKEY_J_loads_v2 :: "(bytes \<Rightarrow> pyval res) \<Rightarrow> bytes \<Rightarrow> key_row res" where
  "JIoKEY_J_loads_v2 json_loads data =
     as_JValueError (res_bind (json_loads data) (\<lambda>v. res_bind (py_take 8 v) load_fields_v2))"

text \<open>\<open>JIoKEY_M\<close>, over marshal.\<close>

definition JIoKEY_M_dumps_v0 :: "(pyval \<Rightarrow> bytes res) \<Rightarrow> key_row \<Rightarrow> bytes res" where
  "JIoKEY_M_dumps_v0 marshal_dumps r =
     as_JValueError (res_bind (dump_fields_v0 r) (\<lambda>fs. marshal_dumps (VTuple fs)))"

definition JIoKEY_M_loads_v0 :: "(bytes \<Rightarrow> pyval res) \<Rightarrow> bytes \<Rightarrow> key_row res" where
  "JIoKEY_M_loads_v0 marshal_loads data =
     as_JValueError (res_bind (marshal_loads data) (\<lambda>v. res_bind (py_take 6 v) load_fields_v0))"

definition JIoKEY_M_dumps_v1 :: "(pyval \<Rightarrow> bytes res) \<Rightarrow> key_row \<Rightarrow> bytes res" where
  "JIoKEY_M_dumps_v1 marshal_dumps r =
     as_JValueError (res_bind (dump_fields_v1 r) (\<lambda>fs. marshal_dumps (VTuple fs)))"

definition JIoKEY_M_loads_v1 :: "(bytes \<Rightarrow> pyval res) \<Rightarrow> bytes \<Rightarrow> key_row res" where
  "JIoKEY_M_loads_v1 marshal_loads data =
     as_JValueError (res_bind (marshal_loads data) (\<lambda>v. res_bind (py_take 7 v) load_fields_v1))"

definition JIoKEY_M_dumps_v2 :: "(pyval \<Rightarrow> bytes res) \<Rightarrow> key_row \<Rightarrow> bytes res" where
  "JIoKEY_M_dumps_v2 marshal_dumps r =
     as_JValueError (res_bind (dump_fields_v2 r) (\<lambda>fs. marshal_dumps (VTuple fs)))"

definition JIoKEY_M_loads_v2 :: "(bytes \<Rightarrow> pyval res) \<Rightarrow> bytes \<Rightarrow> key_row res" where
  "JIoKEY_M_loads_v2 marshal_loads data =
     as_JValueError (res_bind (marshal_loads data) (\<lambda>v. res_bind (py_take 8 v) load_fields_v2))"

text \<open>
  \<open>JIoKEY_S\<close>, over message pack, behind the byte \<open>0xCD\<close> and the length in two bytes.
  \<open>bytes((..., info_len >> 8, ...))\<close> refuses a length of 65536 or more.
\<close>

definition row_prefix :: "bytes \<Rightarrow> bytes res" where
  "row_prefix info_b =
     (let info_len = length info_b
      in if info_len div 256 > 255 then Inl ValueError
         else Inr ([0xCD, byte_of (info_len div 256), byte_of (info_len mod 256)] @ info_b))"

definition JIoKEY_S_dumps_v0 :: "key_row \<Rightarrow> bytes res" where
  "JIoKEY_S_dumps_v0 r =
     as_JValueError (res_bind (dump_fields_v0 r) (\<lambda>fs. res_bind (msg_dumps (VTuple fs)) row_prefix))"

definition JIoKEY_S_dumps_v1 :: "key_row \<Rightarrow> bytes res" where
  "JIoKEY_S_dumps_v1 r =
     as_JValueError (res_bind (dump_fields_v1 r) (\<lambda>fs. res_bind (msg_dumps (VTuple fs)) row_prefix))"

definition JIoKEY_S_dumps_v2 :: "key_row \<Rightarrow> bytes res" where
  "JIoKEY_S_dumps_v2 r =
     as_JValueError (res_bind (dump_fields_v2 r) (\<lambda>fs. res_bind (msg_dumps (VTuple fs)) row_prefix))"

text \<open>The prefix check all three readers share: the message-pack part of a row whose first
  byte after the prefix is the array header of the expected layout.\<close>

definition row_payload :: "byte \<Rightarrow> bytes \<Rightarrow> bytes res" where
  "row_payload info data =
     (case data of
        prefix0 # prefix1 # prefix2 # info0 # _ \<Rightarrow>
          if prefix0 = 0xCD \<and> info0 = info
          then Inr (take (unat prefix1 * 256 + unat prefix2) (drop 3 data))
          else Inl JValueError
      | _ \<Rightarrow> Inl ValueError)"

definition JIoKEY_S_loads_v0 :: "bytes \<Rightarrow> key_row res" where
  "JIoKEY_S_loads_v0 data =
     as_JValueError (res_bind (row_payload 0x96 data) (\<lambda>info.
       res_bind (msg_loads info) (\<lambda>v. res_bind (py_iter v) load_fields_v0)))"

definition JIoKEY_S_loads_v1 :: "bytes \<Rightarrow> key_row res" where
  "JIoKEY_S_loads_v1 data =
     as_JValueError (res_bind (row_payload 0x97 data) (\<lambda>info.
       res_bind (msg_loads info) (\<lambda>v. res_bind (py_take 7 v) load_fields_v1)))"

definition JIoKEY_S_loads_v2 :: "bytes \<Rightarrow> key_row res" where
  "JIoKEY_S_loads_v2 data =
     as_JValueError (res_bind (row_payload 0x98 data) (\<lambda>info.
       res_bind (msg_loads info) (\<lambda>v. res_bind (py_take 8 v) load_fields_v2)))"

text \<open>
  \<open>JIoKEY_U\<close>: the codec a developer registers.  \<open>dumps_v1\<close> and \<open>loads_v1\<close> use the
  current-layout callables, as the code does, and the \<open>v0\<close> methods the seven-field layout.
\<close>

record user_key_codec =
  u_dumps :: "(pyval \<Rightarrow> bytes res) option"
  u_loads :: "(bytes \<Rightarrow> pyval res) option"
  u_dumps_v0 :: "(pyval \<Rightarrow> bytes res) option"
  u_loads_v0 :: "(bytes \<Rightarrow> pyval res) option"
  u_dumps_v1 :: "(pyval \<Rightarrow> bytes res) option"
  u_loads_v1 :: "(bytes \<Rightarrow> pyval res) option"

definition JIoKEY_U_init :: user_key_codec where
  "JIoKEY_U_init = \<lparr>u_dumps = None, u_loads = None, u_dumps_v0 = None, u_loads_v0 = None,
                    u_dumps_v1 = None, u_loads_v1 = None\<rparr>"

definition codec_test_val :: pyval where
  "codec_test_val = VTuple [VStr [49], VInt 2, VInt 3, VInt 4, VInt 5, VInt 6, VInt 7, VInt 8]"

definition codec_self_test :: "(pyval \<Rightarrow> bytes res) \<Rightarrow> (bytes \<Rightarrow> pyval res) \<Rightarrow> bool" where
  "codec_self_test dumps loads =
     (case res_bind (dumps codec_test_val) (\<lambda>b. res_bind (loads b) py_iter) of
        Inl e \<Rightarrow> False | Inr xs \<Rightarrow> py_eq (VTuple xs) codec_test_val)"

definition or_else :: "'a option \<Rightarrow> 'a \<Rightarrow> 'a option" where
  "or_else opt d = (case opt of None \<Rightarrow> Some d | Some x \<Rightarrow> Some x)"

definition JIoKEY_U_register ::
    "(pyval \<Rightarrow> bytes res) \<Rightarrow> (bytes \<Rightarrow> pyval res) \<Rightarrow> (pyval \<Rightarrow> bytes res) option \<Rightarrow>
     (bytes \<Rightarrow> pyval res) option \<Rightarrow> (pyval \<Rightarrow> bytes res) option \<Rightarrow> (bytes \<Rightarrow> pyval res) option \<Rightarrow>
     user_key_codec res" where
  "JIoKEY_U_register dumps loads dumps_v0 loads_v0 dumps_v1 loads_v1 =
     (if codec_self_test dumps loads
      then Inr \<lparr>u_dumps = Some dumps, u_loads = Some loads,
                u_dumps_v0 = or_else dumps_v0 dumps, u_loads_v0 = or_else loads_v0 loads,
                u_dumps_v1 = or_else dumps_v1 dumps, u_loads_v1 = or_else loads_v1 loads\<rparr>
      else Inl TypeError)"

definition JIoKEY_U_dumps_v2 :: "user_key_codec \<Rightarrow> key_row \<Rightarrow> bytes res" where
  "JIoKEY_U_dumps_v2 u r =
     (case u_dumps u of None \<Rightarrow> Inl NotRegisteredError
      | Some d \<Rightarrow> as_JValueError (res_bind (dump_fields_v2 r) (\<lambda>fs. d (VTuple fs))))"

definition JIoKEY_U_loads_v2 :: "user_key_codec \<Rightarrow> bytes \<Rightarrow> key_row res" where
  "JIoKEY_U_loads_v2 u data =
     (case u_loads u of None \<Rightarrow> Inl NotRegisteredError
      | Some l \<Rightarrow> as_JValueError (res_bind (l data) (\<lambda>v. res_bind (py_take 8 v) load_fields_v2)))"

definition JIoKEY_U_dumps_v1 :: "user_key_codec \<Rightarrow> key_row \<Rightarrow> bytes res" where
  "JIoKEY_U_dumps_v1 u r =
     (case u_dumps u of None \<Rightarrow> Inl NotRegisteredError
      | Some d \<Rightarrow> as_JValueError (res_bind (dump_fields_v1 r) (\<lambda>fs. d (VTuple fs))))"

definition JIoKEY_U_loads_v1 :: "user_key_codec \<Rightarrow> bytes \<Rightarrow> key_row res" where
  "JIoKEY_U_loads_v1 u data =
     (case u_loads u of None \<Rightarrow> Inl NotRegisteredError
      | Some l \<Rightarrow> as_JValueError (res_bind (l data) (\<lambda>v. res_bind (py_take 7 v) load_fields_v1)))"

definition JIoKEY_U_dumps_v0 :: "user_key_codec \<Rightarrow> key_row \<Rightarrow> bytes res" where
  "JIoKEY_U_dumps_v0 u r =
     (case u_dumps_v0 u of None \<Rightarrow> Inl NotRegisteredError
      | Some d \<Rightarrow> as_JValueError (res_bind (dump_fields_v1 r) (\<lambda>fs. d (VTuple fs))))"

definition JIoKEY_U_loads_v0 :: "user_key_codec \<Rightarrow> bytes \<Rightarrow> key_row res" where
  "JIoKEY_U_loads_v0 u data =
     (case u_loads_v0 u of None \<Rightarrow> Inl NotRegisteredError
      | Some l \<Rightarrow> as_JValueError (res_bind (l data) (\<lambda>v. res_bind (py_take 7 v) load_fields_v1)))"


section \<open>Round trip of the fields\<close>

text \<open>The rows \<open>write_key\<close> hands over, and what is read back of their days.\<close>

definition day_ok :: "key_row \<Rightarrow> bool" where
  "day_ok r \<longleftrightarrow>
     (\<exists>c. cdays r = PI c \<and> 0 \<le> c \<and> of_int c \<le> num_val (mdays r)) \<and> num_int (mdays r) < 2 ^ 22 \<and>
     stored_ttl (ttl r) \<and> (kflags r AND KF_EXPIRE \<noteq> 0 \<longleftrightarrow> 0 < num_val (ttl r)) \<and>
     0 \<le> kflags r \<and> kflags r < 2 ^ 16"

definition viewed :: "key_row \<Rightarrow> key_row" where
  "viewed r =
     (let (c, m, t) = day_view (num_int (cdays r)) (mdays r) (ttl r)
      in r\<lparr>cdays := PI c, mdays := m, ttl := t\<rparr>)"

definition with_group :: "key_row \<Rightarrow> key_row" where
  "with_group r =
     r\<lparr>kflags := kflags r OR
        (if py_eq (row_size r) (VInt 0) \<and> py_eq (file_id r) (VInt 0x10) then KF_GROUP else 0)\<rparr>"

lemma unfold_days_flags_cong:
  "(f AND KF_EXPIRE \<noteq> 0 \<longleftrightarrow> g AND KF_EXPIRE \<noteq> 0) \<Longrightarrow> unfold_days d f = unfold_days d g"
  by (simp add: unfold_days_eq_unpack_days unpack_days_def)

lemma and_bit7: "x AND (128::int) = 0 \<longleftrightarrow> \<not> bit x 7"
  using and_single_bit [of x 7] by simp

lemma expire_or_group: "(f OR (if b then KF_GROUP else 0)) AND KF_EXPIRE \<noteq> 0 \<longleftrightarrow> f AND KF_EXPIRE \<noteq> 0"
proof -
  have "\<not> bit (4::int) 7" by simp
  then show ?thesis by (auto simp: and_bit7 bit_or_iff)
qed

lemma day_okE:
  assumes "day_ok r"
  obtains d where "fold_days (cdays r) (mdays r) (ttl r) = Inr d" "0 \<le> d" "d < 2 ^ 48"
    "unfold_days d (kflags r) = day_view (num_int (cdays r)) (mdays r) (ttl r)"
    "0 \<le> kflags r" "kflags r < 2 ^ 16"
proof -
  obtain c where c: "cdays r = PI c" "0 \<le> c" "of_int c \<le> num_val (mdays r)"
    using assms by (auto simp: day_ok_def)
  then show ?thesis
    using assms that fold_unfold_days_view [of c "mdays r" "ttl r" "kflags r"]
    by (auto simp: day_ok_def simp del: key_flag_bit.simps)
qed

lemma load_dump_fields_v2:
  assumes "day_ok r"
  shows "res_bind (dump_fields_v2 r) load_fields_v2 = Inr (viewed r)"
  using assms
  by (rule day_okE)
     (simp add: dump_fields_v2_def load_fields_v2_def make_row_def viewed_def case_prod_beta Let_def)

lemma flags_above_stored:
  assumes "0 \<le> d" "d < 2 ^ 48" "0 \<le> f" "f < 2 ^ 16"
  shows "drop_bit 48 (d OR push_bit 48 (f AND KEY_FLAG_MASK)) AND KEY_FLAG_MASK = f"
    and "f AND KEY_FLAG_MASK = f"
proof -
  show f: "f AND KEY_FLAG_MASK = f"
    using assms by (simp add: codec_simps and_mask_field bit_field_id)
  show "drop_bit 48 (d OR push_bit 48 (f AND KEY_FLAG_MASK)) AND KEY_FLAG_MASK = f"
    unfolding f unfolding codec_simps drop_shifted_and_mask using assms
    by (simp add: bit_field_or bit_field_push bit_field_below0)
qed

lemma load_dump_fields_v1:
  assumes "day_ok r"
  shows "res_bind (dump_fields_v1 r) load_fields_v1 = Inr (with_group (viewed r))"
  using assms
proof (rule day_okE)
  fix d
  assume d: "fold_days (cdays r) (mdays r) (ttl r) = Inr d" "0 \<le> d" "d < 2 ^ 48"
    "unfold_days d (kflags r) = day_view (num_int (cdays r)) (mdays r) (ttl r)"
    "0 \<le> kflags r" "kflags r < 2 ^ 16"
  note fl = flags_above_stored [OF d(2,3,5,6)]
  have u: "unfold_days (d OR push_bit 48 x) (kflags r OR (if b then KF_GROUP else 0)) =
      day_view (num_int (cdays r)) (mdays r) (ttl r)" for x b
    using d(4) unfold_days_flags_cong [OF expire_or_group [of "kflags r" b]]
    by (simp add: unfold_days_eq_unpack_days unpack_days_flags_above)
  show ?thesis
    unfolding dump_fields_v1_def load_fields_v1_def d(1) res_bind_simps list.case as_int.simps
      flags_above_def make_row_def with_group_def viewed_def
    using fl u by (simp add: KEY_FLAG_SHIFT_def case_prod_beta Let_def del: key_flag_bit.simps)
qed


text \<open>A \<open>v0\<close> row keeps both sizes in one number, so they must be numbers of 32 bits.\<close>

definition sizes_ok :: "key_row \<Rightarrow> bool" where
  "sizes_ok r \<longleftrightarrow> (\<exists>rs vs. row_size r = VInt rs \<and> val_size r = VInt vs \<and>
     0 \<le> rs \<and> rs < 2 ^ 32 \<and> 0 \<le> vs \<and> vs < 2 ^ 31)"

lemma sizes_packed:
  fixes rs vs :: int
  assumes "0 \<le> rs" "rs < 2 ^ 32"
  shows "(rs OR push_bit 32 vs) AND 0xFFFFFFFF = rs" "drop_bit 32 (rs OR push_bit 32 vs) = vs"
proof -
  have m: "(0xFFFFFFFF :: int) = mask 32" by (simp add: mask_eq_exp_minus_1)
  show "(rs OR push_bit 32 vs) AND 0xFFFFFFFF = rs"
    unfolding m and_mask_field using assms by (simp add: bit_field_or bit_field_id bit_field_above)
  have "bit (drop_bit 32 (rs OR push_bit 32 vs)) n = bit vs n" for n
    using assms small_int_bit [of rs 32 "32 + n"] by (auto simp: bit_simps)
  then show "drop_bit 32 (rs OR push_bit 32 vs) = vs" by (intro bit_eqI) simp
qed

lemma load_dump_fields_v0:
  assumes "day_ok r" "sizes_ok r"
  shows "res_bind (dump_fields_v0 r) load_fields_v0 = Inr (with_group (viewed r))"
  using assms(1)
proof (rule day_okE)
  fix d
  assume d: "fold_days (cdays r) (mdays r) (ttl r) = Inr d" "0 \<le> d" "d < 2 ^ 48"
    "unfold_days d (kflags r) = day_view (num_int (cdays r)) (mdays r) (ttl r)"
    "0 \<le> kflags r" "kflags r < 2 ^ 16"
  note fl = flags_above_stored [OF d(2,3,5,6)]
  have u: "unfold_days (d OR push_bit 48 x) (kflags r OR (if b then KF_GROUP else 0)) =
      day_view (num_int (cdays r)) (mdays r) (ttl r)" for x b
    using d(4) unfold_days_flags_cong [OF expire_or_group [of "kflags r" b]]
    by (simp add: unfold_days_eq_unpack_days unpack_days_flags_above)
  obtain rs vs where z: "row_size r = VInt rs" "val_size r = VInt vs" "0 \<le> rs" "rs < 2 ^ 32"
    using assms(2) by (auto simp: sizes_ok_def)
  show ?thesis
    unfolding dump_fields_v0_def load_fields_v0_def d(1) z(1,2) res_bind_simps list.case as_int.simps
      flags_above_def make_row_def with_group_def viewed_def Let_def sizes_packed [OF z(3,4)]
    using fl u z(1,2) by (simp add: KEY_FLAG_SHIFT_def case_prod_beta Let_def del: key_flag_bit.simps)
qed

section \<open>The contract of a serializer\<close>

fun scalar_val :: "pyval \<Rightarrow> bool" where
  "scalar_val VNone = True"
| "scalar_val (VBool b) = True"
| "scalar_val (VInt i) = True"
| "scalar_val (VStr t) = True"
| "scalar_val _ = False"

definition scalar_row :: "key_row \<Rightarrow> bool" where
  "scalar_row r \<longleftrightarrow> scalar_val (row_key r) \<and> scalar_val (file_id r) \<and> scalar_val (offset r) \<and>
     scalar_val (row_size r) \<and> scalar_val (val_size r) \<and> scalar_val (ver r)"

lemma dump_fields_scalar:
  "scalar_row r \<Longrightarrow> dump_fields_v0 r = Inr fs \<Longrightarrow> list_all scalar_val fs \<and> length fs = 6"
  "scalar_row r \<Longrightarrow> dump_fields_v1 r = Inr fs \<Longrightarrow> list_all scalar_val fs \<and> length fs = 7"
  "scalar_row r \<Longrightarrow> dump_fields_v2 r = Inr fs \<Longrightarrow> list_all scalar_val fs \<and> length fs = 8"
  by (auto simp: dump_fields_v0_def dump_fields_v1_def dump_fields_v2_def scalar_row_def
      res_bind_Inr_iff)

text \<open>
  What the row codecs rely on: a tuple of strings and integers comes back as a list (JSON,
  message pack) or as a tuple (marshal) of the same items, also before the padding that
  fills a row.
\<close>

locale tuple_codec =
  fixes ser :: "pyval \<Rightarrow> bytes res" and des :: "bytes \<Rightarrow> pyval res" and pad_ok :: "bytes \<Rightarrow> bool"
  assumes roundtrip:
    "list_all scalar_val fs \<Longrightarrow> ser (VTuple fs) = Inr b \<Longrightarrow> pad_ok pad \<Longrightarrow>
       des (b @ pad) = Inr (VList fs) \<or> des (b @ pad) = Inr (VTuple fs)"
begin

lemma rows_v2:
  assumes "day_ok r" "scalar_row r" "JIoKEY_J_dumps_v2 ser r = Inr b" "pad_ok pad"
  shows "JIoKEY_J_loads_v2 des (b @ pad) = Inr (viewed r)"
proof -
  obtain fs where fs: "dump_fields_v2 r = Inr fs" "ser (VTuple fs) = Inr b"
    using assms(3) by (auto simp: JIoKEY_J_dumps_v2_def res_bind_Inr_iff)
  then show ?thesis
    using roundtrip [OF _ fs(2) assms(4)] dump_fields_scalar(3) [OF assms(2) fs(1)]
      load_dump_fields_v2 [OF assms(1)]
    by (auto simp: JIoKEY_J_loads_v2_def)
qed

lemma rows_v1:
  assumes "day_ok r" "scalar_row r" "JIoKEY_J_dumps_v1 ser r = Inr b" "pad_ok pad"
  shows "JIoKEY_J_loads_v1 des (b @ pad) = Inr (with_group (viewed r))"
proof -
  obtain fs where fs: "dump_fields_v1 r = Inr fs" "ser (VTuple fs) = Inr b"
    using assms(3) by (auto simp: JIoKEY_J_dumps_v1_def res_bind_Inr_iff)
  then show ?thesis
    using roundtrip [OF _ fs(2) assms(4)] dump_fields_scalar(2) [OF assms(2) fs(1)]
      load_dump_fields_v1 [OF assms(1)]
    by (auto simp: JIoKEY_J_loads_v1_def)
qed

lemma rows_v0:
  assumes "day_ok r" "scalar_row r" "sizes_ok r" "JIoKEY_J_dumps_v0 ser r = Inr b" "pad_ok pad"
  shows "JIoKEY_J_loads_v0 des (b @ pad) = Inr (with_group (viewed r))"
proof -
  obtain fs where fs: "dump_fields_v0 r = Inr fs" "ser (VTuple fs) = Inr b"
    using assms(4) by (auto simp: JIoKEY_J_dumps_v0_def res_bind_Inr_iff)
  then show ?thesis
    using roundtrip [OF _ fs(2) assms(5)] dump_fields_scalar(1) [OF assms(2) fs(1)]
      load_dump_fields_v0 [OF assms(1,3)]
    by (auto simp: JIoKEY_J_loads_v0_def)
qed

end

text \<open>Message pack keeps the contract with any padding at all.\<close>

lemma scalar_val_codec: "scalar_val v \<Longrightarrow> decodable v \<and> canon v = v"
  by (cases v) auto

lemma scalar_vals_codec: "list_all scalar_val fs \<Longrightarrow> list_all decodable fs \<and> map canon fs = fs"
  by (induction fs) (auto dest: scalar_val_codec)

lemma msg_tuple_roundtrip:
  "list_all scalar_val fs \<Longrightarrow> msg_dumps (VTuple fs) = Inr b \<Longrightarrow> msg_loads (b @ pad) = Inr (VList fs)"
  using msg_roundtrip_view [of "VTuple fs" b pad] by (auto dest: scalar_vals_codec)

interpretation msgpack: tuple_codec msg_dumps msg_loads "\<lambda>_. True"
  by unfold_locales (simp add: msg_tuple_roundtrip)

text \<open>So does a serializer that gives a tuple back as a tuple.\<close>

fun as_tuple :: "pyval \<Rightarrow> pyval" where
  "as_tuple (VList xs) = VTuple xs"
| "as_tuple v = v"

definition tuple_loads :: "bytes \<Rightarrow> pyval res" where
  "tuple_loads b = map_sum id as_tuple (msg_loads b)"

interpretation tuples: tuple_codec msg_dumps tuple_loads "\<lambda>_. True"
  by unfold_locales (simp add: msg_tuple_roundtrip tuple_loads_def)


section \<open>The message-pack rows\<close>

lemma row_payload_prefix:
  assumes "row_prefix info_b = Inr b" "info_b = info0 # rest"
  shows "row_payload info0 (b @ pad) = Inr info_b"
    and "info \<noteq> info0 \<Longrightarrow> row_payload info (b @ pad) = Inl JValueError"
proof -
  let ?n = "length info_b"
  have n: "?n div 256 < 256" "b = [0xCD, byte_of (?n div 256), byte_of (?n mod 256)] @ info_b"
    using assms(1) by (auto simp: row_prefix_def Let_def split: if_splits)
  have "unat (byte_of (?n div 256)) * 256 + unat (byte_of (?n mod 256)) = ?n"
    using n(1) by simp
  then show "row_payload info0 (b @ pad) = Inr info_b"
    unfolding row_payload_def n(2) using assms(2) by (simp del: unat_byte_of_small)
  show "info \<noteq> info0 \<Longrightarrow> row_payload info (b @ pad) = Inl JValueError"
    unfolding row_payload_def n(2) using assms(2) by simp
qed

lemma msg_dumps_tuple_header:
  assumes "msg_dumps (VTuple fs) = Inr b" "length fs \<le> 15"
  obtains rest where "b = byte_of (0x90 + length fs) # rest"
  using assms by (auto simp: msg_dumps_enc res_bind_Inr_iff array_header_def be_bytes_1)

lemma byte_of_numerals: "byte_of 0x96 = 0x96" "byte_of 0x97 = 0x97" "byte_of 0x98 = 0x98"
  by (simp_all add: byte_of_def)

text \<open>Size of an encoded row, for the lemma that rows with sane fields always encode.\<close>

lemma pack_int_ok: "- (2 ^ 63) \<le> i \<Longrightarrow> i < 2 ^ 64 \<Longrightarrow> \<exists>b. pack_int i = Inr b \<and> length b \<le> 9"
  by (simp add: pack_int_def)

lemma length_utf8_char: "length (utf8_char c) \<le> 4"
  by (simp add: utf8_char_def)

lemma length_utf8: "length (concat (map utf8_char t)) \<le> 4 * length t"
proof (induction t)
  case (Cons c t)
  then show ?case using length_utf8_char [of c] by simp
qed simp

lemma length_str_header: "length (str_header n) \<le> 5"
  by (simp add: str_header_def)

text \<open>Sane rows: a text key of at most 16000 characters and 64-bit numbers.\<close>

fun int_field :: "pyval \<Rightarrow> bool" where
  "int_field (VInt i) = (- (2 ^ 63) \<le> i \<and> i < 2 ^ 64)"
| "int_field _ = False"

fun key_field :: "pyval \<Rightarrow> bool" where
  "key_field (VStr t) = (list_all scalar t \<and> length t \<le> 16000)"
| "key_field _ = False"

definition row_in_range :: "key_row \<Rightarrow> bool" where
  "row_in_range r \<longleftrightarrow> key_field (row_key r) \<and>
     list_all int_field [file_id r, offset r, row_size r, val_size r, ver r]"

lemma enc_key_ok:
  assumes "key_field v" "0 \<le> nl"
  shows "\<exists>b. enc nl v = Inr b \<and> length b \<le> 64005"
proof -
  obtain t where t: "v = VStr t" "list_all scalar t" "length t \<le> 16000"
    using assms(1) by (cases v) auto
  let ?b = "concat (map utf8_char t)"
  have "length ?b \<le> 64000" using length_utf8 [of t] t(3) by linarith
  then show ?thesis
    using t assms(2) length_str_header [of "length ?b"] by (simp add: utf8_encode_def)
qed

lemma enc_ints_ok:
  assumes "list_all int_field fs" "0 \<le> nl"
  shows "\<exists>b. enc_all nl fs = Inr b \<and> length b \<le> 9 * length fs"
  using assms(1)
proof (induction fs)
  case (Cons v fs)
  then obtain i where i: "v = VInt i" "- (2 ^ 63) \<le> i" "i < 2 ^ 64" by (cases v) auto
  then obtain b where b: "pack_int i = Inr b" "length b \<le> 9" using pack_int_ok by blast
  obtain b' where b': "enc_all nl fs = Inr b'" "length b' \<le> 9 * length fs" using Cons by auto
  show ?case using i b b' assms(2) by simp
qed simp

lemma row_dumps_ok:
  assumes "key_field key" "list_all int_field fs" "length fs \<le> 7"
  shows "\<exists>b b'. msg_dumps (VTuple (key # fs)) = Inr b \<and> row_prefix b = Inr b'"
proof -
  obtain b1 where b1: "enc 1023 key = Inr b1" "length b1 \<le> 64005"
    using enc_key_ok [OF assms(1), of 1023] by auto
  obtain b2 where b2: "enc_all 1023 fs = Inr b2" "length b2 \<le> 9 * length fs"
    using enc_ints_ok [OF assms(2), of 1023] by auto
  have h: "length (array_header (Suc (length fs))) = 1"
    using assms(3) by (simp add: array_header_def)
  define b where "b = array_header (Suc (length fs)) @ b1 @ b2"
  have "msg_dumps (VTuple (key # fs)) = Inr b"
    using b1 b2 assms(3) by (simp add: msg_dumps_enc b_def)
  moreover have "length b div 256 < 256"
    using b1(2) b2(2) assms(3) h by (intro less_mult_imp_div_less) (simp add: b_def)
  ultimately show ?thesis by (simp add: row_prefix_def Let_def)
qed

lemma int_fieldI: "0 \<le> x \<Longrightarrow> x < 2 ^ 64 \<Longrightarrow> int_field (VInt x)"
  by simp

lemma int_field_days: "0 \<le> d \<Longrightarrow> d < 2 ^ 48 \<Longrightarrow> int_field (VInt d)"
  by simp

lemma int_field_days_flags:
  assumes "0 \<le> d" "d < 2 ^ 48" "0 \<le> f" "f < 2 ^ 16"
  shows "int_field (VInt (d OR push_bit KEY_FLAG_SHIFT (f AND KEY_FLAG_MASK)))"
proof -
  have "push_bit 48 f < 2 ^ 64" using assms by (intro push_bit_less_exp [where w = 16]) simp_all
  then have "d OR push_bit 48 f < 2 ^ 64" using assms by (intro int_or_less_exp) simp_all
  moreover have "0 \<le> d OR push_bit 48 f" using assms by simp
  ultimately show ?thesis
    unfolding flags_above_stored(2) [OF assms] KEY_FLAG_SHIFT_def by (intro int_fieldI)
qed

lemma int_field_scalar: "int_field v \<Longrightarrow> scalar_val v" "key_field v \<Longrightarrow> scalar_val v"
  by (cases v; simp)+

lemma row_in_range_scalar: "row_in_range r \<Longrightarrow> scalar_row r"
  by (auto simp: row_in_range_def scalar_row_def int_field_scalar)

lemma S_row_roundtrip:
  assumes "dump r = Inr (key # fs)" "res_bind (dump r) load = Inr r'"
    and "key_field key" "list_all int_field fs" "length fs \<le> 7"
  obtains b info_b rest where "msg_dumps (VTuple (key # fs)) = Inr info_b" "row_prefix info_b = Inr b"
    "info_b = byte_of (0x91 + length fs) # rest" "msg_loads info_b = Inr (VList (key # fs))"
    "load (key # fs) = Inr r'"
proof -
  obtain info_b b where b: "msg_dumps (VTuple (key # fs)) = Inr info_b" "row_prefix info_b = Inr b"
    using row_dumps_ok [OF assms(3-5)] by blast
  moreover obtain rest where "info_b = byte_of (0x91 + length fs) # rest"
    using msg_dumps_tuple_header [OF b(1)] assms(5) by auto
  moreover have "msg_loads info_b = Inr (VList (key # fs))"
  proof -
    have "list_all scalar_val (key # fs)"
      using assms(3,4) by (auto simp: int_field_scalar list_all_iff)
    then show ?thesis using msg_tuple_roundtrip [OF _ b(1), of "[]"] by simp
  qed
  moreover have "load (key # fs) = Inr r'" using assms(1,2) by simp
  ultimately show ?thesis by (rule that)
qed


lemma S_rows_v2:
  assumes "day_ok r" "row_in_range r"
  shows "\<exists>b. JIoKEY_S_dumps_v2 r = Inr b \<and> (\<forall>pad. JIoKEY_S_loads_v2 (b @ pad) = Inr (viewed r))"
proof -
  obtain d where d: "fold_days (cdays r) (mdays r) (ttl r) = Inr d" "0 \<le> d" "d < 2 ^ 48"
    "0 \<le> kflags r" "kflags r < 2 ^ 16"
    using assms(1) by (rule day_okE)
  let ?fs = "[file_id r, offset r, row_size r, val_size r, ver r, VInt d, VInt (kflags r)]"
  have dump: "dump_fields_v2 r = Inr (row_key r # ?fs)" using d by (simp add: dump_fields_v2_def)
  have dd: "int_field (VInt d)" "int_field (VInt (kflags r))" using d by simp_all
  obtain b info_b rest where b: "msg_dumps (VTuple (row_key r # ?fs)) = Inr info_b"
    "row_prefix info_b = Inr b" "info_b = byte_of (0x91 + length ?fs) # rest"
    "msg_loads info_b = Inr (VList (row_key r # ?fs))" "load_fields_v2 (row_key r # ?fs) = Inr (viewed r)"
    using dump load_dump_fields_v2 [OF assms(1)]
    by (rule S_row_roundtrip)
       (use assms(2) dd in \<open>simp_all add: row_in_range_def del: int_field.simps\<close>)
  have "row_payload 0x98 (b @ pad) = Inr info_b" for pad
    using row_payload_prefix(1) [OF b(2,3)] by (simp add: byte_of_numerals)
  then show ?thesis
    using dump b by (simp add: JIoKEY_S_dumps_v2_def JIoKEY_S_loads_v2_def)
qed

text \<open>
  C28: the current row layout under message pack.  Every row that \<open>write_key\<close>
  completes, with sane fields, is encoded, and decoding the bytes with any padding
  behind them gives the row back, its days as the day field promises.
\<close>

theorem JIoKEY_S_roundtrip_v2:
  assumes "day_ok r" "row_in_range r"
  shows "\<exists>b. JIoKEY_S_dumps_v2 r = Inr b \<and> (\<forall>pad. JIoKEY_S_loads_v2 (b @ pad) = Inr (viewed r))"
  using assms by (rule S_rows_v2)

definition sample_row :: key_row where
  "sample_row = \<lparr>row_key = VStr [107, 0x20AC], file_id = VInt 2, offset = VInt 4096, row_size = VInt 64,
     val_size = VInt 17, ver = VInt 9, cdays = PI 739000, mdays = PI 739005, ttl = PI 30,
     kflags = KF_EXPIRE OR KF_NO_CACHE\<rparr>"

lemma sample_row_ok: "day_ok sample_row" "row_in_range sample_row" "sizes_ok sample_row"
  by (simp_all add: sample_row_def day_ok_def row_in_range_def sizes_ok_def scalar_def stored_ttl_def)

theorem JIoKEY_S_roundtrip_v2_witness:
  "\<exists>b. JIoKEY_S_dumps_v2 sample_row = Inr b \<and>
       (\<forall>pad. JIoKEY_S_loads_v2 (b @ pad) = Inr (viewed sample_row))"
  using JIoKEY_S_roundtrip_v2 [OF sample_row_ok(1,2)] .

text \<open>
  C29: the older layouts keep the same contract, with the key flags packed above the
  days and, in the oldest, the value size above the row size; and no reader accepts a
  row of another layout: it raises \<open>JValueError\<close>, it never misreads the fields.
\<close>

theorem JIoKEY_S_roundtrip_old:
  assumes "day_ok r" "row_in_range r" "sizes_ok r"
  shows "\<exists>b1 b0. JIoKEY_S_dumps_v1 r = Inr b1 \<and> JIoKEY_S_dumps_v0 r = Inr b0 \<and>
     (\<forall>pad. JIoKEY_S_loads_v1 (b1 @ pad) = Inr (with_group (viewed r)) \<and>
            JIoKEY_S_loads_v0 (b0 @ pad) = Inr (with_group (viewed r)) \<and>
            JIoKEY_S_loads_v2 (b1 @ pad) = Inl JValueError \<and>
            JIoKEY_S_loads_v2 (b0 @ pad) = Inl JValueError)"
proof -
  obtain d where d: "fold_days (cdays r) (mdays r) (ttl r) = Inr d" "0 \<le> d" "d < 2 ^ 48"
    "0 \<le> kflags r" "kflags r < 2 ^ 16"
    using assms(1) by (rule day_okE)
  obtain rs vs where z: "row_size r = VInt rs" "val_size r = VInt vs" "0 \<le> rs" "rs < 2 ^ 32"
    "0 \<le> vs" "vs < 2 ^ 31"
    using assms(3) by (auto simp: sizes_ok_def)
  let ?days = "VInt (d OR push_bit KEY_FLAG_SHIFT (kflags r AND KEY_FLAG_MASK))"
  let ?f1 = "[file_id r, offset r, row_size r, val_size r, ver r, ?days]"
  let ?f0 = "[file_id r, offset r, VInt (rs OR push_bit 32 vs), ver r, ?days]"
  have packed: "int_field (VInt (rs OR push_bit 32 vs))"
    using z by (intro int_fieldI int_or_less_exp push_bit_less_exp [where w = 31]) simp_all
  note days = int_field_days_flags [OF d(2-5)]
  have dump1: "dump_fields_v1 r = Inr (row_key r # ?f1)" using d by (simp add: dump_fields_v1_def)
  have dump0: "dump_fields_v0 r = Inr (row_key r # ?f0)"
    using d z by (simp add: dump_fields_v0_def)
  obtain b1 info1 rest1 where b1: "msg_dumps (VTuple (row_key r # ?f1)) = Inr info1"
    "row_prefix info1 = Inr b1" "info1 = byte_of (0x91 + length ?f1) # rest1"
    "msg_loads info1 = Inr (VList (row_key r # ?f1))"
    "load_fields_v1 (row_key r # ?f1) = Inr (with_group (viewed r))"
    using dump1 load_dump_fields_v1 [OF assms(1)]
    by (rule S_row_roundtrip)
       (use assms(2) days in \<open>simp_all add: row_in_range_def del: int_field.simps\<close>)
  obtain b0 info0 rest0 where b0: "msg_dumps (VTuple (row_key r # ?f0)) = Inr info0"
    "row_prefix info0 = Inr b0" "info0 = byte_of (0x91 + length ?f0) # rest0"
    "msg_loads info0 = Inr (VList (row_key r # ?f0))"
    "load_fields_v0 (row_key r # ?f0) = Inr (with_group (viewed r))"
    using dump0 load_dump_fields_v0 [OF assms(1,3)]
    by (rule S_row_roundtrip)
       (use assms(2) days packed in \<open>simp_all add: row_in_range_def del: int_field.simps\<close>)
  have p: "row_payload 0x97 (b1 @ pad) = Inr info1" "row_payload 0x98 (b1 @ pad) = Inl JValueError"
    "row_payload 0x96 (b0 @ pad) = Inr info0" "row_payload 0x98 (b0 @ pad) = Inl JValueError" for pad
    using row_payload_prefix [OF b1(2,3)] row_payload_prefix [OF b0(2,3)]
    by (simp_all add: byte_of_numerals)
  then show ?thesis
    using dump1 dump0 b1 b0
    by (simp add: JIoKEY_S_dumps_v1_def JIoKEY_S_loads_v1_def JIoKEY_S_dumps_v0_def
        JIoKEY_S_loads_v0_def JIoKEY_S_loads_v2_def as_JValueError_def caught_def)
qed

theorem JIoKEY_S_roundtrip_old_witness:
  "\<exists>b1 b0. JIoKEY_S_dumps_v1 sample_row = Inr b1 \<and> JIoKEY_S_dumps_v0 sample_row = Inr b0 \<and>
     (\<forall>pad. JIoKEY_S_loads_v1 (b1 @ pad) = Inr (with_group (viewed sample_row)) \<and>
            JIoKEY_S_loads_v0 (b0 @ pad) = Inr (with_group (viewed sample_row)) \<and>
            JIoKEY_S_loads_v2 (b1 @ pad) = Inl JValueError \<and>
            JIoKEY_S_loads_v2 (b0 @ pad) = Inl JValueError)"
  using JIoKEY_S_roundtrip_old [OF sample_row_ok] .


section \<open>The other serializers\<close>

text \<open>
  C30: with any serializer that gives the items of a tuple back, as a list or as a tuple and
  whatever padding it tolerates, the JSON and marshal codecs and a developer's registered
  codec give back the row they stored in the current layout, and the JSON and marshal codecs
  also in the previous one, where the group flag is the one of a row without value.  The row is
  one that \<open>write_key\<close> completed (\<open>day_ok\<close>), its other fields are texts, integers, booleans or \<open>None\<close> (\<open>scalar_row\<close>),
  and the serializer accepts it.
\<close>

theorem row_codecs_roundtrip:
  assumes "tuple_codec ser des pad_ok" "day_ok r" "scalar_row r" "pad_ok pad"
    and "JIoKEY_J_dumps_v2 ser r = Inr b" "JIoKEY_J_dumps_v1 ser r = Inr b1"
    and "u_dumps u = Some ser" "u_loads u = Some des"
  shows "JIoKEY_J_loads_v2 des (b @ pad) = Inr (viewed r) \<and>
         JIoKEY_J_loads_v1 des (b1 @ pad) = Inr (with_group (viewed r)) \<and>
         JIoKEY_M_dumps_v2 ser r = Inr b \<and> JIoKEY_M_loads_v2 des (b @ pad) = Inr (viewed r) \<and>
         JIoKEY_M_dumps_v1 ser r = Inr b1 \<and> JIoKEY_M_loads_v1 des (b1 @ pad) = Inr (with_group (viewed r)) \<and>
         JIoKEY_U_dumps_v2 u r = Inr b \<and> JIoKEY_U_loads_v2 u (b @ pad) = Inr (viewed r)"
  using tuple_codec.rows_v2 [OF assms(1,2,3,5,4)] tuple_codec.rows_v1 [OF assms(1,2,3,6,4)] assms(5-8)
  by (simp add: JIoKEY_J_loads_v2_def JIoKEY_J_loads_v1_def JIoKEY_M_dumps_v2_def JIoKEY_M_loads_v2_def
      JIoKEY_M_dumps_v1_def JIoKEY_M_loads_v1_def JIoKEY_U_dumps_v2_def JIoKEY_U_loads_v2_def
      JIoKEY_J_dumps_v2_def JIoKEY_J_dumps_v1_def)

definition msgpack_user_codec :: user_key_codec where
  "msgpack_user_codec = JIoKEY_U_init\<lparr>u_dumps := Some msg_dumps, u_loads := Some msg_loads\<rparr>"

lemma sample_dumps:
  "\<exists>b. JIoKEY_J_dumps_v2 msg_dumps sample_row = Inr b" "\<exists>b. JIoKEY_J_dumps_v1 msg_dumps sample_row = Inr b"
proof -
  obtain d where d: "fold_days (cdays sample_row) (mdays sample_row) (ttl sample_row) = Inr d" "0 \<le> d"
    "d < 2 ^ 48" "0 \<le> kflags sample_row" "kflags sample_row < 2 ^ 16"
    using sample_row_ok(1) by (rule day_okE)
  have i: "int_field (VInt d)" "int_field (VInt (kflags sample_row))" using d by simp_all
  show "\<exists>b. JIoKEY_J_dumps_v2 msg_dumps sample_row = Inr b"
    using row_dumps_ok [of "row_key sample_row" "[file_id sample_row, offset sample_row,
        row_size sample_row, val_size sample_row, ver sample_row, VInt d, VInt (kflags sample_row)]"]
      i sample_row_ok(2)
    by (auto simp: JIoKEY_J_dumps_v2_def dump_fields_v2_def d(1) row_in_range_def simp del: int_field.simps)
  show "\<exists>b. JIoKEY_J_dumps_v1 msg_dumps sample_row = Inr b"
    using row_dumps_ok [of "row_key sample_row" "[file_id sample_row, offset sample_row,
        row_size sample_row, val_size sample_row, ver sample_row,
        VInt (d OR push_bit KEY_FLAG_SHIFT (kflags sample_row AND KEY_FLAG_MASK))]"]
      int_field_days_flags [OF d(2-5)] sample_row_ok(2)
    by (auto simp: JIoKEY_J_dumps_v1_def dump_fields_v1_def d(1) row_in_range_def simp del: int_field.simps)
qed

theorem row_codecs_roundtrip_witness:
  "\<exists>b b1. JIoKEY_J_dumps_v2 msg_dumps sample_row = Inr b \<and>
      JIoKEY_J_loads_v2 msg_loads (b @ [10, 10]) = Inr (viewed sample_row) \<and>
      JIoKEY_M_loads_v2 tuple_loads (b @ [10, 10]) = Inr (viewed sample_row) \<and>
      JIoKEY_M_loads_v1 tuple_loads (b1 @ [10, 10]) = Inr (with_group (viewed sample_row)) \<and>
      JIoKEY_U_loads_v2 msgpack_user_codec (b @ [10, 10]) = Inr (viewed sample_row)"
proof -
  obtain b b1 where b: "JIoKEY_J_dumps_v2 msg_dumps sample_row = Inr b"
      "JIoKEY_J_dumps_v1 msg_dumps sample_row = Inr b1"
    using sample_dumps by blast
  note s = sample_row_ok(1) row_in_range_scalar [OF sample_row_ok(2)] TrueI b
  show ?thesis
    using row_codecs_roundtrip [OF msgpack.tuple_codec_axioms s, of msgpack_user_codec]
      row_codecs_roundtrip [OF tuples.tuple_codec_axioms s, of "msgpack_user_codec\<lparr>u_loads := Some tuple_loads\<rparr>"] b
    by (intro exI [of _ b] exI [of _ b1]) (simp add: msgpack_user_codec_def)
qed

text \<open>
  The callables a developer registers for the previous layout are never called:
  rows of that layout go through the current-layout callables, whatever was passed as
  \<open>dumps_v1\<close> and \<open>loads_v1\<close>.
\<close>

theorem user_codec_ignores_v1:
  assumes "JIoKEY_U_register d l d0 l0 d1 l1 = Inr u"
  shows "JIoKEY_U_dumps_v1 u r = as_JValueError (res_bind (dump_fields_v1 r) (\<lambda>fs. d (VTuple fs))) \<and>
         JIoKEY_U_loads_v1 u data =
           as_JValueError (res_bind (l data) (\<lambda>v. res_bind (py_take 7 v) load_fields_v1)) \<and>
         u_dumps_v1 u = or_else d1 d \<and> u_loads_v1 u = or_else l1 l"
  using assms
  by (auto simp: JIoKEY_U_register_def JIoKEY_U_dumps_v1_def JIoKEY_U_loads_v1_def split: if_splits)

theorem user_codec_ignores_v1_witness:
  "\<exists>u. JIoKEY_U_register msg_dumps msg_loads None None (Some (\<lambda>v. Inr [])) None = Inr u \<and>
       u_dumps_v1 u \<noteq> None \<and>
       JIoKEY_U_dumps_v1 u sample_row =
         as_JValueError (res_bind (dump_fields_v1 sample_row) (\<lambda>fs. msg_dumps (VTuple fs)))"
proof -
  have "codec_self_test msg_dumps msg_loads"
  proof -
    obtain b where b: "msg_dumps codec_test_val = Inr b"
      using row_dumps_ok [of "VStr [49]" "[VInt 2, VInt 3, VInt 4, VInt 5, VInt 6, VInt 7, VInt 8]"]
      by (auto simp: codec_test_val_def scalar_def)
    then have "msg_loads b = Inr (VList [VStr [49], VInt 2, VInt 3, VInt 4, VInt 5, VInt 6, VInt 7, VInt 8])"
      using msg_tuple_roundtrip [of _ b "[]"] by (auto simp: codec_test_val_def)
    with b show ?thesis by (simp add: codec_self_test_def codec_test_val_def)
  qed
  then obtain u where u: "JIoKEY_U_register msg_dumps msg_loads None None (Some (\<lambda>v. Inr [])) None = Inr u"
    by (simp add: JIoKEY_U_register_def)
  show ?thesis using u user_codec_ignores_v1 [OF u, of sample_row "[]"] by (auto simp: or_else_def)
qed

section \<open>What \<open>write_key\<close> guarantees\<close>

lemma flags_expire_bit:
  "(f OR KF_EXPIRE) AND KF_EXPIRE \<noteq> 0" "(f AND NOT KF_EXPIRE) AND KF_EXPIRE = 0"
proof -
  have "bit (128::int) 7" by simp
  then show "(f OR KF_EXPIRE) AND KF_EXPIRE \<noteq> 0" "(f AND NOT KF_EXPIRE) AND KF_EXPIRE = 0"
    by (simp_all add: and_bit7 bit_or_iff bit_and_iff bit_not_iff)
qed

definition written_flags :: "int option \<Rightarrow> bool \<Rightarrow> bool \<Rightarrow> int" where
  "written_flags fl grp pos =
     (let f = (case fl of None \<Rightarrow> 0 | Some f \<Rightarrow> f AND KEY_FLAG_MASK);
          g = (if grp then f OR KF_GROUP else f)
      in if pos then g OR KF_EXPIRE else g AND NOT KF_EXPIRE)"

lemma written_flags:
  "0 \<le> written_flags fl grp pos" "written_flags fl grp pos < 2 ^ 16"
  "written_flags fl grp pos AND KF_EXPIRE \<noteq> 0 \<longleftrightarrow> pos"
proof -
  define f where "f = (case fl of None \<Rightarrow> 0 | Some f \<Rightarrow> f AND KEY_FLAG_MASK)"
  define g where "g = (if grp then f OR KF_GROUP else f)"
  have f: "0 \<le> f" "f < 2 ^ 16"
    using bit_field_bounds(2) [of 0 16]
    by (simp_all add: f_def codec_simps and_mask_field split: option.splits)
  have g: "0 \<le> g" "g < 2 ^ 16" using f by (auto simp: g_def intro!: int_or_less_exp [where n = 16, simplified])
  have "g AND NOT KF_EXPIRE \<le> g" using g by (intro AND_upper1) 
  then have n: "g AND NOT KF_EXPIRE < 2 ^ 16" "0 \<le> g AND NOT KF_EXPIRE" using g by simp_all
  have o: "g OR KF_EXPIRE < 2 ^ 16" "0 \<le> g OR KF_EXPIRE"
    using g by (auto intro!: int_or_less_exp [where n = 16, simplified])
  have w: "written_flags fl grp pos = (if pos then g OR KF_EXPIRE else g AND NOT KF_EXPIRE)"
    by (simp only: written_flags_def f_def g_def Let_def)
  show "0 \<le> written_flags fl grp pos" "written_flags fl grp pos < 2 ^ 16"
    "written_flags fl grp pos AND KF_EXPIRE \<noteq> 0 \<longleftrightarrow> pos"
    unfolding w using n o flags_expire_bit by auto
qed

definition written_ttl :: "pynum \<Rightarrow> pynum" where
  "written_ttl lt =
     (if num_val lt \<le> 0 then PI 0
      else if num_val lt < of_int MAX_TTL_DAYS then lt else PI MAX_TTL_DAYS)"

lemma written_ttl: "stored_ttl lt \<Longrightarrow> stored_ttl (written_ttl lt)"
  by (auto simp: written_ttl_def stored_ttl_def split: pynum.splits)

lemma write_key_row_fields:
  fixes today now sync_id key fid off rsize vsize vr cds mds lt fl
  defines "r \<equiv> write_key_row today now sync_id key fid off rsize vsize vr cds mds lt fl"
    and "t \<equiv> num_val (written_ttl lt)" and "c \<equiv> (if cds < 0 then today else cds AND SUB_DAY_MASK)"
  shows "cdays r = PI c" "ttl r = written_ttl lt"
    "kflags r = written_flags fl (key \<noteq> [] \<and> fid = 0x10 \<and> rsize = 0) (t > 0)"
    "mdays r = (if num_val mds < 0 then (if 0 < t \<and> t < 1 then now else PI today)
       else let m = (if \<not> (1 > t \<and> t > 0) then PI (num_int mds) else mds)
            in if num_val m < of_int c then PI c else m)"
  unfolding r_def t_def c_def
  by (simp_all add: write_key_row_def written_ttl_def written_flags_def Let_def del: key_flag_bit.simps
      cong: option.case_cong)

lemma masked_day: "0 \<le> x AND SUB_DAY_MASK" "x AND SUB_DAY_MASK < 2 ^ 22" "0 \<le> x \<Longrightarrow> x AND SUB_DAY_MASK \<le> x"
proof -
  show "0 \<le> x AND SUB_DAY_MASK" by (simp add: codec_simps and_mask_field)
  show "x AND SUB_DAY_MASK < 2 ^ 22"
    using bit_field_bounds(2) [of 0 22 x] by (simp add: codec_simps and_mask_field)
  show "0 \<le> x \<Longrightarrow> x AND SUB_DAY_MASK \<le> x" by (rule AND_upper1)
qed

text \<open>
  C21: the row that \<open>write_key\<close> completes can be stored and read back by the day field (the
  lifetime sets the expiry flag, the creation day is not after the modification day),
  under five conditions on its arguments: the clock shows a day below 2^22, and the
  sub-day reading of it is of the same day; the lifetime is an integer of days or a
  fraction of a day in whole minutes (so not the float 1.0, see \<open>conv_ttl\<close>); the
  modification day is below 2^22; and a creation day after today comes with a modification
  day.
\<close>

theorem write_key_row_day_ok:
  assumes "0 \<le> today" "today < 2 ^ 22" "num_int now = today" "of_int today \<le> num_val now"
    and "stored_ttl lt" "num_int mds < 2 ^ 22" "cds \<le> today \<or> 0 \<le> num_val mds"
  shows "day_ok (write_key_row today now sync_id key fid off rsize vsize vr cds mds lt fl)"
proof -
  let ?r = "write_key_row today now sync_id key fid off rsize vsize vr cds mds lt fl"
  note f = write_key_row_fields [of today now sync_id key fid off rsize vsize vr cds mds lt fl]
  define c where "c = (if cds < 0 then today else cds AND SUB_DAY_MASK)"
  have c: "cdays ?r = PI c" "0 \<le> c" "c < 2 ^ 22" "num_val mds < 0 \<Longrightarrow> c \<le> today"
    using f(1) masked_day [of cds] assms by (auto simp: c_def)
  have "of_int c \<le> num_val (mdays ?r) \<and> num_int (mdays ?r) < 2 ^ 22"
  proof (cases "num_val mds < 0")
    case True
    then have "(of_int c :: rat) \<le> of_int today" using c(4) by simp
    then show ?thesis using f(4) True assms(2,3,4) by auto
  next
    case False
    define m where "m = (if \<not> (1 > num_val (written_ttl lt) \<and> num_val (written_ttl lt) > 0)
      then PI (num_int mds) else mds)"
    have m: "mdays ?r = (if num_val m < of_int c then PI c else m)"
      using f(4) False by (simp add: m_def c_def Let_def)
    have "num_int m < 2 ^ 22" using assms(6) by (simp add: m_def)
    then show ?thesis using m c(3) by auto
  qed
  then show ?thesis
    unfolding day_ok_def f(2) f(3)
    using c assms(5) written_ttl written_flags by auto
qed

theorem write_key_row_day_ok_witness:
  "day_ok (write_key_row 739000 (PF (739000 + 61 / 1440)) 7 [107] 2 64 32 30 None 738000
     (PI (-1)) (PF (90 / 1440)) None)"
  by (rule write_key_row_day_ok) (simp_all add: py_trunc_def stored_ttl_def floor_eq_iff)

text \<open>
  Outside that proviso the row is misread.  Creating a record with a creation day
  ten days ahead and a lifetime of five days leaves today as the modification day;
  the difference wraps, and the row reads as modified 8192 days after today, so the
  record outlives its lifetime by over twenty years.
\<close>

theorem future_creation_day_ttl:
  defines "r \<equiv> write_key_row 738990 (PI 738990) 7 [107] 2 64 32 30 None 739000 (PI (-1)) (PI 5) None"
  shows "mdays r = PI 738990 \<and>
     res_bind (dump_fields_v2 r) (\<lambda>fs. res_bind (load_fields_v2 fs) (\<lambda>r'.
       Inr (cdays r', mdays r', ttl r'))) = Inr (PI 739000, PI (738990 + 8192), PI 5)"
proof -
  have r: "cdays r = PI 739000" "ttl r = PI 5" "mdays r = PI 738990" "kflags r = KF_EXPIRE"
    unfolding r_def
    by (simp_all add: write_key_row_fields written_ttl_def written_flags_def codec_simps
        mask_eq_exp_minus_1 del: key_flag_bit.simps)
  show ?thesis
    using fold_days_negative_delta
    by (simp add: dump_fields_v2_def load_fields_v2_def make_row_def r del: key_flag_bit.simps)
qed


section \<open>The value codecs\<close>

text \<open>Up to nine attempts, each with one more pad byte.\<close>

fun retry_loads :: "(bytes \<Rightarrow> pyval res) \<Rightarrow> byte \<Rightarrow> nat \<Rightarrow> bytes \<Rightarrow> pyval res" where
  "retry_loads loads pad 0 data = Inl JValueError"
| "retry_loads loads pad (Suc n) data =
     (case loads data of
        Inr v \<Rightarrow> Inr v
      | Inl e \<Rightarrow> if caught e then retry_loads loads pad n (data @ [pad]) else Inl e)"

definition JIoVAL_S_dumps :: "pyval \<Rightarrow> bytes res" where
  "JIoVAL_S_dumps data = as_JValueError (msg_dumps data)"

definition JIoVAL_S_loads :: "bytes \<Rightarrow> pyval res" where
  "JIoVAL_S_loads data = retry_loads msg_loads 0xC1 9 data"

definition JIoVAL_M_dumps :: "(pyval \<Rightarrow> bytes res) \<Rightarrow> pyval \<Rightarrow> bytes res" where
  "JIoVAL_M_dumps marshal_dumps data = as_JValueError (marshal_dumps data)"

definition JIoVAL_M_loads :: "(bytes \<Rightarrow> pyval res) \<Rightarrow> bytes \<Rightarrow> pyval res" where
  "JIoVAL_M_loads marshal_loads data = retry_loads marshal_loads NL 9 data"

definition JIoVAL_P_dumps :: "(pyval \<Rightarrow> bytes res) \<Rightarrow> pyval \<Rightarrow> bytes res" where
  "JIoVAL_P_dumps pickle_dumps data = as_JValueError (pickle_dumps data)"

definition JIoVAL_P_loads :: "(bytes \<Rightarrow> pyval res) \<Rightarrow> bytes \<Rightarrow> pyval res" where
  "JIoVAL_P_loads pickle_loads data = retry_loads pickle_loads NL 9 data"

text \<open>
  \<open>JIoVAL_U\<close>: no codec registered is \<open>UserCodecNotRegisteredError\<close>, before the guard.
\<close>

definition JIoVAL_U_dumps :: "(pyval \<Rightarrow> bytes res) option \<Rightarrow> pyval \<Rightarrow> bytes res" where
  "JIoVAL_U_dumps dumps data =
     (case dumps of None \<Rightarrow> Inl NotRegisteredError | Some d \<Rightarrow> as_JValueError (d data))"

definition JIoVAL_U_loads :: "(bytes \<Rightarrow> pyval res) option \<Rightarrow> bytes \<Rightarrow> pyval res" where
  "JIoVAL_U_loads loads data =
     (case loads of None \<Rightarrow> Inl NotRegisteredError | Some l \<Rightarrow> as_JValueError (l data))"

text \<open>Binary values inside JSON: a marker, the bytes in hexadecimal, and a checksum byte.\<close>

definition hex_digit :: "nat \<Rightarrow> nat" where
  "hex_digit d = (if d < 10 then 48 + d else 87 + d)"

definition hex_byte :: "byte \<Rightarrow> nat list" where
  "hex_byte b = [hex_digit (unat b div 16), hex_digit (unat b mod 16)]"

definition hex_of :: "bytes \<Rightarrow> nat list" where
  "hex_of b = concat (map hex_byte b)"

definition JSON_MARK :: "nat list" where "JSON_MARK = [0, 1, 0, 1]"

text \<open>\<open>reduce\<close> on nothing is a \<open>TypeError\<close>.\<close>

definition byte_sum :: "bytes \<Rightarrow> nat res" where
  "byte_sum b = (case b of [] \<Rightarrow> Inl TypeError
     | x # xs \<Rightarrow> Inr (foldl (\<lambda>a y. (a + unat y) mod 256) (unat x) xs))"

fun json_default :: "pyval \<Rightarrow> pyval res" where
  "json_default (VSet xs) = Inr (VList xs)"
| "json_default (VFrozen xs) = Inr (VList xs)"
| "json_default (VBytes b) =
     res_bind (byte_sum b) (\<lambda>s. Inr (VStr (JSON_MARK @ hex_of b @ hex_of [byte_of ((256 - s) mod 256)])))"
| "json_default (VByteArray b) =
     res_bind (byte_sum b) (\<lambda>s. Inr (VStr (JSON_MARK @ hex_of b @ hex_of [byte_of ((256 - s) mod 256)])))"
| "json_default v = Inl TypeError"

definition hex_value :: "nat \<Rightarrow> nat option" where
  "hex_value c =
     (if 48 \<le> c \<and> c \<le> 57 then Some (c - 48)
      else if 97 \<le> c \<and> c \<le> 102 then Some (c - 87)
      else if 65 \<le> c \<and> c \<le> 70 then Some (c - 55) else None)"

definition ascii_space :: "nat \<Rightarrow> bool" where
  "ascii_space c = (c = 32 \<or> (9 \<le> c \<and> c \<le> 13))"

text \<open>\<open>bytes.fromhex\<close>: pairs of digits, with spaces allowed between the pairs.\<close>

fun fromhex :: "nat list \<Rightarrow> bytes res" where
  "fromhex [] = Inr []"
| "fromhex (c # cs) =
     (if ascii_space c then fromhex cs
      else case cs of [] \<Rightarrow> Inl ValueError
      | d # ds \<Rightarrow>
          (case (hex_value c, hex_value d) of
             (Some x, Some y) \<Rightarrow> res_bind (fromhex ds) (\<lambda>bs. Inr (byte_of (16 * x + y) # bs))
           | _ \<Rightarrow> Inl ValueError))"

definition JIoVAL_J_loads :: "(bytes \<Rightarrow> pyval res) \<Rightarrow> bytes \<Rightarrow> pyval res" where
  "JIoVAL_J_loads json_loads data =
     as_JValueError (res_bind (json_loads data) (\<lambda>val.
       case val of
         VStr t \<Rightarrow>
           if take 4 t = JSON_MARK then
             (case fromhex (drop 4 t) of
                Inl e \<Rightarrow> Inr val
              | Inr bs \<Rightarrow> res_bind (byte_sum bs) (\<lambda>s. Inr (if s = 0 then VBytes (butlast bs) else val)))
           else Inr val
       | _ \<Rightarrow> Inr val))"

text \<open>
  \<open>json_dumps\<close> is the library's encoder with \<open>_json_default\<close> as its fallback.  The library
  walks through lists, tuples and dictionaries, and puts what the fallback answers in the
  place of a value it cannot write, so that it writes the \<open>json_image\<close> of the value; \<open>jkey\<close> is
  what the library makes of a key of a dictionary (\<open>orjson\<close> takes text only, \<open>json\<close> turns
  numbers into text), and \<open>jenc\<close> is the library on values that JSON knows.
\<close>

fun json_image :: "(pyval \<Rightarrow> nat list res) \<Rightarrow> pyval \<Rightarrow> pyval res"
  and json_images :: "(pyval \<Rightarrow> nat list res) \<Rightarrow> pyval list \<Rightarrow> pyval list res"
  and json_items :: "(pyval \<Rightarrow> nat list res) \<Rightarrow> (pyval \<times> pyval) list \<Rightarrow> (pyval \<times> pyval) list res" where
  "json_image jkey (VList xs) = map_sum id VList (json_images jkey xs)"
| "json_image jkey (VTuple xs) = map_sum id VList (json_images jkey xs)"
| "json_image jkey (VSet xs) = map_sum id VList (json_images jkey xs)"
| "json_image jkey (VFrozen xs) = map_sum id VList (json_images jkey xs)"
| "json_image jkey (VDict items) = map_sum id VDict (json_items jkey items)"
| "json_image jkey (VBytes b) = json_default (VBytes b)"
| "json_image jkey (VByteArray b) = json_default (VByteArray b)"
| "json_image jkey v = Inr v"
| "json_images jkey [] = Inr []"
| "json_images jkey (v # vs) =
     res_bind (json_image jkey v) (\<lambda>x. res_bind (json_images jkey vs) (\<lambda>xs. Inr (x # xs)))"
| "json_items jkey [] = Inr []"
| "json_items jkey ((k, v) # kvs) =
     res_bind (jkey k) (\<lambda>t. res_bind (json_image jkey v) (\<lambda>x.
       res_bind (json_items jkey kvs) (\<lambda>xs. Inr ((VStr t, x) # xs))))"

definition json_dumps :: "(pyval \<Rightarrow> nat list res) \<Rightarrow> (pyval \<Rightarrow> bytes res) \<Rightarrow> pyval \<Rightarrow> bytes res" where
  "json_dumps jkey jenc v = res_bind (json_image jkey v) jenc"

text \<open>The values JSON stands for; the numbers that are not finite are outside.\<close>

fun json_value :: "pyval \<Rightarrow> bool" where
  "json_value (VList xs) = list_all json_value xs"
| "json_value (VDict items) =
     (distinct (map fst items) \<and> list_all (\<lambda>(k, v). (case k of VStr t \<Rightarrow> True | _ \<Rightarrow> False) \<and> json_value v) items)"
| "json_value (VFloat w) = (float_value w \<noteq> None)"
| "json_value (VTuple xs) = False"
| "json_value (VSet xs) = False"
| "json_value (VFrozen xs) = False"
| "json_value (VBytes b) = False"
| "json_value (VByteArray b) = False"
| "json_value v = True"

definition JIoVAL_J_dumps :: "(pyval \<Rightarrow> bytes res) \<Rightarrow> pyval \<Rightarrow> bytes res" where
  "JIoVAL_J_dumps dumps data = as_JValueError (dumps data)"

lemma hex_byte_back:
  "fromhex (hex_byte b @ cs) = res_bind (fromhex cs) (\<lambda>bs. Inr (b # bs))"
proof -
  have d: "hex_value (hex_digit n) = Some n" "\<not> ascii_space (hex_digit n)" if "n < 16" for n
    using that by (auto simp: hex_value_def hex_digit_def ascii_space_def)
  have "unat b div 16 < 16" using unat_byte_less [of b] by (intro less_mult_imp_div_less) simp
  moreover have "unat b mod 16 < 16" by simp
  moreover have "16 * (unat b div 16) + unat b mod 16 = unat b" by simp
  ultimately show ?thesis using d by (simp add: hex_byte_def)
qed

lemma fromhex_hex_of: "fromhex (hex_of b) = Inr b"
proof (induction b)
  case (Cons x b)
  then show ?case using hex_byte_back [of x "hex_of b"] by (simp add: hex_of_def)
qed (simp add: hex_of_def)

lemma byte_sum_snoc:
  assumes "byte_sum b = Inr s"
  shows "s < 256" "byte_sum (b @ [byte_of ((256 - s) mod 256)]) = Inr 0"
proof -
  obtain x xs where b: "b = x # xs" "s = foldl (\<lambda>a y. (a + unat y) mod 256) (unat x) xs"
    using assms by (cases b) (auto simp: byte_sum_def)
  show s: "s < 256" using b(2) by (cases xs rule: rev_cases) auto
  have "(s + (256 - s) mod 256) mod 256 = 0" using s by (cases "s = 0") auto
  then show "byte_sum (b @ [byte_of ((256 - s) mod 256)]) = Inr 0"
    using b by (simp add: byte_sum_def)
qed

lemma json_text_back:
  assumes "json_loads data = Inr v"
  shows "json_default (VBytes b) = Inr v \<Longrightarrow> JIoVAL_J_loads json_loads data = Inr (VBytes b)"
    and "v = VStr JSON_MARK \<Longrightarrow> JIoVAL_J_loads json_loads data = Inl JValueError"
    and "(\<And>t. v = VStr t \<Longrightarrow> take 4 t \<noteq> JSON_MARK) \<Longrightarrow> JIoVAL_J_loads json_loads data = Inr v"
proof -
  assume j: "json_default (VBytes b) = Inr v"
  then obtain s where s: "byte_sum b = Inr s" by (cases "byte_sum b") auto
  let ?c = "byte_of ((256 - s) mod 256)"
  have h: "hex_of b @ hex_of [?c] = hex_of (b @ [?c])" by (simp add: hex_of_def)
  have "fromhex (hex_of b @ hex_of [?c]) = Inr (b @ [?c])" unfolding h by (rule fromhex_hex_of)
  moreover have "v = VStr (JSON_MARK @ hex_of b @ hex_of [?c])" using j s by simp
  ultimately show "JIoVAL_J_loads json_loads data = Inr (VBytes b)"
    using s byte_sum_snoc(2) [OF s] assms by (simp add: JIoVAL_J_loads_def JSON_MARK_def)
next
  assume "v = VStr JSON_MARK"
  then show "JIoVAL_J_loads json_loads data = Inl JValueError"
    using assms by (simp add: JIoVAL_J_loads_def JSON_MARK_def byte_sum_def as_JValueError_def caught_def)
next
  assume "\<And>t. v = VStr t \<Longrightarrow> take 4 t \<noteq> JSON_MARK"
  then show "JIoVAL_J_loads json_loads data = Inr v"
    using assms by (auto simp: JIoVAL_J_loads_def split: pyval.splits)
qed

lemma json_dumps_empty:
  "JIoVAL_J_dumps (json_dumps jkey jenc) (VBytes []) = Inl JValueError"
  "JIoVAL_J_dumps (json_dumps jkey jenc) (VByteArray []) = Inl JValueError"
  by (simp_all add: JIoVAL_J_dumps_def json_dumps_def byte_sum_def as_JValueError_def caught_def)

text \<open>Values that \<open>json_default\<close> or the library turn into something else.\<close>

fun is_binary :: "pyval \<Rightarrow> bool" where
  "is_binary (VBytes b) = True"
| "is_binary (VByteArray b) = True"
| "is_binary v = False"

fun marked :: "pyval \<Rightarrow> bool" where
  "marked (VStr t) = (take 4 t = JSON_MARK)"
| "marked v = False"

lemma json_image_text: "json_image jkey v = Inr (VStr t) \<Longrightarrow> \<not> is_binary v \<Longrightarrow> v = VStr t"
  by (cases v) (auto simp: map_sum_def split: sum.splits)

text \<open>
  C31: values under the JSON codec.  A whole value that is a non-empty byte string or byte
  array comes back as exactly those bytes, and an empty one cannot be written.  Any other
  value, unless it is a text that itself begins with the marker of binary data, comes back as its
  JSON image: tuples and sets as lists, and a binary value inside a container as the
  marked text, which is not turned back.  The text that is the bare marker can be written but
  not read.  The JSON library reads back the JSON values it writes, and the image is such a value:
  its floats are finite and the texts it makes of the keys of a dictionary are pairwise different.
\<close>

theorem json_bytes_roundtrip:
  assumes library: "\<And>x d. json_value x \<Longrightarrow> jenc x = Inr d \<Longrightarrow> json_loads d = Inr x"
    and "JIoVAL_J_dumps (json_dumps jkey jenc) v = Inr data"
    and "\<And>x. json_image jkey v = Inr x \<Longrightarrow> json_value x"
  shows "(\<forall>b. v = VBytes b \<or> v = VByteArray b \<longrightarrow>
            b \<noteq> [] \<and> JIoVAL_J_loads json_loads data = Inr (VBytes b)) \<and>
         (\<not> is_binary v \<and> \<not> marked v \<longrightarrow>
            JIoVAL_J_loads json_loads data = json_image jkey v) \<and>
         (v = VStr JSON_MARK \<longrightarrow> JIoVAL_J_loads json_loads data = Inl JValueError)"
proof -
  obtain x where x: "json_image jkey v = Inr x" "jenc x = Inr data"
    using assms(2) by (auto simp: JIoVAL_J_dumps_def json_dumps_def res_bind_Inr_iff)
  note ld = json_text_back [where json_loads = json_loads, OF library [OF assms(3) [OF x(1)] x(2)]]
  show ?thesis
  proof (intro conjI allI impI)
    fix b assume v: "v = VBytes b \<or> v = VByteArray b"
    then show "b \<noteq> []" using assms(2) json_dumps_empty by auto
    have "json_default (VBytes b) = Inr x" using v x(1) by auto
    then show "JIoVAL_J_loads json_loads data = Inr (VBytes b)" by (rule ld(1))
  next
    assume v: "\<not> is_binary v \<and> \<not> marked v"
    have "JIoVAL_J_loads json_loads data = Inr x"
      by (rule ld(3)) (use v json_image_text [of jkey v] x(1) in auto)
    with x(1) show "JIoVAL_J_loads json_loads data = json_image jkey v" by simp
  next
    assume "v = VStr JSON_MARK"
    then show "JIoVAL_J_loads json_loads data = Inl JValueError" using x(1) ld(2) by simp
  qed
qed

text \<open>A library for the example: it writes texts only, one byte a character.\<close>

definition text_enc :: "pyval \<Rightarrow> bytes res" where
  "text_enc v = (case v of VStr t \<Rightarrow> if list_all (\<lambda>c. c < 256) t then Inr (map of_nat t) else Inl ValueError
     | _ \<Rightarrow> Inl TypeError)"

definition text_dec :: "bytes \<Rightarrow> pyval res" where
  "text_dec d = Inr (VStr (map unat d))"

theorem json_bytes_roundtrip_witness:
  "\<exists>data. JIoVAL_J_dumps (json_dumps (\<lambda>_. Inl TypeError) text_enc) (VByteArray [7]) = Inr data \<and>
     JIoVAL_J_loads text_dec data = Inr (VBytes [7])"
proof -
  have i: "json_image (\<lambda>_. Inl TypeError) (VByteArray [7]) = Inr (VStr [0, 1, 0, 1, 48, 55, 102, 57])"
    by (simp add: byte_sum_def JSON_MARK_def hex_of_def hex_byte_def hex_digit_def)
  then obtain data where d: "JIoVAL_J_dumps (json_dumps (\<lambda>_. Inl TypeError) text_enc) (VByteArray [7]) = Inr data"
    by (simp add: JIoVAL_J_dumps_def json_dumps_def text_enc_def)
  have l: "text_dec d = Inr x" if "json_value x" "text_enc x = Inr d" for x d
    using that by (auto simp: text_enc_def text_dec_def list_all_iff unat_of_nat
        split: pyval.splits if_splits intro!: map_idI [symmetric] nth_equalityI)
  have v: "json_value x" if "json_image (\<lambda>_. Inl TypeError) (VByteArray [7]) = Inr x" for x
    using that i by simp
  from json_bytes_roundtrip [OF l d v] d show ?thesis by auto
qed

end
