(* ===== verification/Row_Store.thy ===== *)
theory Row_Store
  imports Row_Codec
begin

text \<open>
  \<open>omni_json_db/jdb_io.py\<close>, class \<open>JIo\<close>: the KEY file.  After a header of 128 bytes come
  \<open>n_lines\<close> rows of \<open>index_size\<close> bytes; the first \<open>n_records\<close> are live.  Rows are written
  and read through two small caches, copied, and moved to another row size in place.
  The file is the byte stream of \<open>Byte_Stream\<close>; the row codec is a parameter, and the header is
  the JSON text of \<open>JIoHEAD\<close> (\<open>jdb_codec.py\<close>).
\<close>

section \<open>State\<close>

definition HEADER_SIZE :: nat where "HEADER_SIZE = 128"
definition MIN_INDEX_SIZE :: nat where "MIN_INDEX_SIZE = 16 + 8 * 6"
definition MAX_INDEX_SIZE :: nat where "MAX_INDEX_SIZE = 2 ^ 13"
definition TOTAL_KEY_ROWS :: nat where "TOTAL_KEY_ROWS = 8"
definition TOTAL_DEAD_ROWS :: nat where "TOTAL_DEAD_ROWS = 16"

record row_codec =
  KEY_dumps :: "key_row \<Rightarrow> bytes res"
  KEY_loads :: "bytes \<Rightarrow> key_row res"

text \<open>
  The engine's counters, its clock and its row caches (ordered dictionaries, the oldest
  entry first); the fields with a \<open>p_\<close> are the counters as last synchronized.
\<close>

record jio =
  index_size :: nat
  n_records :: nat
  n_lines :: nat
  sync_id :: int
  swap_id :: int
  remv_id :: int
  max_vfiles :: int
  file_size :: nat
  p_sync :: int
  p_swap :: int
  p_remv :: int
  p_records :: int
  p_lines :: int
  zip_type :: int
  data_type :: int
  api_ver :: int
  today :: int
  now_num :: pynum
  table_keys :: "nat list list"
  vfile_ids :: "int list"
  KEY_rows :: "(nat \<times> key_row) list"
  DEAD_rows :: "(nat \<times> pyval \<times> pyval \<times> pyval) list"

text \<open>The arguments of \<open>write_key\<close>.\<close>

record write_args =
  w_key :: "nat list"
  w_file :: int
  w_offset :: int
  w_row_size :: int
  w_val_size :: int
  w_ver :: "int option"
  w_cdays :: int
  w_mdays :: pynum
  w_ttl :: pynum
  w_flags :: "int option"

definition completed :: "jio \<Rightarrow> write_args \<Rightarrow> key_row" where
  "completed io w =
     write_key_row (today io) (now_num io) (sync_id io) (w_key w) (w_file w) (w_offset w)
       (w_row_size w) (w_val_size w) (w_ver w) (w_cdays w) (w_mdays w) (w_ttl w) (w_flags w)"

text \<open>A row as \<open>read_key\<close> returns it, passed on to \<open>write_key\<close>: \<open>write_key(fp, dst, *row)\<close>.\<close>

fun row_args :: "key_row \<Rightarrow> write_args res" where
  "row_args r =
     (case (row_key r, file_id r, offset r, row_size r, val_size r, ver r, cdays r) of
        (VStr k, VInt f, VInt o', VInt rs, VInt vs, VInt v, PI c) \<Rightarrow>
          Inr \<lparr>w_key = k, w_file = f, w_offset = o', w_row_size = rs, w_val_size = vs, w_ver = Some v,
               w_cdays = c, w_mdays = mdays r, w_ttl = ttl r, w_flags = Some (kflags r)\<rparr>
      | _ \<Rightarrow> Inl TypeError)"

definition row_pos :: "jio \<Rightarrow> nat \<Rightarrow> nat" where
  "row_pos io row = HEADER_SIZE + row * index_size io"

text \<open>\<open>fp.seek\<close> to a place at or after the start, and a write there.\<close>

definition seek_to :: "nat \<Rightarrow> jbytesio \<Rightarrow> jbytesio" where
  "seek_to p fp = fp\<lparr>idx := p\<rparr>"

definition write_at :: "nat \<Rightarrow> bytes \<Rightarrow> jbytesio \<Rightarrow> jbytesio" where
  "write_at p b fp = snd (stream_write b (seek_to p fp))"

definition SPACE :: byte where "SPACE = 0x20"

text \<open>The bytes of a row: the data, spaces, and a line feed.\<close>

definition row_line :: "nat \<Rightarrow> bytes \<Rightarrow> bytes" where
  "row_line sz data =
     (let pad = sz - length data - 1
      in if pad > 0 then data @ replicate pad SPACE @ [NL] else data @ [NL])"

section \<open>Reading and writing rows\<close>

definition last_n :: "nat \<Rightarrow> 'a list \<Rightarrow> 'a list" where
  "last_n n xs = drop (length xs - n) xs"

definition note_key :: "nat \<Rightarrow> key_row \<Rightarrow> jio \<Rightarrow> jio" where
  "note_key row r io = io\<lparr>KEY_rows := last_n TOTAL_KEY_ROWS (assoc_del row (KEY_rows io) @ [(row, r)])\<rparr>"

definition note_dead :: "nat \<Rightarrow> key_row \<Rightarrow> jio \<Rightarrow> jio" where
  "note_dead row r io =
     io\<lparr>DEAD_rows := last_n TOTAL_DEAD_ROWS
          (assoc_del row (DEAD_rows io) @ [(row, file_id r, offset r, row_size r)])\<rparr>"

definition forget :: "nat \<Rightarrow> jio \<Rightarrow> jio" where
  "forget row io = io\<lparr>KEY_rows := assoc_del row (KEY_rows io), DEAD_rows := assoc_del row (DEAD_rows io)\<rparr>"

text \<open>The last part of \<open>write_key\<close>: the caches and the line.\<close>

definition put_row :: "nat \<Rightarrow> key_row \<Rightarrow> bytes \<Rightarrow> jio \<times> jbytesio \<Rightarrow> jio \<times> jbytesio" where
  "put_row row r data = (\<lambda>(io, fp).
     let io1 = forget row io;
         io2 = (if row < n_records io then note_key row r io1
                else if row \<ge> n_records io + 1 then note_dead row r io1 else io1)
     in (io2, write_at (row_pos io row) (row_line (index_size io) data) fp))"

definition read_key :: "row_codec \<Rightarrow> nat \<Rightarrow> jio \<times> jbytesio \<Rightarrow> key_row res \<times> jio \<times> jbytesio" where
  "read_key cod row = (\<lambda>(io, fp).
     let io1 = io\<lparr>DEAD_rows := assoc_del row (DEAD_rows io)\<rparr>
     in case map_of (KEY_rows io) row of
          Some r \<Rightarrow> (Inr r, io1\<lparr>KEY_rows := assoc_del row (KEY_rows io) @ [(row, r)]\<rparr>, fp)
        | None \<Rightarrow>
            (let (n, b, fp1) = stream_readinto (replicate (index_size io) 0) (seek_to (row_pos io row) fp)
             in case KEY_loads cod (if n > 0 then b else []) of
                  Inl e \<Rightarrow> (Inl e, io1, fp1)
                | Inr r \<Rightarrow> (Inr r, if row < n_records io then note_key row r io1 else note_dead row r io1, fp1)))"

definition copy_key :: "nat \<Rightarrow> nat \<Rightarrow> jio \<times> jbytesio \<Rightarrow> bytes \<times> jio \<times> jbytesio" where
  "copy_key src dst = (\<lambda>(io, fp).
     let (n, line, fp1) = stream_readinto (replicate (index_size io) 0) (seek_to (row_pos io src) fp)
     in (line, forget dst io,
         if row_pos io src \<noteq> row_pos io dst then write_at (row_pos io dst) line fp1 else fp1))"

section \<open>The header\<close>

definition count_vfiles :: "jio \<Rightarrow> jio" where
  "count_vfiles io = (if vfile_ids io \<noteq> [] then io\<lparr>max_vfiles := Max (set (vfile_ids io)) + 1\<rparr> else io)"

text \<open>
  \<open>JIoHEAD.dumps_v0\<close>, \<open>dumps_v1\<close> and \<open>dumps_v2\<close>: the counters as a JSON list without spaces, the
  same ten integers in every layout.
\<close>

fun dec_nat :: "nat \<Rightarrow> bytes" where
  "dec_nat n = (if n < 10 then [byte_of (48 + n)] else dec_nat (n div 10) @ [byte_of (48 + n mod 10)])"

declare dec_nat.simps [simp del]

definition dec_int :: "int \<Rightarrow> bytes" where
  "dec_int i = (if i < 0 then 45 # dec_nat (nat (- i)) else dec_nat (nat i))"

fun comma_list :: "bytes list \<Rightarrow> bytes" where
  "comma_list [] = []"
| "comma_list [x] = x"
| "comma_list (x # xs) = x @ [44] @ comma_list xs"

definition JIoHEAD_dumps :: "int list \<Rightarrow> bytes" where
  "JIoHEAD_dumps xs = [91] @ comma_list (map dec_int xs) @ [93]"

definition header_data :: "jio \<Rightarrow> bytes" where
  "header_data io =
     JIoHEAD_dumps [sync_id io, int (n_records io), int (n_lines io), int (index_size io), zip_type io, data_type io,
       swap_id io, remv_id io, api_ver io, max_vfiles (count_vfiles io)]"

definition header_changed :: "jio \<Rightarrow> bool" where
  "header_changed io =
     (p_sync io \<noteq> sync_id io \<or> p_records io \<noteq> int (n_records io) \<or>
      p_lines io \<noteq> int (n_lines io) \<or> p_remv io \<noteq> remv_id io \<or> p_swap io \<noteq> swap_id io)"

definition note_header :: "jio \<Rightarrow> jio" where
  "note_header io = io\<lparr>p_sync := sync_id io, p_swap := swap_id io, p_remv := remv_id io,
     p_records := int (n_records io), p_lines := int (n_lines io)\<rparr>"

definition write_header :: "bool \<Rightarrow> jio \<times> jbytesio \<Rightarrow> (nat \<times> jio \<times> jbytesio) res" where
  "write_header trunc = (\<lambda>(io, fp).
     let chg = trunc \<or> header_changed io; data = header_data io; io1 = count_vfiles io
     in if HEADER_SIZE < length data + 1 then Inl JValueError
        else
          let fp1 = write_at 0 (data @ replicate (HEADER_SIZE - length data - 1) SPACE @ [NL]) fp;
              fp2 = (if trunc then
                       let e = HEADER_SIZE + n_lines io * index_size io
                       in (seek_to e fp1)\<lparr>buf := take e (buf fp1)\<rparr>
                     else seek_to (length (buf fp1)) fp1);
              fsz = idx fp2
          in if chg \<and> fsz = file_size io
             then Inr (fsz + 1, (note_header io1)\<lparr>file_size := fsz + 1\<rparr>, snd (stream_write [NL] fp2))
             else Inr (fsz, (if chg then note_header io1 else io1)\<lparr>file_size := fsz\<rparr>, fp2))"

section \<open>Moving the rows to another size\<close>

text \<open>Read rows \<open>src\<close>, \<open>src + 1\<close>, \<open>\<dots>\<close> into the look-ahead table, at most \<open>k\<close> of them.\<close>

fun read_ahead :: "row_codec \<Rightarrow> nat \<Rightarrow> nat \<Rightarrow> (nat \<times> key_row) list \<Rightarrow> jio \<times> jbytesio
    \<Rightarrow> ((nat \<times> key_row) list \<times> jio \<times> jbytesio) res" where
  "read_ahead cod src 0 tab st = Inr (tab, st)"
| "read_ahead cod src (Suc k) tab st =
     (case read_key cod src st of
        (Inl e, st') \<Rightarrow> Inl e
      | (Inr r, st') \<Rightarrow> read_ahead cod (Suc src) k (assoc_set src r tab) st')"

text \<open>The versions of a compacted file start again from one.\<close>

definition min_version :: "int \<Rightarrow> nat \<Rightarrow> nat \<Rightarrow> nat \<Rightarrow> write_args \<Rightarrow> write_args" where
  "min_version sync lines recs dst w =
     w\<lparr>w_key := (if dst \<ge> recs then [] else w_key w),
       w_ver := map_option (\<lambda>v. max 1 (v - sync + int lines)) (w_ver w)\<rparr>"

text \<open>
  The loop over the destination rows.  \<open>wk\<close> is \<open>write_key\<close> of the engine \<open>dst\<close> that has
  the new row size; both engines use the same stream.
\<close>

type_synonym row_writer = "nat \<Rightarrow> write_args \<Rightarrow> jio \<times> jbytesio \<Rightarrow> (nat \<times> jio \<times> jbytesio) res option"

fun resize_loop :: "row_writer \<Rightarrow> row_codec \<Rightarrow> bool \<Rightarrow> nat \<Rightarrow> nat \<Rightarrow> nat \<Rightarrow> (nat \<times> key_row) list
    \<Rightarrow> jio \<Rightarrow> jio \<Rightarrow> jbytesio \<Rightarrow> (jio \<times> jbytesio) res option" where
  "resize_loop wk cod min_ver 0 dst src tab io dst_io fp = Some (Inr (io, fp))"
| "resize_loop wk cod min_ver (Suc k) dst src tab io dst_io fp =
     (case (if src < n_lines io then
              (case read_key cod src (io, fp) of
                 (Inl e, st) \<Rightarrow> Inl e
               | (Inr r, io1, fp1) \<Rightarrow> Inr (Suc src, assoc_set src r tab, io1, fp1))
            else Inr (src, tab, io, fp)) of
        Inl e \<Rightarrow> Some (Inl e)
      | Inr (src1, tab1, io1, fp1) \<Rightarrow>
          (case map_of tab1 dst of
             None \<Rightarrow> Some (Inr (io1, fp1))
           | Some r \<Rightarrow>
               (case row_args r of
                  Inl e \<Rightarrow> Some (Inl e)
                | Inr w \<Rightarrow>
                    (let w = (if min_ver then min_version (sync_id io) (n_lines io) (n_records io) dst w else w)
                     in case wk dst w (dst_io, fp1) of
                          None \<Rightarrow> None
                        | Some (Inl e) \<Rightarrow> Some (Inl e)
                        | Some (Inr (n, dst_io1, fp2)) \<Rightarrow>
                            resize_loop wk cod min_ver k (Suc dst) src1 (assoc_del dst tab1) io1 dst_io1 fp2))))"

definition align8 :: "nat \<Rightarrow> nat" where
  "align8 n = (n div 8) * 8 + (if n mod 8 \<noteq> 0 then 8 else 0)"

text \<open>The engine \<open>JIo(\<dots>, index_size=\<dots>)\<close> builds, with \<open>n_lines\<close> set.\<close>

definition resized_io :: "jio \<Rightarrow> nat \<Rightarrow> jio" where
  "resized_io io isz = io\<lparr>index_size := isz, n_records := 0, sync_id := 0, swap_id := 0, remv_id := 0,
     file_size := 0, p_sync := 0, p_swap := -1, p_remv := -1, p_records := 0, p_lines := 0, max_vfiles := -1,
     table_keys := [], vfile_ids := [], KEY_rows := [], DEAD_rows := []\<rparr>"

definition look_ahead :: "nat \<Rightarrow> nat \<Rightarrow> nat \<Rightarrow> nat" where
  "look_ahead lines old_size new_size =
     (if new_size > old_size then min lines (lines * (new_size - old_size) div old_size + 8) else 0)"

definition resize_keys :: "row_writer \<Rightarrow> row_codec \<Rightarrow> nat \<Rightarrow> bool \<Rightarrow> jio \<times> jbytesio \<Rightarrow> (jio \<times> jbytesio) res option" where
  "resize_keys wk cod isz min_ver = (\<lambda>(io, fp).
     let isz = align8 isz
     in if isz = index_size io \<and> (\<not> min_ver \<or> int (n_lines io) \<ge> sync_id io) then Some (Inr (io, fp))
        else
          let T = look_ahead (n_lines io) (index_size io) isz;
              fp0 = (if isz > index_size io then seek_to HEADER_SIZE fp else fp)
          in case read_ahead cod 0 T [] (io, fp0) of
               Inl e \<Rightarrow> Some (Inl e)
             | Inr (tab, io1, fp1) \<Rightarrow>
                 (case resize_loop wk cod min_ver (n_lines io) 0 T tab io1 (resized_io io isz) fp1 of
                    None \<Rightarrow> None
                  | Some (Inl e) \<Rightarrow> Some (Inl e)
                  | Some (Inr (io2, fp2)) \<Rightarrow>
                      (let fp3 = fp2\<lparr>buf := take (idx fp2) (buf fp2)\<rparr>;
                           io3 = (if min_ver
                                  then io2\<lparr>sync_id := max 1 (int (n_lines io)), remv_id := remv_id io2 mod 2 + 1,
                                           swap_id := swap_id io2 mod 2 + 1\<rparr>
                                  else io2);
                           io4 = io3\<lparr>index_size := isz, p_lines := 0\<rparr>
                       in Some (map_sum id (\<lambda>(n, st). st) (write_header False (io4, fp3))))))"

section \<open>Writing a row\<close>

text \<open>\<open>key[:n]\<close>, where a negative \<open>n\<close> counts from the end.\<close>

definition py_prefix :: "int \<Rightarrow> 'a list \<Rightarrow> 'a list" where
  "py_prefix n xs = (if 0 \<le> n then take (nat n) xs else take (length xs - nat (- n)) xs)"

text \<open>The loop that shortens a key whose row cannot fit into any row; it may never end.\<close>

partial_function (option) shrink_key ::
  "(nat list \<Rightarrow> bytes res) \<Rightarrow> nat list list \<Rightarrow> int \<Rightarrow> nat list \<Rightarrow> (nat list \<times> bytes) res option" where
  "shrink_key encode keys n key =
     (let key = py_prefix n key
      in case encode key of
           Inl e \<Rightarrow> Some (Inl e)
         | Inr data \<Rightarrow>
             if length data + 1 \<le> MAX_INDEX_SIZE \<and> key \<notin> set keys \<or> key = []
             then Some (Inr (key, data)) else shrink_key encode keys 1 key)"

definition empty_row :: key_row where
  "empty_row = \<lparr>row_key = VStr [], file_id = VInt 0, offset = VInt 0, row_size = VInt 0, val_size = VInt 0,
     ver = VInt 0, cdays = PI 0, mdays = PI 0, ttl = PI 0, kflags = 0\<rparr>"

text \<open>
  \<open>write_key\<close>; the first argument bounds how deep it nests through \<open>resize_keys\<close>.  The
  result is the number of bytes written.
\<close>

fun write_key :: "nat \<Rightarrow> row_codec \<Rightarrow> row_writer" where
  "write_key 0 cod row w st = None"
| "write_key (Suc depth) cod row w (io, fp) =
     (let r = completed io w in
      case KEY_dumps cod r of
        Inl e \<Rightarrow> Some (Inl e)
      | Inr data \<Rightarrow>
          (case (if index_size io < length data + 1 \<and> MAX_INDEX_SIZE < length data + 1
                 then shrink_key (\<lambda>k. KEY_dumps cod (r\<lparr>row_key := VStr k\<rparr>)) (table_keys io)
                        (int (index_size io) - int (length data) - 1) (w_key w)
                 else Some (Inr (w_key w, data))) of
             None \<Rightarrow> None
           | Some (Inl e) \<Rightarrow> Some (Inl e)
           | Some (Inr (key, data)) \<Rightarrow>
               (let r = r\<lparr>row_key := VStr key\<rparr>
                in if index_size io < length data + 1 then
                     (case (if n_lines io \<le> row + 1 then
                              (case KEY_dumps cod empty_row of
                                 Inl e \<Rightarrow> Inl e
                               | Inr d \<Rightarrow> Inr (write_at (row_pos io row)
                                             (d @ replicate (index_size io - length d - 1) SPACE @ [NL]) fp))
                            else Inr fp) of
                        Inl e \<Rightarrow> Some (Inl e)
                      | Inr fp1 \<Rightarrow>
                          (case resize_keys (write_key depth cod) cod (length data + 1) False (io, fp1) of
                             None \<Rightarrow> None
                           | Some (Inl e) \<Rightarrow> Some (Inl e)
                           | Some (Inr st) \<Rightarrow>
                               Some (Inr (length (row_line (index_size (fst st)) data), put_row row r data st))))
                   else Some (Inr (length (row_line (index_size io) data), put_row row r data (io, fp))))))"

section \<open>The rows in the bytes\<close>

text \<open>What \<open>readinto\<close> a zeroed buffer sees of a row: the rest is zero, and nothing at the end.\<close>

definition fill :: "nat \<Rightarrow> bytes \<Rightarrow> bytes" where
  "fill n b = (if b = [] then [] else b @ replicate (n - length b) 0)"

definition line_at :: "nat \<Rightarrow> bytes \<Rightarrow> nat \<Rightarrow> bytes" where
  "line_at sz b row = take sz (drop (HEADER_SIZE + row * sz) b)"

definition row_of :: "row_codec \<Rightarrow> nat \<Rightarrow> bytes \<Rightarrow> nat \<Rightarrow> key_row res" where
  "row_of cod sz b row = KEY_loads cod (fill sz (line_at sz b row))"

lemma HEADER_SIZE_pos [simp]: "0 < HEADER_SIZE" by (simp add: HEADER_SIZE_def)

lemma length_row_line: "length data < sz \<Longrightarrow> length (row_line sz data) = sz"
  by (auto simp: row_line_def Let_def)

lemma row_line_neq_Nil [simp]: "row_line sz data \<noteq> []"
  by (simp add: row_line_def Let_def)

lemma row_line_pad: "length data < sz \<Longrightarrow> row_line sz data = data @ replicate (sz - length data - 1) SPACE @ [NL]"
  by (auto simp: row_line_def Let_def)

lemma write_at_inside:
  "p \<le> length (buf fp) \<Longrightarrow> b \<noteq> [] \<Longrightarrow>
   write_at p b fp = \<lparr>buf = take p (buf fp) @ b @ drop (p + length b) (buf fp), idx = p + length b\<rparr>"
  by (simp add: write_at_def seek_to_def stream_write_rewind)

text \<open>Rows do not overlap.\<close>

lemma row_after: "r < s \<Longrightarrow> r * sz + sz \<le> s * (sz::nat)"
  using mult_le_mono1 [of "Suc r" s sz] by simp

lemma line_at_write:
  assumes "length line = sz" "HEADER_SIZE + row * sz \<le> length b"
  shows "line_at sz (take (HEADER_SIZE + row * sz) b @ line @ drop (HEADER_SIZE + row * sz + sz) b) r =
    (if r = row then line else line_at sz b r)"
proof -
  let ?p = "HEADER_SIZE + row * sz" and ?q = "HEADER_SIZE + r * sz"
  consider "r = row" | "?q + sz \<le> ?p" "r \<noteq> row" | "?p + sz \<le> ?q" "r \<noteq> row"
    using row_after [of r row sz] row_after [of row r sz] by fastforce
  then show ?thesis
  proof cases
    case 1
    with assms show ?thesis by (simp add: line_at_def)
  next
    case 2
    have "take sz (drop ?q (take ?p b)) = take sz (drop ?q b)"
      using 2 by (simp add: drop_take min_def)
    moreover have "length (take ?p b) = ?p" using assms(2) by simp
    ultimately show ?thesis using 2
      by (simp add: line_at_def)
  next
    case 3
    then have "row * sz \<le> r * sz" by linarith
    then have "0 < sz \<longrightarrow> row \<le> r" by simp
    with 3 have "drop ?q (take ?p b @ line @ drop (?p + sz) b) = drop (?q - (?p + sz)) (drop (?p + sz) b)"
      using assms by simp
    also have "\<dots> = drop ?q b" using 3(1) by (metis drop_drop le_add_diff_inverse2)
    finally show ?thesis using 3 by (simp add: line_at_def)
  qed
qed

lemma put_row_bytes:
  assumes "length data < index_size io" "row_pos io row \<le> length (buf fp)" "put_row row r data (io, fp) = (io', fp')"
  shows "\<And>i. line_at (index_size io) (buf fp') i =
      (if i = row then row_line (index_size io) data else line_at (index_size io) (buf fp) i)"
    and "take HEADER_SIZE (buf fp') = take HEADER_SIZE (buf fp)"
    and "length (buf fp') = max (length (buf fp)) (row_pos io row + index_size io)"
    and "idx fp' = row_pos io row + index_size io"
    and "buf fp' = take (row_pos io row) (buf fp) @ row_line (index_size io) data
      @ drop (row_pos io row + index_size io) (buf fp)"
proof -
  let ?p = "row_pos io row" and ?l = "row_line (index_size io) data"
  have l: "length ?l = index_size io" by (rule length_row_line [OF assms(1)])
  have fp': "fp' = \<lparr>buf = take ?p (buf fp) @ ?l @ drop (?p + index_size io) (buf fp), idx = ?p + index_size io\<rparr>"
    using assms(2,3) write_at_inside [OF assms(2), of ?l] l by (auto simp: put_row_def Let_def)
  show "\<And>i. line_at (index_size io) (buf fp') i =
      (if i = row then ?l else line_at (index_size io) (buf fp) i)"
    using line_at_write [OF l, of row "buf fp"] assms(2) by (simp add: fp' row_pos_def)
  show "take HEADER_SIZE (buf fp') = take HEADER_SIZE (buf fp)"
    using assms(2) by (simp add: fp' row_pos_def)
  show "length (buf fp') = max (length (buf fp)) (?p + index_size io)"
    using assms(2) l by (simp add: fp' max_def)
  show "idx fp' = ?p + index_size io" by (simp add: fp')
  show "buf fp' = take ?p (buf fp) @ ?l @ drop (?p + index_size io) (buf fp)" by (simp add: fp')
qed

lemma readinto_zeros:
  fixes s :: jbytesio and k :: nat
  defines "t \<equiv> take k (drop (idx s) (buf s))"
  shows "stream_readinto (replicate k 0) s =
    (length t, t @ replicate (k - length t) 0, s\<lparr>idx := idx s + length t\<rparr>)"
proof (cases "length (buf s) \<le> idx s \<or> k = 0")
  case True
  then show ?thesis by (auto simp: stream_readinto_def t_def Let_def)
next
  case False
  then have n: "nat (int (length (buf s)) - int (idx s)) = length (buf s) - idx s" by simp
  have l: "length t = min k (length (buf s) - idx s)" by (simp add: t_def min.commute)
  have "take (min k (length (buf s) - idx s)) (drop (idx s) (buf s)) = t"
    by (simp add: t_def take_all_iff min_def)
  with False n l show ?thesis
    by (simp add: stream_readinto_def Let_def drop_replicate)
qed

text \<open>What \<open>readinto\<close> at a row returns.\<close>

lemma readinto_row:
  assumes "stream_readinto (replicate (index_size io) 0) (seek_to (row_pos io row) fp) = (n, b, fp')"
  shows "(if n > 0 then b else []) = fill (index_size io) (line_at (index_size io) (buf fp) row)"
    and "buf fp' = buf fp"
    and "b = line_at (index_size io) (buf fp) row
      @ replicate (index_size io - length (line_at (index_size io) (buf fp) row)) 0"
  using assms by (auto simp: readinto_zeros seek_to_def row_pos_def fill_def line_at_def)

text \<open>Reading a row: from the cache, or from the file.\<close>

lemma read_key_eq:
  assumes "read_key cod row (io, fp) = (Inr r, io', fp')"
  shows "buf fp' = buf fp"
    and "map_of (KEY_rows io) row = Some r \<or>
      map_of (KEY_rows io) row = None \<and> row_of cod (index_size io) (buf fp) row = Inr r"
    and "io' = io\<lparr>KEY_rows := KEY_rows io', DEAD_rows := DEAD_rows io'\<rparr>"
proof -
  obtain n b fp1 where st: "stream_readinto (replicate (index_size io) 0) (seek_to (row_pos io row) fp) = (n, b, fp1)"
    by (cases "stream_readinto (replicate (index_size io) 0) (seek_to (row_pos io row) fp)")
  note rd = readinto_row [OF st]
  show "buf fp' = buf fp"
    using assms st rd(2) by (auto simp: read_key_def Let_def split: option.splits sum.splits)
  show "map_of (KEY_rows io) row = Some r \<or>
      map_of (KEY_rows io) row = None \<and> row_of cod (index_size io) (buf fp) row = Inr r"
    using assms st rd(1) by (auto simp: read_key_def row_of_def Let_def split: option.splits sum.splits)
  show "io' = io\<lparr>KEY_rows := KEY_rows io', DEAD_rows := DEAD_rows io'\<rparr>"
    using assms st by (auto simp: read_key_def note_key_def note_dead_def Let_def
        split: option.splits sum.splits if_splits)
qed

section \<open>The contract of the row codec\<close>

locale row_format =
  fixes cod :: row_codec and okr :: "key_row \<Rightarrow> bool" and view :: "key_row \<Rightarrow> key_row"
  assumes loads_dumps: "okr r \<Longrightarrow> KEY_dumps cod r = Inr b \<Longrightarrow>
      KEY_loads cod (b @ replicate n SPACE @ [NL]) = Inr (view r)"
    and view_place: "file_id (view r) = file_id r \<and> offset (view r) = offset r \<and> row_size (view r) = row_size r"

definition msg_rows :: row_codec where
  "msg_rows = \<lparr>KEY_dumps = JIoKEY_S_dumps_v2, KEY_loads = JIoKEY_S_loads_v2\<rparr>"

definition storable :: "key_row \<Rightarrow> bool" where
  "storable r \<longleftrightarrow> day_ok r \<and> row_in_range r"

interpretation msg_rows: row_format msg_rows storable viewed
proof
  fix r b n
  assume "storable r" "KEY_dumps msg_rows r = Inr b"
  then show "KEY_loads msg_rows (b @ replicate n SPACE @ [NL]) = Inr (viewed r)"
    using S_rows_v2 [of r] by (auto simp: storable_def msg_rows_def)
next
  show "file_id (viewed r) = file_id r \<and> offset (viewed r) = offset r \<and> row_size (viewed r) = row_size r" for r
    by (simp add: viewed_def split: prod.split)
qed

section \<open>One row written, all others kept\<close>

lemma completed_key [simp]: "row_key (completed io w) = VStr (w_key w)"
  by (simp add: completed_def write_key_row_def Let_def)

text \<open>A row that fits is written without moving anything.\<close>

lemma write_key_fits:
  assumes "KEY_dumps cod (completed io w) = Inr data" "length data < index_size io"
  shows "write_key (Suc depth) cod row w (io, fp) =
    Some (Inr (index_size io, put_row row (completed io w) data (io, fp)))"
proof -
  have e: "completed io w\<lparr>row_key := VStr (w_key w)\<rparr> = completed io w"
    by (rule key_row.equality) simp_all
  show ?thesis using assms by (simp add: length_row_line Let_def e)
qed

text \<open>The cached rows are the rows of the file, up to the rounding of their days.\<close>

definition coherent :: "row_codec \<Rightarrow> (key_row \<Rightarrow> bool) \<Rightarrow> (key_row \<Rightarrow> key_row) \<Rightarrow> jio \<times> jbytesio \<Rightarrow> bool" where
  "coherent cod okr view = (\<lambda>(io, fp).
     (\<forall>(r, x) \<in> set (KEY_rows io).
        \<exists>y. row_of cod (index_size io) (buf fp) r = Inr y \<and> (x = y \<or> okr x \<and> view x = y)) \<and>
     (\<forall>(r, f, p, sz) \<in> set (DEAD_rows io).
        \<exists>y. row_of cod (index_size io) (buf fp) r = Inr y \<and> file_id y = f \<and> offset y = p \<and> row_size y = sz))"

lemma set_last_n: "set (last_n n xs) \<subseteq> set xs"
  by (simp add: last_n_def set_drop_subset)

lemma last_n_snoc: "x \<in> set (last_n n (xs @ [y])) \<Longrightarrow> x = y \<or> x \<in> set xs"
  using set_last_n [of n "xs @ [y]"] by auto

context row_format begin

lemma row_of_put:
  assumes "KEY_dumps cod r = Inr data" "length data < index_size io" "okr r"
    and "row_pos io row \<le> length (buf fp)" "put_row row r data (io, fp) = (io', fp')"
  shows "row_of cod (index_size io) (buf fp') i =
    (if i = row then Inr (view r) else row_of cod (index_size io) (buf fp) i)"
proof -
  have "fill (index_size io) (row_line (index_size io) data) = row_line (index_size io) data"
    using assms(2) by (simp add: fill_def length_row_line)
  then show ?thesis
    using put_row_bytes(1) [OF assms(2,4,5), of i] loads_dumps [OF assms(3,1)] row_line_pad [OF assms(2)]
    by (simp add: row_of_def)
qed

lemma put_row_coherent:
  assumes "coherent cod okr view (io, fp)"
    and "KEY_dumps cod r = Inr data" "length data < index_size io" "okr r"
    and "row_pos io row \<le> length (buf fp)" "put_row row r data (io, fp) = (io', fp')"
  shows "coherent cod okr view (io', fp')"
proof -
  note ro = row_of_put [OF assms(2-6)]
  have isz: "index_size io' = index_size io"
    using assms(6) by (auto simp: put_row_def note_key_def note_dead_def forget_def Let_def split: if_splits)
  have k: "(i, x) \<in> set (KEY_rows io') \<Longrightarrow> (i, x) = (row, r) \<or> (i, x) \<in> set (KEY_rows io) \<and> i \<noteq> row" for i x
    using assms(6) by (auto simp: put_row_def note_key_def note_dead_def forget_def assoc_del_def Let_def
        dest!: last_n_snoc split: if_splits)
  have d: "(i, x) \<in> set (DEAD_rows io') \<Longrightarrow>
      (i, x) = (row, file_id r, offset r, row_size r) \<or> (i, x) \<in> set (DEAD_rows io) \<and> i \<noteq> row" for i x
    using assms(6) by (auto simp: put_row_def note_key_def note_dead_def forget_def assoc_del_def Let_def
        dest!: last_n_snoc split: if_splits)
  show ?thesis unfolding coherent_def prod.case isz
  proof (intro conjI ballI; clarify)
    fix i x assume "(i, x) \<in> set (KEY_rows io')"
    then show "\<exists>y. row_of cod (index_size io) (buf fp') i = Inr y \<and> (x = y \<or> okr x \<and> view x = y)"
      using k [of i x] ro [of i] assms(1,4) by (fastforce simp: coherent_def)
  next
    fix i f p sz assume "(i, f, p, sz) \<in> set (DEAD_rows io')"
    then show "\<exists>y. row_of cod (index_size io) (buf fp') i = Inr y \<and> file_id y = f \<and> offset y = p \<and> row_size y = sz"
      using d [of i "(f, p, sz)"] ro [of i] assms(1) view_place by (fastforce simp: coherent_def)
  qed
qed

lemma read_key_coherent:
  assumes "coherent cod okr view (io, fp)" "read_key cod row (io, fp) = (Inr r, io', fp')"
  shows "coherent cod okr view (io', fp')"
    and "\<exists>y. row_of cod (index_size io) (buf fp) row = Inr y \<and> (r = y \<or> okr r \<and> view r = y)"
proof -
  note e = read_key_eq [OF assms(2)]
  show v: "\<exists>y. row_of cod (index_size io) (buf fp) row = Inr y \<and> (r = y \<or> okr r \<and> view r = y)"
    using e(2) assms(1) by (auto simp: coherent_def dest!: map_of_SomeD)
  have isz: "index_size io' = index_size io" using arg_cong [OF e(3), of index_size] by simp
  have k: "(i, x) \<in> set (KEY_rows io') \<Longrightarrow> (i, x) = (row, r) \<or> (i, x) \<in> set (KEY_rows io)" for i x
    using assms(2) by (auto simp: read_key_def note_key_def note_dead_def assoc_del_def Let_def
        dest!: last_n_snoc split: if_splits option.splits sum.splits prod.splits)
  have d: "(i, x) \<in> set (DEAD_rows io') \<Longrightarrow> (i, x) \<in> set (DEAD_rows io) \<or>
      (i, x) = (row, file_id r, offset r, row_size r) \<and> map_of (KEY_rows io) row = None" for i x
    using assms(2) by (auto simp: read_key_def note_key_def note_dead_def assoc_del_def Let_def
        dest!: last_n_snoc split: if_splits option.splits sum.splits prod.splits)
  show "coherent cod okr view (io', fp')" unfolding coherent_def prod.case isz e(1)
  proof (intro conjI ballI; clarify)
    fix i x assume "(i, x) \<in> set (KEY_rows io')"
    then show "\<exists>y. row_of cod (index_size io) (buf fp) i = Inr y \<and> (x = y \<or> okr x \<and> view x = y)"
      using k [of i x] v assms(1) by (fastforce simp: coherent_def)
  next
    fix i f p sz assume "(i, f, p, sz) \<in> set (DEAD_rows io')"
    then show "\<exists>y. row_of cod (index_size io) (buf fp) i = Inr y \<and> file_id y = f \<and> offset y = p \<and> row_size y = sz"
      using d [of i "(f, p, sz)"] e(2) assms(1) by (fastforce simp: coherent_def)
  qed
qed

end

section \<open>Resizing keeps every row\<close>

definition same_engine :: "jio \<Rightarrow> jio \<Rightarrow> bool" where
  "same_engine io io' \<longleftrightarrow> io' = io\<lparr>KEY_rows := KEY_rows io', DEAD_rows := DEAD_rows io'\<rparr>"

lemma same_engineD:
  assumes "same_engine io io'"
  shows "index_size io' = index_size io" "n_lines io' = n_lines io" "n_records io' = n_records io"
    "today io' = today io" "now_num io' = now_num io" "sync_id io' = sync_id io"
proof -
  obtain k d where "io' = io\<lparr>KEY_rows := k, DEAD_rows := d\<rparr>" using assms unfolding same_engine_def by blast
  then show "index_size io' = index_size io" "n_lines io' = n_lines io" "n_records io' = n_records io"
    "today io' = today io" "now_num io' = now_num io" "sync_id io' = sync_id io" by simp_all
qed

lemma same_engineI: "io' = io\<lparr>KEY_rows := k, DEAD_rows := d\<rparr> \<Longrightarrow> same_engine io io'"
  by (simp add: same_engine_def)

lemma same_engine_refl [simp]: "same_engine io io"
  by (simp add: same_engine_def)

lemma same_engine_iff: "same_engine a b \<longleftrightarrow> (\<exists>k d. b = a\<lparr>KEY_rows := k, DEAD_rows := d\<rparr>)"
proof
  assume "same_engine a b"
  then show "\<exists>k d. b = a\<lparr>KEY_rows := k, DEAD_rows := d\<rparr>" unfolding same_engine_def by blast
qed (auto intro: same_engineI)

lemma same_engine_trans: "same_engine a b \<Longrightarrow> same_engine b c \<Longrightarrow> same_engine a c"
proof -
  assume "same_engine a b" "same_engine b c"
  then obtain k d k' d' where "b = a\<lparr>KEY_rows := k, DEAD_rows := d\<rparr>" "c = b\<lparr>KEY_rows := k', DEAD_rows := d'\<rparr>"
    by (auto simp: same_engine_iff)
  then have "c = a\<lparr>KEY_rows := k', DEAD_rows := d'\<rparr>" by simp
  then show "same_engine a c" by (rule same_engineI)
qed

lemma put_row_same: "put_row row r data (io, fp) = (io', fp') \<Longrightarrow> same_engine io io'"
  by (auto simp: put_row_def note_key_def note_dead_def forget_def Let_def same_engine_def split: if_splits)

lemma completed_same: "same_engine io io' \<Longrightarrow> completed io' w = completed io w"
  by (simp add: completed_def same_engineD)

text \<open>Reading one row whose cache entry, if any, agrees with the file.\<close>

lemma read_key_ok:
  assumes "row_of cod (index_size io) (buf fp) row = Inr y"
    and "\<And>x. (row, x) \<in> set (KEY_rows io) \<Longrightarrow> x = y"
  shows "\<exists>io' fp'. read_key cod row (io, fp) = (Inr y, io', fp') \<and> buf fp' = buf fp \<and> same_engine io io' \<and>
    set (KEY_rows io') \<subseteq> insert (row, y) (set (KEY_rows io))"
proof -
  obtain n b fp1 where st: "stream_readinto (replicate (index_size io) 0) (seek_to (row_pos io row) fp) = (n, b, fp1)"
    by (cases "stream_readinto (replicate (index_size io) 0) (seek_to (row_pos io row) fp)")
  note rd = readinto_row [OF st]
  have sub: "set (assoc_del row (KEY_rows io)) \<subseteq> set (KEY_rows io)" by (auto simp: assoc_del_def)
  show ?thesis
  proof (cases "map_of (KEY_rows io) row")
    case None
    have "KEY_loads cod (if n > 0 then b else []) = Inr y" using assms(1) rd(1) by (simp add: row_of_def)
    then show ?thesis
      using None st rd(2) sub set_last_n [of TOTAL_KEY_ROWS "assoc_del row (KEY_rows io) @ [(row, y)]"]
      by (auto simp: read_key_def note_key_def note_dead_def same_engine_def Let_def)
  next
    case (Some x)
    then have "x = y" by (intro assms(2) map_of_SomeD)
    with Some sub show ?thesis by (auto simp: read_key_def same_engine_def Let_def)
  qed
qed

text \<open>The rows \<open>Y\<close> of a file from row \<open>s\<close> on, and a cache that agrees with them.\<close>

definition rows_from :: "row_codec \<Rightarrow> (nat \<Rightarrow> key_row) \<Rightarrow> nat \<Rightarrow> jio \<Rightarrow> bytes \<Rightarrow> bool" where
  "rows_from cod Y s io b \<longleftrightarrow>
     (\<forall>r. s \<le> r \<and> r < n_lines io \<longrightarrow> row_of cod (index_size io) b r = Inr (Y r)) \<and>
     (\<forall>(r, x) \<in> set (KEY_rows io). r < n_lines io \<longrightarrow> x = Y r)"

lemma rows_from_read:
  assumes "rows_from cod Y s io (buf fp)" "s < n_lines io"
  shows "\<exists>io' fp'. read_key cod s (io, fp) = (Inr (Y s), io', fp') \<and> buf fp' = buf fp \<and>
    same_engine io io' \<and> rows_from cod Y (Suc s) io' (buf fp')"
proof -
  obtain io' fp' where r: "read_key cod s (io, fp) = (Inr (Y s), io', fp')" "buf fp' = buf fp"
      "same_engine io io'" "set (KEY_rows io') \<subseteq> insert (s, Y s) (set (KEY_rows io))"
    using read_key_ok [of cod io fp s "Y s"] assms by (fastforce simp: rows_from_def)
  have "rows_from cod Y (Suc s) io' (buf fp')"
    using assms(1) r(2,4) same_engineD [OF r(3)] by (fastforce simp: rows_from_def)
  with r show ?thesis by blast
qed

lemma read_ahead_ok:
  assumes "rows_from cod Y s io (buf fp)" "s + k \<le> n_lines io"
    and "\<forall>r. d \<le> r \<and> r < s \<longrightarrow> map_of tab r = Some (Y r)" "d \<le> s"
  shows "\<exists>tab' io' fp'. read_ahead cod s k tab (io, fp) = Inr (tab', io', fp') \<and> buf fp' = buf fp \<and>
    same_engine io io' \<and> rows_from cod Y (s + k) io' (buf fp') \<and>
    (\<forall>r. d \<le> r \<and> r < s + k \<longrightarrow> map_of tab' r = Some (Y r))"
  using assms
proof (induction k arbitrary: s tab io fp)
  case 0
  then show ?case by simp
next
  case (Suc k)
  then obtain io1 fp1 where r: "read_key cod s (io, fp) = (Inr (Y s), io1, fp1)" "buf fp1 = buf fp"
      "same_engine io io1" "rows_from cod Y (Suc s) io1 (buf fp1)"
    using rows_from_read [of cod Y s io fp] by auto
  have "\<forall>i. d \<le> i \<and> i < Suc s \<longrightarrow> map_of (assoc_set s (Y s) tab) i = Some (Y i)"
    using Suc.prems(3) by (auto simp: less_Suc_eq)
  then obtain tab' io' fp' where "read_ahead cod (Suc s) k (assoc_set s (Y s) tab) (io1, fp1) = Inr (tab', io', fp')"
      "buf fp' = buf fp1" "same_engine io1 io'" "rows_from cod Y (Suc s + k) io' (buf fp')"
      "\<forall>i. d \<le> i \<and> i < Suc s + k \<longrightarrow> map_of tab' i = Some (Y i)"
    using Suc.IH [of "Suc s" io1 fp1 "assoc_set s (Y s) tab"] r(4) Suc.prems same_engineD [OF r(3)]
    by (auto simp: r(2))
  with r show ?case by (auto intro: same_engine_trans)
qed

text \<open>A row that comes back unchanged when it is written again, in rows of \<open>isz\<close> bytes.\<close>

definition resizable :: "row_codec \<Rightarrow> (key_row \<Rightarrow> bool) \<Rightarrow> (key_row \<Rightarrow> key_row) \<Rightarrow> jio \<Rightarrow> nat \<Rightarrow> key_row \<Rightarrow> bool" where
  "resizable cod okr view io isz y \<longleftrightarrow>
     (\<exists>w d. row_args y = Inr w \<and> completed io w = y \<and> KEY_dumps cod y = Inr d \<and> length d < isz) \<and>
     okr y \<and> view y = y"

lemma line_at_beyond:
  assumes "p + length l \<le> HEADER_SIZE + r * sz" "p \<le> length b"
  shows "line_at sz (take p b @ l @ drop (p + length l) b) r = line_at sz b r"
proof -
  let ?q = "HEADER_SIZE + r * sz"
  have "drop ?q (take p b @ l @ drop (p + length l) b) = drop (?q - (p + length l)) (drop (p + length l) b)"
    using assms by simp
  also have "\<dots> = drop ?q b" using assms(1) by (metis drop_drop le_add_diff_inverse2)
  finally show ?thesis by (simp add: line_at_def)
qed

context row_format begin

lemma resize_loop_ok:
  assumes "\<forall>r < n_lines io. resizable cod okr view dst_io (index_size dst_io) (Y r)"
    and "d + k = n_lines io" "s = min (n_lines io) (T + d)"
    and "T = n_lines io \<or> n_lines io * (index_size dst_io - index_size io) \<le> T * index_size io"
    and "rows_from cod Y s io (buf fp)"
    and "\<forall>r. d \<le> r \<and> r < s \<longrightarrow> map_of tab r = Some (Y r)"
    and "\<forall>r < d. row_of cod (index_size dst_io) (buf fp) r = Inr (Y r)"
    and "HEADER_SIZE + d * index_size dst_io \<le> length (buf fp)"
    and "0 < d \<longrightarrow> idx fp = HEADER_SIZE + d * index_size dst_io"
  shows "\<exists>io' fp'. resize_loop (write_key (Suc depth) cod) cod False k d s tab io dst_io fp = Some (Inr (io', fp')) \<and>
    same_engine io io' \<and> take HEADER_SIZE (buf fp') = take HEADER_SIZE (buf fp) \<and>
    (\<forall>r < n_lines io. row_of cod (index_size dst_io) (buf fp') r = Inr (Y r)) \<and>
    (\<forall>(r, x) \<in> set (KEY_rows io'). r < n_lines io \<longrightarrow> x = Y r) \<and>
    HEADER_SIZE + n_lines io * index_size dst_io \<le> length (buf fp') \<and>
    (0 < n_lines io \<longrightarrow> idx fp' = HEADER_SIZE + n_lines io * index_size dst_io)"
  using assms
proof (induction k arbitrary: d s tab io dst_io fp)
  case 0
  then show ?case by (simp add: rows_from_def)
next
  case (Suc k)
  let ?n = "n_lines io" and ?S = "index_size io" and ?S' = "index_size dst_io"
  have dn: "d < ?n" using Suc.prems(2) by simp
  define s' where "s' = min ?n (T + Suc d)"
  have "\<exists>tab1 io1 fp1. (if s < ?n then
              (case read_key cod s (io, fp) of
                 (Inl e, st) \<Rightarrow> Inl e
               | (Inr r, io1, fp1) \<Rightarrow> Inr (Suc s, assoc_set s r tab, io1, fp1))
            else Inr (s, tab, io, fp)) = Inr (s', tab1, io1, fp1) \<and> buf fp1 = buf fp \<and> same_engine io io1 \<and>
      rows_from cod Y s' io1 (buf fp1) \<and> (\<forall>r. d \<le> r \<and> r < s' \<longrightarrow> map_of tab1 r = Some (Y r))"
  proof (cases "s < ?n")
    case True
    then have s': "s' = Suc s" using Suc.prems(3) by (simp add: s'_def)
    from rows_from_read [OF Suc.prems(5) True] obtain io1 fp1 where
      "read_key cod s (io, fp) = (Inr (Y s), io1, fp1)" "buf fp1 = buf fp" "same_engine io io1"
      "rows_from cod Y (Suc s) io1 (buf fp1)" by blast
    with True s' Suc.prems(6) show ?thesis by (auto simp: less_Suc_eq)
  next
    case False
    then have "s' = s" using Suc.prems(3) by (simp add: s'_def)
    with False Suc.prems(5,6) show ?thesis by auto
  qed
  then obtain tab1 io1 fp1 where rd: "(if s < ?n then
              (case read_key cod s (io, fp) of
                 (Inl e, st) \<Rightarrow> Inl e
               | (Inr r, io1, fp1) \<Rightarrow> Inr (Suc s, assoc_set s r tab, io1, fp1))
            else Inr (s, tab, io, fp)) = Inr (s', tab1, io1, fp1)"
      "buf fp1 = buf fp" "same_engine io io1" "rows_from cod Y s' io1 (buf fp1)"
      "\<forall>r. d \<le> r \<and> r < s' \<longrightarrow> map_of tab1 r = Some (Y r)" by blast
  have ds: "d < s'" using dn by (simp add: s'_def)
  obtain w data where w: "row_args (Y d) = Inr w" "completed dst_io w = Y d" "KEY_dumps cod (Y d) = Inr data"
      "length data < ?S'" "okr (Y d)" "view (Y d) = Y d"
    using Suc.prems(1) dn by (auto simp: resizable_def)
  obtain dst1 fp2 where put: "put_row d (Y d) data (dst_io, fp1) = (dst1, fp2)"
    by (cases "put_row d (Y d) data (dst_io, fp1)")
  have pos: "row_pos dst_io d \<le> length (buf fp1)" using Suc.prems(8) rd(2) by (simp add: row_pos_def)
  note pb = put_row_bytes [OF w(4) pos put]
  note dst1 = same_engineD [OF put_row_same [OF put]]
  have wk: "write_key (Suc depth) cod d w (dst_io, fp1) = Some (Inr (?S', dst1, fp2))"
    using write_key_fits [of cod dst_io w data] w put by simp
  note io1 = same_engineD [OF rd(3)]
  have free: "HEADER_SIZE + d * ?S' + ?S' \<le> HEADER_SIZE + r * ?S" if "s' \<le> r" "r < ?n" for r
  proof -
    have s'': "s' = T + Suc d" using that by (simp add: s'_def)
    have "Suc d * (?S' - ?S) \<le> ?n * (?S' - ?S)" using dn by (intro mult_le_mono1) simp
    also have "\<dots> \<le> T * ?S" using Suc.prems(4) s'' that by auto
    finally have "Suc d * ?S' \<le> Suc d * ?S + T * ?S" by (simp add: diff_mult_distrib2 algebra_simps)
    also have "\<dots> = s' * ?S" by (simp add: s'' algebra_simps)
    also have "\<dots> \<le> r * ?S" using that by (intro mult_le_mono1)
    finally show ?thesis by simp
  qed
  have keep: "row_of cod ?S (buf fp2) r = row_of cod ?S (buf fp1) r" if "s' \<le> r" "r < ?n" for r
    using line_at_beyond [of "row_pos dst_io d" "row_line ?S' data" r ?S "buf fp1"] free [OF that] pos
    by (simp add: row_of_def pb(5) length_row_line [OF w(4)] row_pos_def)
  have rows2: "rows_from cod Y s' io1 (buf fp2)"
    using rd(4) keep io1 by (auto simp: rows_from_def)
  have new: "\<forall>r < Suc d. row_of cod ?S' (buf fp2) r = Inr (Y r)"
    using row_of_put [OF w(3,4,5) pos put] w(6) Suc.prems(7) rd(2) by (auto simp: less_Suc_eq)
  have "\<exists>io' fp'. resize_loop (write_key (Suc depth) cod) cod False k (Suc d) s' (assoc_del d tab1) io1 dst1 fp2
      = Some (Inr (io', fp')) \<and>
    same_engine io1 io' \<and> take HEADER_SIZE (buf fp') = take HEADER_SIZE (buf fp2) \<and>
    (\<forall>r < n_lines io1. row_of cod (index_size dst1) (buf fp') r = Inr (Y r)) \<and>
    (\<forall>(r, x) \<in> set (KEY_rows io'). r < n_lines io1 \<longrightarrow> x = Y r) \<and>
    HEADER_SIZE + n_lines io1 * index_size dst1 \<le> length (buf fp') \<and>
    (0 < n_lines io1 \<longrightarrow> idx fp' = HEADER_SIZE + n_lines io1 * index_size dst1)"
  proof (rule Suc.IH)
    show "\<forall>r < n_lines io1. resizable cod okr view dst1 (index_size dst1) (Y r)"
      using Suc.prems(1) io1 dst1(1) completed_same [OF put_row_same [OF put]] by (simp add: resizable_def)
    show "Suc d + k = n_lines io1" using Suc.prems(2) io1 by simp
    show "s' = min (n_lines io1) (T + Suc d)" using io1 by (simp add: s'_def)
    show "T = n_lines io1 \<or> n_lines io1 * (index_size dst1 - index_size io1) \<le> T * index_size io1"
      using Suc.prems(4) io1 dst1(1) by simp
    show "rows_from cod Y s' io1 (buf fp2)" by (rule rows2)
    show "\<forall>r. Suc d \<le> r \<and> r < s' \<longrightarrow> map_of (assoc_del d tab1) r = Some (Y r)" using rd(5) by auto
    show "\<forall>r < Suc d. row_of cod (index_size dst1) (buf fp2) r = Inr (Y r)" using new dst1(1) by simp
    show "HEADER_SIZE + Suc d * index_size dst1 \<le> length (buf fp2)" using pb(3) dst1(1) by (simp add: row_pos_def)
    show "0 < Suc d \<longrightarrow> idx fp2 = HEADER_SIZE + Suc d * index_size dst1" using pb(4) dst1(1) by (simp add: row_pos_def)
  qed
  moreover have "resize_loop (write_key (Suc depth) cod) cod False (Suc k) d s tab io dst_io fp =
      resize_loop (write_key (Suc depth) cod) cod False k (Suc d) s' (assoc_del d tab1) io1 dst1 fp2"
    using rd(1,5) ds w(1) wk by (simp del: write_key.simps row_args.simps)
  ultimately show ?case
    using same_engine_trans [OF rd(3)] io1 dst1(1) pb(2) rd(2) by auto
qed

end

lemma look_ahead_enough:
  assumes "0 < old"
  shows "look_ahead n old new = n \<or> n * (new - old) \<le> look_ahead n old new * old"
proof (cases "new > old")
  case True
  let ?q = "n * (new - old) div old"
  have "n * (new - old) \<le> ?q * old + 8 * old"
    using div_mult_mod_eq [of "n * (new - old)" old] mod_less_divisor [OF assms, of "n * (new - old)"] by linarith
  with True show ?thesis by (auto simp: look_ahead_def min_def add_mult_distrib)
qed simp

lemma look_ahead_le: "look_ahead n old new \<le> n"
  by (simp add: look_ahead_def)

text \<open>Rewriting the header touches no complete row.\<close>

lemma row_of_tail:
  assumes "drop HEADER_SIZE b' = drop HEADER_SIZE b @ x" "HEADER_SIZE + r * sz + sz \<le> length b"
  shows "row_of cod sz b' r = row_of cod sz b r"
proof -
  have d: "drop (HEADER_SIZE + i) c = drop i (drop HEADER_SIZE c)" for i and c :: bytes by (simp add: add.commute)
  have l: "r * sz + sz \<le> length (drop HEADER_SIZE b)" using assms(2) by simp
  have t: "take sz (drop (r * sz) (D @ x)) = take sz (drop (r * sz) D)" if "r * sz + sz \<le> length D" for D
    using that by simp
  show ?thesis unfolding row_of_def line_at_def d assms(1) t [OF l] ..
qed

text \<open>The header fits as long as the counters are machine-sized.\<close>

lemma length_dec_nat: "n < 10 ^ k \<Longrightarrow> 0 < k \<Longrightarrow> length (dec_nat n) \<le> k"
proof (induction n arbitrary: k rule: dec_nat.induct)
  case (1 n)
  show ?case
  proof (cases "n < 10")
    case True
    then show ?thesis using 1(3) by (simp add: dec_nat.simps [of n])
  next
    case False
    then obtain j where k: "k = Suc j" "0 < j" using 1(2,3) by (cases k; cases "k - 1") auto
    have "n div 10 < 10 ^ j" using 1(2) k(1) by (simp add: less_mult_imp_div_less mult.commute)
    then have "length (dec_nat (n div 10)) \<le> j" by (rule 1(1) [OF False _ k(2)])
    then show ?thesis using False k(1) by (simp add: dec_nat.simps [of n])
  qed
qed

lemma length_dec_int:
  "0 \<le> i \<Longrightarrow> i < 10 ^ k \<Longrightarrow> 0 < k \<Longrightarrow> length (dec_int i) \<le> k"
  "\<bar>i\<bar> < 10 ^ k \<Longrightarrow> 0 < k \<Longrightarrow> length (dec_int i) \<le> k + 1"
proof -
  have n: "nat i < 10 ^ k" if "0 \<le> i" "i < 10 ^ k" for i :: int
    using that by (simp add: nat_less_iff)
  show "0 \<le> i \<Longrightarrow> i < 10 ^ k \<Longrightarrow> 0 < k \<Longrightarrow> length (dec_int i) \<le> k"
    using length_dec_nat [OF n] by (simp add: dec_int_def)
  show "\<bar>i\<bar> < 10 ^ k \<Longrightarrow> 0 < k \<Longrightarrow> length (dec_int i) \<le> k + 1"
    using length_dec_nat [OF n, of i] length_dec_nat [OF n, of "- i"]
    by (cases "i < 0") (simp_all add: dec_int_def)
qed

definition counters_ok :: "jio \<Rightarrow> bool" where
  "counters_ok io \<longleftrightarrow> 0 \<le> sync_id io \<and> sync_id io < 2 ^ 63 \<and> int (n_records io) < 2 ^ 63 \<and> int (n_lines io) < 2 ^ 63 \<and>
     \<bar>swap_id io\<bar> < 2 ^ 63 \<and> \<bar>remv_id io\<bar> < 2 ^ 63 \<and> 0 \<le> zip_type io \<and> zip_type io < 100 \<and>
     0 \<le> data_type io \<and> data_type io < 100 \<and> 0 \<le> api_ver io \<and> api_ver io < 100 \<and>
     -1 \<le> max_vfiles io \<and> max_vfiles io \<le> 0x8000 \<and> (\<forall>f \<in> set (vfile_ids io). 0 \<le> f \<and> f < 0x8000)"

lemma header_fits:
  assumes "counters_ok io" "n < 10 ^ 5"
  shows "length (header_data (io\<lparr>index_size := n\<rparr>)) < HEADER_SIZE"
proof -
  let ?io = "io\<lparr>index_size := n\<rparr>"
  have v: "\<bar>max_vfiles (count_vfiles ?io)\<bar> < 10 ^ 5"
  proof (cases "vfile_ids io = []")
    case True
    moreover have "-1 \<le> max_vfiles io" "max_vfiles io \<le> 0x8000" using assms(1) by (simp_all add: counters_ok_def)
    ultimately show ?thesis by (simp add: count_vfiles_def)
  next
    case False
    then have "Max (set (vfile_ids io)) \<in> set (vfile_ids io)" by simp
    then have "0 \<le> Max (set (vfile_ids io)) \<and> Max (set (vfile_ids io)) < 0x8000"
      using assms(1) unfolding counters_ok_def by blast
    then have "\<bar>x + 1\<bar> < 10 ^ 5" if "x = Max (set (vfile_ids io))" for x using that by simp
    then show ?thesis using False by (simp add: count_vfiles_def del: Max_less_iff Max_ge_iff)
  qed
  have l: "length (dec_int (sync_id io)) \<le> 19" "length (dec_int (int (n_records io))) \<le> 19"
    "length (dec_int (int (n_lines io))) \<le> 19" "length (dec_int (int n)) \<le> 5"
    "length (dec_int (zip_type io)) \<le> 2" "length (dec_int (data_type io)) \<le> 2" "length (dec_int (api_ver io)) \<le> 2"
    using assms by (auto simp: counters_ok_def intro!: length_dec_int(1))
  have s: "length (dec_int (swap_id io)) \<le> 20" "length (dec_int (remv_id io)) \<le> 20"
    using length_dec_int(2) [of "swap_id io" 19] length_dec_int(2) [of "remv_id io" 19] assms(1)
    by (auto simp: counters_ok_def)
  have f: "length (dec_int (max_vfiles (count_vfiles ?io))) \<le> 6"
    using length_dec_int(2) [OF v] by simp
  have "length (header_data ?io) = 11 + (length (dec_int (sync_id io)) + length (dec_int (int (n_records io))) +
      length (dec_int (int (n_lines io))) + length (dec_int (int n)) + length (dec_int (zip_type io)) +
      length (dec_int (data_type io)) + length (dec_int (swap_id io)) + length (dec_int (remv_id io)) +
      length (dec_int (api_ver io)) + length (dec_int (max_vfiles (count_vfiles ?io))))"
    by (simp add: header_data_def JIoHEAD_dumps_def)
  then show ?thesis using l s f by (simp add: HEADER_SIZE_def)
qed

lemma header_data_same:
  "same_engine io io' \<Longrightarrow> header_data (io'\<lparr>index_size := n, p_lines := m\<rparr>) = header_data (io\<lparr>index_size := n\<rparr>)"
proof -
  assume "same_engine io io'"
  then obtain k d where "io' = io\<lparr>KEY_rows := k, DEAD_rows := d\<rparr>" unfolding same_engine_def by blast
  then show ?thesis by (simp add: header_data_def count_vfiles_def)
qed

lemma write_header_ok:
  assumes "length (header_data io) < HEADER_SIZE" "HEADER_SIZE \<le> length (buf fp)"
  shows "\<exists>n io' fp' x. write_header False (io, fp) = Inr (n, io', fp') \<and>
    drop HEADER_SIZE (buf fp') = drop HEADER_SIZE (buf fp) @ x \<and> HEADER_SIZE \<le> length (buf fp') \<and>
    index_size io' = index_size io \<and> n_lines io' = n_lines io \<and> n_records io' = n_records io \<and>
    KEY_rows io' = KEY_rows io"
proof -
  define data where "data = header_data io"
  define h where "h = data @ replicate (HEADER_SIZE - length data - 1) SPACE @ [NL]"
  have l: "length data < HEADER_SIZE" using assms(1) by (simp add: data_def)
  then have lh: "length h = HEADER_SIZE" "h \<noteq> []" by (simp_all add: h_def)
  have w: "write_at 0 h fp = \<lparr>buf = h @ drop HEADER_SIZE (buf fp), idx = HEADER_SIZE\<rparr>"
    using write_at_inside [of 0 fp h] lh by simp
  have a: "n = length b \<Longrightarrow>
      snd (stream_write [NL] \<lparr>buf = b, idx = n\<rparr>) = \<lparr>buf = b @ [NL], idx = length b + 1\<rparr>" for b n
    by (subst stream_write_append) simp_all
  have c: "KEY_rows (count_vfiles io) = KEY_rows io \<and> index_size (count_vfiles io) = index_size io \<and>
      n_lines (count_vfiles io) = n_lines io \<and> n_records (count_vfiles io) = n_records io"
    by (simp add: count_vfiles_def)
  define b where "b = h @ drop HEADER_SIZE (buf fp)"
  have e: "write_header False (io, fp) =
      (if header_changed io \<and> length b = file_size io
       then Inr (length b + 1, (note_header (count_vfiles io))\<lparr>file_size := length b + 1\<rparr>,
                 \<lparr>buf = b @ [NL], idx = length b + 1\<rparr>)
       else Inr (length b, (if header_changed io then note_header (count_vfiles io) else count_vfiles io)
                 \<lparr>file_size := length b\<rparr>, \<lparr>buf = b, idx = length b\<rparr>))"
    using l unfolding write_header_def prod.case data_def [symmetric] Let_def h_def [symmetric] w
    by (simp add: seek_to_def b_def [symmetric] a)
  have lb: "HEADER_SIZE \<le> length b" using lh by (simp add: b_def)
  have d: "drop HEADER_SIZE b = drop HEADER_SIZE (buf fp) @ []"
    "drop HEADER_SIZE (b @ [NL]) = drop HEADER_SIZE (buf fp) @ [NL]"
    using lh by (simp_all add: b_def)
  show ?thesis
  proof (cases "header_changed io \<and> length b = file_size io")
    case True
    with d(2) c lb show ?thesis unfolding e by (simp add: note_header_def)
  next
    case False
    with d(1) c lb show ?thesis unfolding e by (auto simp: note_header_def)
  qed
qed

definition file_rows :: "row_codec \<Rightarrow> (nat \<Rightarrow> key_row) \<Rightarrow> jio \<times> jbytesio \<Rightarrow> bool" where
  "file_rows cod Y = (\<lambda>(io, fp).
     rows_from cod Y 0 io (buf fp) \<and> HEADER_SIZE + n_lines io * index_size io \<le> length (buf fp))"

context row_format begin

lemma resize_keys_rows:
  assumes "file_rows cod Y (io, fp)" "0 < index_size io" "0 < n_lines io"
    and "\<forall>r < n_lines io. resizable cod okr view (resized_io io (align8 isz)) (align8 isz) (Y r)"
    and "length (header_data (io\<lparr>index_size := align8 isz\<rparr>)) < HEADER_SIZE"
  shows "\<exists>io' fp'. resize_keys (write_key (Suc depth) cod) cod isz False (io, fp) = Some (Inr (io', fp')) \<and>
    index_size io' = align8 isz \<and> n_lines io' = n_lines io \<and> n_records io' = n_records io \<and>
    file_rows cod Y (io', fp')"
proof (cases "align8 isz = index_size io")
  case True
  with assms(1) show ?thesis by (auto simp: resize_keys_def Let_def)
next
  case False
  let ?n = "n_lines io" and ?S' = "align8 isz"
  define T where "T = look_ahead ?n (index_size io) ?S'"
  define fp0 where "fp0 = (if ?S' > index_size io then seek_to HEADER_SIZE fp else fp)"
  have b0: "buf fp0 = buf fp" by (simp add: fp0_def seek_to_def)
  have T: "T \<le> ?n" "T = ?n \<or> ?n * (?S' - index_size io) \<le> T * index_size io"
    using look_ahead_le look_ahead_enough [OF assms(2)] by (auto simp: T_def)
  have rf: "rows_from cod Y 0 io (buf fp0)" and lb: "HEADER_SIZE + ?n * index_size io \<le> length (buf fp)"
    using assms(1) b0 by (simp_all add: file_rows_def)
  have "\<exists>tab io1 fp1. read_ahead cod 0 T [] (io, fp0) = Inr (tab, io1, fp1) \<and> buf fp1 = buf fp0 \<and>
    same_engine io io1 \<and> rows_from cod Y (0 + T) io1 (buf fp1) \<and>
    (\<forall>r. 0 \<le> r \<and> r < 0 + T \<longrightarrow> map_of tab r = Some (Y r))"
    by (rule read_ahead_ok [OF rf]) (use T(1) in simp_all)
  then obtain tab io1 fp1 where ra: "read_ahead cod 0 T [] (io, fp0) = Inr (tab, io1, fp1)" "buf fp1 = buf fp"
      "same_engine io io1" "rows_from cod Y T io1 (buf fp1)" "\<forall>r. r < T \<longrightarrow> map_of tab r = Some (Y r)"
    using b0 by auto
  note io1 = same_engineD [OF ra(3)]
  let ?dst = "resized_io io ?S'"
  have isz: "index_size ?dst = ?S'" by (simp add: resized_io_def)
  have "\<exists>io' fp'. resize_loop (write_key (Suc depth) cod) cod False ?n 0 T tab io1 ?dst fp1 = Some (Inr (io', fp')) \<and>
    same_engine io1 io' \<and> take HEADER_SIZE (buf fp') = take HEADER_SIZE (buf fp1) \<and>
    (\<forall>r < n_lines io1. row_of cod (index_size ?dst) (buf fp') r = Inr (Y r)) \<and>
    (\<forall>(r, x) \<in> set (KEY_rows io'). r < n_lines io1 \<longrightarrow> x = Y r) \<and>
    HEADER_SIZE + n_lines io1 * index_size ?dst \<le> length (buf fp') \<and>
    (0 < n_lines io1 \<longrightarrow> idx fp' = HEADER_SIZE + n_lines io1 * index_size ?dst)"
    by (rule resize_loop_ok [where T = T]) (use assms(4) io1 isz T ra lb in simp_all)
  then obtain io2 fp2 where lp: "resize_loop (write_key (Suc depth) cod) cod False ?n 0 T tab io1 ?dst fp1 = Some (Inr (io2, fp2))"
      "same_engine io1 io2" "\<forall>r < ?n. row_of cod ?S' (buf fp2) r = Inr (Y r)"
      "\<forall>(r, x) \<in> set (KEY_rows io2). r < ?n \<longrightarrow> x = Y r"
      "HEADER_SIZE + ?n * ?S' \<le> length (buf fp2)" "idx fp2 = HEADER_SIZE + ?n * ?S'"
    using io1 isz assms(3) by auto
  note io2 = same_engineD [OF lp(2)]
  define fp3 where "fp3 = fp2\<lparr>buf := take (idx fp2) (buf fp2)\<rparr>"
  have l3: "length (buf fp3) = HEADER_SIZE + ?n * ?S'" using lp(5,6) by (simp add: fp3_def)
  have "\<exists>n io' fp' x. write_header False (io2\<lparr>index_size := ?S', p_lines := 0\<rparr>, fp3) = Inr (n, io', fp') \<and>
    drop HEADER_SIZE (buf fp') = drop HEADER_SIZE (buf fp3) @ x \<and> HEADER_SIZE \<le> length (buf fp') \<and>
    index_size io' = index_size (io2\<lparr>index_size := ?S', p_lines := 0\<rparr>) \<and>
    n_lines io' = n_lines (io2\<lparr>index_size := ?S', p_lines := 0\<rparr>) \<and>
    n_records io' = n_records (io2\<lparr>index_size := ?S', p_lines := 0\<rparr>) \<and>
    KEY_rows io' = KEY_rows (io2\<lparr>index_size := ?S', p_lines := 0\<rparr>)"
    by (rule write_header_ok) (use assms(5) l3 header_data_same [OF same_engine_trans [OF ra(3) lp(2)]] in simp_all)
  then obtain n io' fp' x where wh: "write_header False (io2\<lparr>index_size := ?S', p_lines := 0\<rparr>, fp3) = Inr (n, io', fp')"
      "drop HEADER_SIZE (buf fp') = drop HEADER_SIZE (buf fp3) @ x" "HEADER_SIZE \<le> length (buf fp')" "index_size io' = ?S'" "n_lines io' = ?n"
      "n_records io' = n_records io" "KEY_rows io' = KEY_rows io2"
    using io1 io2 by auto
  have row3: "row_of cod ?S' (buf fp3) r = row_of cod ?S' (buf fp2) r" if "r < ?n" for r
  proof -
    have "HEADER_SIZE + r * ?S' + ?S' \<le> HEADER_SIZE + ?n * ?S'" using row_after [OF that] by simp
    then have "take ?S' (drop (HEADER_SIZE + r * ?S') (take (HEADER_SIZE + ?n * ?S') (buf fp2)))
        = take ?S' (drop (HEADER_SIZE + r * ?S') (buf fp2))"
      by (simp add: drop_take min_def)
    then show ?thesis by (simp add: row_of_def line_at_def fp3_def lp(6))
  qed
  have "row_of cod ?S' (buf fp') r = Inr (Y r)" if "r < ?n" for r
    using row_of_tail [OF wh(2), of r ?S'] row3 [OF that] lp(3) that row_after [OF that] l3 by simp
  moreover have "HEADER_SIZE + ?n * ?S' \<le> length (buf fp')"
    using arg_cong [OF wh(2), of length] wh(3) l3 by simp
  ultimately have "file_rows cod Y (io', fp')"
    using wh lp(4) by (simp add: file_rows_def rows_from_def)
  moreover have "resize_keys (write_key (Suc depth) cod) cod isz False (io, fp) = Some (Inr (io', fp'))"
    using False ra(1) lp(1) wh(1) by (simp add: resize_keys_def Let_def T_def [symmetric] fp0_def [symmetric]
        fp3_def [symmetric])
  ultimately show ?thesis using wh by blast
qed

text \<open>\<open>write_key\<close> as a whole: into the row, or after the file has been resized.\<close>

lemma file_rows_fewer: "file_rows cod Y (io, fp) \<Longrightarrow> m \<le> n_lines io \<Longrightarrow> file_rows cod Y (io\<lparr>n_lines := m\<rparr>, fp)"
proof -
  assume f: "file_rows cod Y (io, fp)" and m: "m \<le> n_lines io"
  have "HEADER_SIZE + m * index_size io \<le> length (buf fp)"
    using f mult_le_mono1 [OF m, of "index_size io"] unfolding file_rows_def prod.case by linarith
  then show "file_rows cod Y (io\<lparr>n_lines := m\<rparr>, fp)" using f m by (auto simp: file_rows_def rows_from_def)
qed

lemma file_rows_dummy:
  assumes "file_rows cod Y (io\<lparr>n_lines := row\<rparr>, fp)" "row + 1 = n_lines io" "row \<notin> fst ` set (KEY_rows io)"
    and "KEY_dumps cod e = Inr d" "length d < index_size io" "okr e"
  shows "file_rows cod (Y(row := view e)) (io, write_at (row_pos io row)
     (d @ replicate (index_size io - length d - 1) SPACE @ [NL]) fp)"
proof -
  have pos: "row_pos io row \<le> length (buf fp)"
    using assms(1) by (simp add: file_rows_def row_pos_def)
  obtain io' fp' where put: "put_row row e d (io, fp) = (io', fp')" by (cases "put_row row e d (io, fp)")
  have "fp' = write_at (row_pos io row) (row_line (index_size io) d) fp"
    using put by (simp add: put_row_def Let_def)
  then have fp': "write_at (row_pos io row) (d @ replicate (index_size io - length d - 1) SPACE @ [NL]) fp = fp'"
    using row_line_pad [OF assms(5)] by simp
  note ro = row_of_put [OF assms(4-6) pos put]
  have k: "r \<noteq> row" if "(r, x) \<in> set (KEY_rows io)" for r x using that assms(3) by force
  have n: "r < n_lines io \<longleftrightarrow> r < row \<or> r = row" for r using assms(2) by auto
  have l: "HEADER_SIZE + n_lines io * index_size io \<le> length (buf fp')"
    using put_row_bytes(3) [OF assms(5) pos put] unfolding assms(2) [symmetric] by (simp add: row_pos_def)
  have old: "row_of cod (index_size io) (buf fp) r = Inr (Y r)" if "r < row" for r
    using assms(1) that by (simp add: file_rows_def rows_from_def)
  have cache: "x = Y r" if "(r, x) \<in> set (KEY_rows io)" "r < row" for r x
    using assms(1) that by (auto simp: file_rows_def rows_from_def)
  show ?thesis
    unfolding fp' file_rows_def rows_from_def prod.case
  proof (intro conjI allI impI ballI)
    show "row_of cod (index_size io) (buf fp') r = Inr ((Y(row := view e)) r)" if "0 \<le> r \<and> r < n_lines io" for r
      using that ro [of r] old n by auto
    show "case p of (r, x) \<Rightarrow> r < n_lines io \<longrightarrow> x = (Y(row := view e)) r" if "p \<in> set (KEY_rows io)" for p
      using that k cache n by (cases p) auto
  qed (rule l)
qed

text \<open>
  The row may be the last one of \<open>n_lines\<close> before its bytes exist: the file then ends with the
  rows before it.
\<close>

lemma write_key_rows:
  assumes "file_rows cod Y (io, fp) \<or> row + 1 = n_lines io \<and> file_rows cod Y (io\<lparr>n_lines := row\<rparr>, fp)" "row < n_lines io"
    and "KEY_dumps cod (completed io w) = Inr data" "length data < MAX_INDEX_SIZE" "okr (completed io w)"
    and "index_size io \<le> length data \<Longrightarrow> 0 < index_size io \<and> (\<forall>r < n_lines io. r \<noteq> row \<or> row + 1 < n_lines io \<longrightarrow>
        resizable cod okr view (resized_io io (align8 (length data + 1))) (align8 (length data + 1)) (Y r))"
    and "index_size io \<le> length data \<Longrightarrow> row + 1 = n_lines io \<Longrightarrow> row \<notin> fst ` set (KEY_rows io) \<and>
        (\<exists>d. KEY_dumps cod empty_row = Inr d \<and> length d < index_size io) \<and>
        resizable cod okr view (resized_io io (align8 (length data + 1))) (align8 (length data + 1)) empty_row"
    and "length (header_data (io\<lparr>index_size := align8 (length data + 1)\<rparr>)) < HEADER_SIZE"
  shows "\<exists>n io' fp'. write_key (Suc (Suc depth)) cod row w (io, fp) = Some (Inr (n, io', fp')) \<and>
    n_lines io' = n_lines io \<and> n_records io' = n_records io \<and> length data < index_size io' \<and>
    (\<forall>r < n_lines io. row_of cod (index_size io') (buf fp') r =
       Inr (if r = row then view (completed io w) else Y r))"
proof -
  have fewer: "file_rows cod Y (io\<lparr>n_lines := row\<rparr>, fp)"
    using assms(1,2) file_rows_fewer [of Y io fp row] by auto
  have pos1: "row_pos io row \<le> length (buf fp)" using fewer by (simp add: file_rows_def row_pos_def)
  have others: "row_of cod (index_size io) (buf fp) r = Inr (Y r)" if "r < n_lines io" "r \<noteq> row" for r
    using assms(1)
  proof
    assume "row + 1 = n_lines io \<and> file_rows cod Y (io\<lparr>n_lines := row\<rparr>, fp)"
    then show ?thesis using that by (auto simp: file_rows_def rows_from_def)
  qed (use that in \<open>simp add: file_rows_def rows_from_def\<close>)
  have put: "\<exists>n io' fp'. Some (Inr (length (row_line (index_size io1) data), put_row row (completed io w) data (io1, fp1)))
        = Some (Inr (n, io', fp')) \<and>
      n_lines io' = n_lines io1 \<and> n_records io' = n_records io1 \<and> length data < index_size io' \<and>
      (\<forall>r < n_lines io1. row_of cod (index_size io') (buf fp') r =
         Inr (if r = row then view (completed io w) else Z r))"
    if "\<And>r. r < n_lines io1 \<Longrightarrow> r \<noteq> row \<Longrightarrow> row_of cod (index_size io1) (buf fp1) r = Inr (Z r)"
      "row_pos io1 row \<le> length (buf fp1)" "length data < index_size io1" for Z io1 fp1
  proof -
    obtain io' fp' where p: "put_row row (completed io w) data (io1, fp1) = (io', fp')"
      by (cases "put_row row (completed io w) data (io1, fp1)")
    note ro = row_of_put [OF assms(3) that(3) assms(5) that(2) p]
    show ?thesis
      using p ro same_engineD [OF put_row_same [OF p]] that by auto
  qed
  have e: "completed io w\<lparr>row_key := VStr (w_key w)\<rparr> = completed io w"
    by (rule key_row.equality) simp_all
  show ?thesis
  proof (cases "length data < index_size io")
    case True
    with assms(3) put [OF others pos1 True] show ?thesis by (simp add: e Let_def)
  next
    case False
    let ?isz = "align8 (length data + 1)"
    have big: "length data < ?isz" unfolding align8_def using div_mult_mod_eq [of "length data + 1" 8] by auto
    obtain fp1 Z where fp1: "(if n_lines io \<le> row + 1 then
                              (case KEY_dumps cod empty_row of
                                 Inl e \<Rightarrow> Inl e
                               | Inr d \<Rightarrow> Inr (write_at (row_pos io row)
                                             (d @ replicate (index_size io - length d - 1) SPACE @ [NL]) fp))
                            else Inr fp) = Inr fp1" "file_rows cod Z (io, fp1)" "\<forall>r. r \<noteq> row \<longrightarrow> Z r = Y r"
        "\<forall>r < n_lines io. resizable cod okr view (resized_io io ?isz) ?isz (Z r)"
    proof (cases "row + 1 = n_lines io")
      case True
      with assms(7) False obtain d where d: "row \<notin> fst ` set (KEY_rows io)" "KEY_dumps cod empty_row = Inr d"
          "length d < index_size io" "resizable cod okr view (resized_io io ?isz) ?isz empty_row" by auto
      then have ok: "okr empty_row" "view empty_row = empty_row" by (auto simp: resizable_def)
      show ?thesis
        by (rule that [OF _ file_rows_dummy [OF fewer True d(1,2,3) ok(1)]])
           (use True d ok False assms(6) in auto)
    next
      case no: False
      then have "file_rows cod Y (io, fp)" using assms(1) by blast
      from that [OF _ this] show ?thesis using no assms(2,6) False by auto
    qed
    have pos: "0 < index_size io" "0 < n_lines io" using assms(2,6) False by auto
    obtain io2 fp2 where rz: "resize_keys (write_key (Suc depth) cod) cod (length data + 1) False (io, fp1) = Some (Inr (io2, fp2))"
        "index_size io2 = ?isz" "n_lines io2 = n_lines io" "n_records io2 = n_records io" "file_rows cod Z (io2, fp2)"
      using resize_keys_rows [OF fp1(2) pos fp1(4) assms(8)] by blast
    have z: "row_of cod (index_size io2) (buf fp2) r = Inr (Z r)" if "r < n_lines io2" for r
      using rz(5) that by (simp add: file_rows_def rows_from_def)
    have "row_pos io2 row \<le> length (buf fp2)"
      using rz(3,5) assms(2) row_after [of row "n_lines io" "index_size io2"] by (simp add: file_rows_def row_pos_def)
    note p = put [OF z this]
    have "write_key (Suc (Suc depth)) cod row w (io, fp) =
        Some (Inr (length (row_line (index_size io2) data), put_row row (completed io w) data (io2, fp2)))"
      using assms(3,4) False fp1(1) rz(1) by (simp add: e Let_def del: resize_keys_def)
    then show ?thesis using p rz(2-4) big fp1(3) by (simp add: if_distrib cong: if_cong)
  qed
qed

end

section \<open>Copying a row\<close>

lemma copy_key_rows:
  assumes "copy_key src dst (io, fp) = (line, io', fp')" "row_pos io dst \<le> length (buf fp)" "0 < index_size io"
  shows "io' = forget dst io"
    and "i \<noteq> dst \<Longrightarrow> row_of cod (index_size io) (buf fp') i = row_of cod (index_size io) (buf fp) i"
    and "row_pos io src < length (buf fp) \<Longrightarrow>
      row_of cod (index_size io) (buf fp') dst = row_of cod (index_size io) (buf fp) src"
proof -
  let ?S = "index_size io" and ?b = "buf fp"
  obtain n l fp1 where st: "stream_readinto (replicate ?S 0) (seek_to (row_pos io src) fp) = (n, l, fp1)"
    by (cases "stream_readinto (replicate ?S 0) (seek_to (row_pos io src) fp)")
  note rd = readinto_row [OF st]
  have e: "io' = forget dst io" "line = l"
      "fp' = (if row_pos io src \<noteq> row_pos io dst then write_at (row_pos io dst) l fp1 else fp1)"
    using assms(1) st by (auto simp: copy_key_def Let_def)
  show "io' = forget dst io" by (rule e(1))
  have l: "length l = ?S" using rd(3) by (simp add: line_at_def)
  then have ne: "l \<noteq> []" using assms(3) by auto
  show "i \<noteq> dst \<Longrightarrow> row_of cod ?S (buf fp') i = row_of cod ?S ?b i"
    and "row_pos io src < length (buf fp) \<Longrightarrow> row_of cod ?S (buf fp') dst = row_of cod ?S ?b src"
  proof -
    have w: "line_at ?S (buf fp') i = (if i = dst then l else line_at ?S ?b i)"
      if "row_pos io src \<noteq> row_pos io dst" for i
      using that e(3) write_at_inside [of "row_pos io dst" fp1 l] line_at_write [OF l, of dst ?b i] ne assms(2) rd(2) l
      by (simp add: row_pos_def)
    have same: "buf fp' = ?b" if "row_pos io src = row_pos io dst" using that e(3) rd(2) by simp
    show "i \<noteq> dst \<Longrightarrow> row_of cod ?S (buf fp') i = row_of cod ?S ?b i"
      using w same by (cases "row_pos io src = row_pos io dst") (simp_all add: row_of_def)
    assume s: "row_pos io src < length (buf fp)"
    have "fill ?S l = fill ?S (line_at ?S ?b src)"
      using rd(3) s assms(3) by (auto simp: fill_def line_at_def row_pos_def)
    moreover have "src = dst" if "row_pos io src = row_pos io dst" using that assms(3) by (simp add: row_pos_def)
    ultimately show "row_of cod ?S (buf fp') dst = row_of cod ?S ?b src"
      using w [of dst] same by (cases "row_pos io src = row_pos io dst") (simp_all add: row_of_def)
  qed
qed

lemma copy_key_coherent:
  assumes "coherent cod okr view (io, fp)"
    and "copy_key src dst (io, fp) = (line, io', fp')" "row_pos io dst \<le> length (buf fp)" "0 < index_size io"
  shows "coherent cod okr view (io', fp')"
proof -
  note c = copy_key_rows [OF assms(2-4)]
  show ?thesis
    using assms(1) c(2) [of _ cod]
    by (auto simp: coherent_def c(1) forget_def assoc_del_def; fastforce)
qed

section \<open>The size of a row\<close>

lemma enc_str_size:
  assumes "list_all scalar t" "length t \<le> 16000"
  shows "\<exists>b. enc 1023 (VStr t) = Inr b \<and> length b \<le> 5 + 4 * length t"
proof -
  have "length (concat (map utf8_char t)) \<le> 4 * length t" by (rule length_utf8)
  then show ?thesis
    using assms length_str_header [of "length (concat (map utf8_char t))"] by (simp add: utf8_encode_def)
qed

lemma S_row_size:
  assumes "storable r" "row_key r = VStr t"
  shows "\<exists>b. JIoKEY_S_dumps_v2 r = Inr b \<and> length b \<le> 72 + 4 * length t"
proof -
  have day: "day_ok r" and rng: "row_in_range r" using assms(1) by (auto simp: storable_def)
  obtain d where d: "fold_days (cdays r) (mdays r) (ttl r) = Inr d" "0 \<le> d" "d < 2 ^ 48"
    "0 \<le> kflags r" "kflags r < 2 ^ 16"
    using day by (rule day_okE)
  let ?fs = "[file_id r, offset r, row_size r, val_size r, ver r, VInt d, VInt (kflags r)]"
  have t: "list_all scalar t" "length t \<le> 16000" using rng assms(2) by (auto simp: row_in_range_def)
  obtain b1 where b1: "enc 1023 (VStr t) = Inr b1" "length b1 \<le> 5 + 4 * length t" using enc_str_size [OF t] by blast
  have "int_field (VInt d)" "int_field (VInt (kflags r))" using d by simp_all
  then have fs: "list_all int_field ?fs"
    using rng by (simp add: row_in_range_def del: int_field.simps)
  obtain b2 where b2: "enc_all 1023 ?fs = Inr b2" "length b2 \<le> 9 * length ?fs"
    using enc_ints_ok [OF fs, of 1023] by auto
  define b where "b = array_header (Suc (length ?fs)) @ b1 @ b2"
  have m: "msg_dumps (VTuple (VStr t # ?fs)) = Inr b"
    using b1(1) b2(1) by (simp add: msg_dumps_enc b_def)
  have l: "length b \<le> 1 + (5 + 4 * length t) + 63"
    using b1(2) b2(2) by (simp add: b_def array_header_def)
  have "length b div 256 < 256" using l t(2) by (intro less_mult_imp_div_less) simp
  then have "\<exists>b'. row_prefix b = Inr b' \<and> length b' = 3 + length b" by (simp add: row_prefix_def Let_def)
  with m d(1) assms(2) l show ?thesis by (auto simp: JIoKEY_S_dumps_v2_def dump_fields_v2_def)
qed

section \<open>A sample file\<close>

definition sample_io :: jio where
  "sample_io = \<lparr>index_size = 128, n_records = 1, n_lines = 1, sync_id = 9, swap_id = 1, remv_id = 1, max_vfiles = 1,
     file_size = 0, p_sync = 0, p_swap = 0, p_remv = 0, p_records = 0, p_lines = 0, zip_type = 0,
     data_type = 6, api_ver = 2, today = 739010, now_num = PI 739010, table_keys = [], vfile_ids = [], KEY_rows = [], DEAD_rows = []\<rparr>"

definition sample_file :: "bytes \<Rightarrow> jio \<times> jbytesio" where
  "sample_file d = (sample_io, \<lparr>buf = replicate 128 0 @ row_line 128 d, idx = 0\<rparr>)"

definition sample_args :: write_args where
  "sample_args = \<lparr>w_key = [107, 0x20AC], w_file = 2, w_offset = 4096, w_row_size = 64, w_val_size = 17,
     w_ver = Some 9, w_cdays = 739000, w_mdays = PI 739005, w_ttl = PI 30,
     w_flags = Some (KF_EXPIRE OR KF_NO_CACHE)\<rparr>"

lemma sample_row_storable [simp]: "storable sample_row" "viewed sample_row = sample_row"
  "row_args sample_row = Inr sample_args" 
  using sample_row_ok by (simp_all add: storable_def viewed_def day_view_def sample_row_def sample_args_def)

lemma sample_row_completed:
  "completed io sample_args = sample_row"
  by (simp add: sample_row_def sample_args_def completed_def write_key_row_def Let_def MAX_TTL_DAYS_def TTL_DAY_MASK_def SUB_DAY_MASK_def KEY_FLAG_MASK_def)

lemma sample_row_dumps: "\<exists>d. KEY_dumps msg_rows sample_row = Inr d \<and> length d \<le> 80"
  using S_row_size [of sample_row "[107, 0x20AC]"] by (simp add: msg_rows_def sample_row_def [THEN arg_cong, of row_key])

lemma sample_file_rows:
  assumes "KEY_dumps msg_rows sample_row = Inr d" "length d \<le> 80"
  shows "file_rows msg_rows (\<lambda>_. sample_row) (sample_file d)"
proof -
  have l: "length (row_line 128 d) = 128" using assms(2) by (simp add: length_row_line)
  then have "fill 128 (line_at 128 (replicate 128 0 @ row_line 128 d) 0) = row_line 128 d"
    by (simp add: line_at_def fill_def HEADER_SIZE_def)
  moreover have "KEY_loads msg_rows (row_line 128 d) = Inr sample_row"
    using msg_rows.loads_dumps [OF _ assms(1), of "128 - length d - 1"] assms(2) by (simp add: row_line_pad)
  ultimately show ?thesis using l
    by (simp add: file_rows_def rows_from_def sample_file_def sample_io_def row_of_def HEADER_SIZE_def)
qed

lemma sample_resizable:
  "80 < isz \<Longrightarrow> resizable msg_rows storable viewed io isz sample_row"
  using sample_row_dumps by (auto simp: resizable_def sample_row_completed simp del: row_args.simps)

text \<open>The empty row that fills the place of a row behind the end.\<close>

lemma empty_row_args:
  "row_args empty_row = Inr \<lparr>w_key = [], w_file = 0, w_offset = 0, w_row_size = 0, w_val_size = 0, w_ver = Some 0,
     w_cdays = 0, w_mdays = PI 0, w_ttl = PI 0, w_flags = Some 0\<rparr>"
  by (simp add: empty_row_def)

lemma empty_row_fits:
  "\<exists>d. KEY_dumps msg_rows empty_row = Inr d \<and> length d < 128"
  "80 < isz \<Longrightarrow> resizable msg_rows storable viewed io isz empty_row"
proof -
  have st: "storable empty_row" "row_key empty_row = VStr []"
    by (simp_all add: storable_def empty_row_def day_ok_def row_in_range_def stored_ttl_def)
  then obtain d where d: "KEY_dumps msg_rows empty_row = Inr d" "length d \<le> 72"
    using S_row_size [of empty_row "[]"] by (auto simp: msg_rows_def)
  then show "\<exists>d. KEY_dumps msg_rows empty_row = Inr d \<and> length d < 128" by auto
  have "viewed empty_row = empty_row" by (simp add: viewed_def day_view_def empty_row_def)
  moreover have "completed io \<lparr>w_key = [], w_file = 0, w_offset = 0, w_row_size = 0, w_val_size = 0, w_ver = Some 0,
     w_cdays = 0, w_mdays = PI 0, w_ttl = PI 0, w_flags = Some 0\<rparr> = empty_row"
    by (simp add: completed_def write_key_row_def empty_row_def Let_def)
  ultimately show "80 < isz \<Longrightarrow> resizable msg_rows storable viewed io isz empty_row"
    using d st(1) empty_row_args unfolding resizable_def by auto
qed

lemma sample_row_view: "viewed (sample_row\<lparr>row_key := k\<rparr>) = sample_row\<lparr>row_key := k\<rparr>"
  by (simp add: viewed_def day_view_def sample_row_def)

lemma align8_small: "n \<le> 8192 \<Longrightarrow> align8 n < 10 ^ 5"
  using div_le_mono [of n 8192 8] by (simp add: align8_def)

text \<open>The loop that shortens a key.\<close>

lemma shrink_key_drops:
  assumes "n < 0" "length key \<le> nat (- n)" "encode [] = Inr d"
  shows "shrink_key encode keys n key = Some (Inr ([], d))"
  using assms by (subst shrink_key.simps) (simp add: py_prefix_def)

lemma shrink_key_one:
  assumes "shrink_key encode keys 1 key = Some y" "key \<noteq> []" "take 1 key \<in> set keys" "encode (take 1 key) = Inr d"
  shows False
proof -
  have "shrink_key encode keys n key = Some y \<Longrightarrow>
      n = 1 \<longrightarrow> key \<noteq> [] \<longrightarrow> take 1 key \<in> set keys \<longrightarrow> encode (take 1 key) \<noteq> Inr d" for n
    by (erule shrink_key.raw_induct [rotated]) (auto simp: py_prefix_def Let_def; fastforce)
  then show False using assms by blast
qed

lemma shrink_key_hangs:
  assumes "py_prefix n key = k" "k \<noteq> []" "k \<in> set keys" "take 1 k \<in> set keys"
    and "encode k = Inr d" "encode (take 1 k) = Inr d'"
  shows "shrink_key encode keys n key = None"
proof (rule ccontr)
  assume "shrink_key encode keys n key \<noteq> None"
  then obtain y where "shrink_key encode keys n key = Some y" by blast
  then have "shrink_key encode keys 1 k = Some y"
    using assms by (subst (asm) shrink_key.simps) (simp add: Let_def)
  then show False using shrink_key_one assms by blast
qed

lemma S_row_utf8:
  assumes "JIoKEY_S_dumps_v2 r = Inr b" "row_key r = VStr t"
  shows "length (concat (map utf8_char t)) \<le> length b"
proof -
  have e: "msg_dumps (VTuple (VStr t # fs)) = Inr x \<Longrightarrow> length (concat (map utf8_char t)) \<le> length x" for fs x
    by (auto simp: msg_dumps_enc utf8_encode_def res_bind_Inr_iff split: if_splits)
  show ?thesis
    using assms by (auto simp: JIoKEY_S_dumps_v2_def dump_fields_v2_def row_prefix_def Let_def
        res_bind_Inr_iff split: sum.splits if_splits dest!: e)
qed

lemma sample_row_with: "completed io (sample_args\<lparr>w_key := k\<rparr>) = sample_row\<lparr>row_key := VStr k\<rparr>"
  by (simp add: sample_row_def sample_args_def completed_def write_key_row_def Let_def
      MAX_TTL_DAYS_def TTL_DAY_MASK_def SUB_DAY_MASK_def KEY_FLAG_MASK_def)

lemma sample_row_long: "m \<le> 4000 \<Longrightarrow> storable (sample_row\<lparr>row_key := VStr (replicate m 0x20AC)\<rparr>)"
  by (simp add: storable_def sample_row_def day_ok_def row_in_range_def scalar_def stored_ttl_def list_all_iff)

lemma length_utf8_replicate: "length (concat (map utf8_char (replicate n 0x20AC))) = 3 * n"
  by (induction n) (simp_all add: utf8_char_def)

text \<open>
  A row too long for any row size loses its key.  When the bytes of the row exceed the
  row size by at least the length of the key, the key is dropped and the row is written
  with the empty key; when the key that is left is in the key table and so is its first
  character, \<open>write_key\<close> does not return.
\<close>

theorem oversized_key:
  assumes "KEY_dumps cod (completed io w) = Inr data" "MAX_INDEX_SIZE \<le> length data" "index_size io \<le> MAX_INDEX_SIZE"
    and "\<And>m. \<exists>d. KEY_dumps cod (completed io w\<lparr>row_key := VStr (take m (w_key w))\<rparr>) = Inr d"
    and "k = take (length (w_key w) - (length data + 1 - index_size io)) (w_key w)"
    and "KEY_dumps cod (completed io w\<lparr>row_key := VStr []\<rparr>) = Inr d" "length d < index_size io" "w_key w \<noteq> []"
  shows "(k = [] \<longrightarrow> write_key (Suc depth) cod row w (io, fp) =
      Some (Inr (index_size io, put_row row (completed io w\<lparr>row_key := VStr []\<rparr>) d (io, fp)))) \<and>
    (k \<noteq> [] \<and> k \<in> set (table_keys io) \<and> take 1 k \<in> set (table_keys io) \<longrightarrow>
      write_key (Suc depth) cod row w (io, fp) = None)"
proof -
  let ?n = "int (index_size io) - int (length data) - 1"
  have n: "?n < 0" "nat (- ?n) = length data + 1 - index_size io" using assms(2,3) by linarith+
  have k: "py_prefix ?n (w_key w) = k" using n assms(5) by (simp add: py_prefix_def)
  show ?thesis
  proof (intro conjI impI; (elim conjE)?)
    assume "k = []"
    then have "length (w_key w) \<le> nat (- ?n)" using assms(5,8) n(2) by simp
    from shrink_key_drops [OF n(1) this] assms show
      "write_key (Suc depth) cod row w (io, fp) =
        Some (Inr (index_size io, put_row row (completed io w\<lparr>row_key := VStr []\<rparr>) d (io, fp)))"
      by (simp add: Let_def length_row_line)
  next
    assume a: "k \<noteq> []" "k \<in> set (table_keys io)" "take 1 k \<in> set (table_keys io)"
    obtain d1 where d1: "KEY_dumps cod (completed io w\<lparr>row_key := VStr k\<rparr>) = Inr d1"
      using assms(4) unfolding assms(5) by blast
    have "take 1 k = take (min 1 (length (w_key w) - (length data + 1 - index_size io))) (w_key w)"
      unfolding assms(5) by (rule take_take)
    then obtain d2 where d2: "KEY_dumps cod (completed io w\<lparr>row_key := VStr (take 1 k)\<rparr>) = Inr d2"
      using assms(4) by metis
    show "write_key (Suc depth) cod row w (io, fp) = None"
      using shrink_key_hangs [OF k a, of "\<lambda>k. KEY_dumps cod (completed io w\<lparr>row_key := VStr k\<rparr>)"] d1 d2 assms(1-3)
      by (simp add: Let_def)
  qed
qed

theorem oversized_key_witness:
  "\<exists>d. write_key 2 msg_rows 0 (sample_args\<lparr>w_key := replicate 4000 0x20AC\<rparr>) (sample_file []) =
    Some (Inr (128, put_row 0 (sample_row\<lparr>row_key := VStr []\<rparr>) d (sample_file [])))"
proof -
  define c where "c = msg_rows"
  define key where "key = replicate 4000 (0x20AC::nat)"
  define w where "w = sample_args\<lparr>w_key := key\<rparr>"
  let ?r = "\<lambda>k. sample_row\<lparr>row_key := VStr k\<rparr>"
  have w: "w_key w = key" "completed sample_io w = ?r key" "key \<noteq> []" "length key = 4000" "index_size sample_io = 128"
    by (simp_all add: w_def sample_row_with key_def sample_io_def)
  have s: "storable (?r (take m key))" for m
    unfolding key_def take_replicate by (rule sample_row_long) simp
  have e: "\<exists>d. KEY_dumps c (?r (take m key)) = Inr d" for m
    using S_row_size [OF s, of m] by (auto simp: msg_rows_def c_def)
  obtain data where data: "KEY_dumps c (?r key) = Inr data" using e [of 4000] w(4) by auto
  then have big: "12000 \<le> length data"
    using S_row_utf8 [of "?r key" data key] length_utf8_replicate [of 4000] by (simp add: c_def msg_rows_def key_def)
  have l: "MAX_INDEX_SIZE \<le> length data" "[] = take (length key - (length data + 1 - 128)) key"
    using w(4) big by (simp_all add: MAX_INDEX_SIZE_def)
  obtain d0 where d0: "KEY_dumps c (?r []) = Inr d0" "length d0 \<le> 72"
    using S_row_size [OF s, of 0] by (auto simp: msg_rows_def c_def)
  have "write_key (Suc 1) c 0 w (sample_io, snd (sample_file [])) =
      Some (Inr (index_size sample_io, put_row 0 (completed sample_io w\<lparr>row_key := VStr []\<rparr>) d0
        (sample_io, snd (sample_file []))))"
    by (rule oversized_key [THEN conjunct1, rule_format, of c sample_io w data "[]" d0, OF _ l(1)])
      (use w data l(2) d0 e in \<open>simp_all add: MAX_INDEX_SIZE_def\<close>)
  then show ?thesis unfolding w w_def [symmetric] key_def [symmetric] c_def [symmetric]
    by (auto simp: sample_file_def numeral_2_eq_2)
qed

section \<open>Properties\<close>

text \<open>
  C39: A message-pack row takes at most 72 bytes and four for each character of its key,
  so every key of up to 2029 characters fits into the largest row; the guard of the
  database lets keys of 8064 characters through.
\<close>

theorem row_size_bound:
  assumes "storable r" "row_key r = VStr t"
  shows "\<exists>b. KEY_dumps msg_rows r = Inr b \<and> length b \<le> 72 + 4 * length t \<and>
    (length t \<le> 2029 \<longrightarrow> length b + 1 \<le> MAX_INDEX_SIZE)"
proof -
  obtain b where "JIoKEY_S_dumps_v2 r = Inr b" "length b \<le> 72 + 4 * length t"
    using S_row_size [OF assms] by blast
  then show ?thesis by (auto simp: msg_rows_def MAX_INDEX_SIZE_def)
qed

theorem row_size_bound_witness:
  "\<exists>b. KEY_dumps msg_rows sample_row = Inr b \<and> length b \<le> 80"
  using row_size_bound [of sample_row "[107, 0x20AC]"] sample_row_ok
  by (auto simp: storable_def sample_row_def)

text \<open>
  C36: Writing one key row writes that row and leaves every other row as it was, whether
  the row fits or the whole file has to be moved to a larger row size first.  The row is one of
  the file, or the last one, counted in \<open>n_lines\<close>, whose bytes do not exist yet.  The new row fits into
  the largest row size and has fields the codec can store; when the file has to be resized,
  the rows that are there are rows that \<open>write_key\<close> wrote (\<open>resizable\<close>), an empty row fits into
  the old size where one is put at the end, and the counters are machine integers, so
  that the header fits into its 128 bytes.
\<close>

theorem write_key_keeps_rows:
  assumes "file_rows msg_rows Y (io, fp) \<or> row + 1 = n_lines io \<and> file_rows msg_rows Y (io\<lparr>n_lines := row\<rparr>, fp)"
    and "row < n_lines io" "counters_ok io"
    and "KEY_dumps msg_rows (completed io w) = Inr data" "length data < MAX_INDEX_SIZE"
    and "storable (completed io w)"
    and "index_size io \<le> length data \<Longrightarrow> 0 < index_size io \<and> (\<forall>r < n_lines io. r \<noteq> row \<or> row + 1 < n_lines io \<longrightarrow>
        resizable msg_rows storable viewed (resized_io io (align8 (length data + 1)))
          (align8 (length data + 1)) (Y r))"
    and "index_size io \<le> length data \<Longrightarrow> row + 1 = n_lines io \<Longrightarrow> row \<notin> fst ` set (KEY_rows io) \<and>
        (\<exists>d. KEY_dumps msg_rows empty_row = Inr d \<and> length d < index_size io) \<and>
        resizable msg_rows storable viewed (resized_io io (align8 (length data + 1)))
          (align8 (length data + 1)) empty_row"
  shows "\<exists>n io' fp'. write_key 2 msg_rows row w (io, fp) = Some (Inr (n, io', fp')) \<and>
    n_lines io' = n_lines io \<and> n_records io' = n_records io \<and> length data < index_size io' \<and>
    (\<forall>r < n_lines io. row_of msg_rows (index_size io') (buf fp') r =
       Inr (if r = row then viewed (completed io w) else Y r))"
proof -
  have "align8 (length data + 1) < 10 ^ 5" using align8_small assms(5) by (simp add: MAX_INDEX_SIZE_def)
  from msg_rows.write_key_rows [OF assms(1,2,4-8) header_fits [OF assms(3) this], of 0]
  show ?thesis by (simp add: numeral_2_eq_2 del: write_key.simps)
qed

text \<open>The example appends a row that does not fit behind the one that is there.\<close>

theorem write_key_keeps_rows_witness:
  "\<exists>d n io fp. KEY_dumps msg_rows sample_row = Inr d \<and> 128 < index_size io \<and>
     write_key 2 msg_rows 1 (sample_args\<lparr>w_key := replicate 60 0x20AC\<rparr>)
       (sample_io\<lparr>n_lines := 2\<rparr>, snd (sample_file d)) = Some (Inr (n, io, fp)) \<and>
     row_of msg_rows (index_size io) (buf fp) 0 = Inr sample_row \<and>
     row_of msg_rows (index_size io) (buf fp) 1 = Inr (sample_row\<lparr>row_key := VStr (replicate 60 0x20AC)\<rparr>)"
proof -
  obtain d where d: "KEY_dumps msg_rows sample_row = Inr d" "length d \<le> 80" using sample_row_dumps by blast
  define io where "io = sample_io\<lparr>n_lines := 2\<rparr>"
  define key where "key = replicate 60 (0x20AC::nat)"
  define w where "w = sample_args\<lparr>w_key := key\<rparr>"
  define r where "r = sample_row\<lparr>row_key := VStr key\<rparr>"
  have io: "n_lines io = 2" "index_size io = 128" "KEY_rows io = []" "io\<lparr>n_lines := 1\<rparr> = sample_io"
    by (simp_all add: io_def sample_io_def)
  have f: "file_rows msg_rows (\<lambda>_. sample_row) (sample_io, snd (sample_file d))"
    using sample_file_rows [OF d] unfolding sample_file_def by simp
  have c: "completed j w = r" for j by (simp add: w_def r_def sample_row_with)
  have r: "storable r" "viewed r = r" "row_key r = VStr key"
    using sample_row_long [of 60] by (simp_all add: r_def key_def sample_row_view)
  obtain data where data: "JIoKEY_S_dumps_v2 r = Inr data" "length data \<le> 72 + 4 * 60"
    using S_row_size [OF r(1,3)] by (auto simp: key_def)
  then have big: "180 \<le> length data"
    using S_row_utf8 [of r data key] r(3) length_utf8_replicate [of 60] by (simp add: key_def)
  have ok: "counters_ok io" by (simp add: counters_ok_def io_def sample_io_def)
  have al: "80 < align8 (length data + 1)" using big unfolding align8_def by presburger
  have "\<exists>n io' fp'. write_key 2 msg_rows 1 w (io, snd (sample_file d)) = Some (Inr (n, io', fp')) \<and>
    n_lines io' = n_lines io \<and> n_records io' = n_records io \<and> length data < index_size io' \<and>
    (\<forall>i < n_lines io. row_of msg_rows (index_size io') (buf fp') i =
       Inr (if i = 1 then viewed (completed io w) else sample_row))"
  proof (rule write_key_keeps_rows)
    show "KEY_dumps msg_rows (completed io w) = Inr data" using data by (simp add: c msg_rows_def)
    show "file_rows msg_rows (\<lambda>_. sample_row) (io, snd (sample_file d)) \<or>
        1 + 1 = n_lines io \<and> file_rows msg_rows (\<lambda>_. sample_row) (io\<lparr>n_lines := 1\<rparr>, snd (sample_file d))"
      using f io by simp
    show "1 \<notin> fst ` set (KEY_rows io) \<and> (\<exists>d. KEY_dumps msg_rows empty_row = Inr d \<and> length d < index_size io) \<and>
        resizable msg_rows storable viewed (resized_io io (align8 (length data + 1))) (align8 (length data + 1)) empty_row"
      using empty_row_fits al io by auto
  qed (use io ok c r data al sample_resizable in \<open>auto simp: MAX_INDEX_SIZE_def\<close>)
  then obtain n io' fp' where x: "write_key 2 msg_rows 1 w (io, snd (sample_file d)) = Some (Inr (n, io', fp'))"
      "length data < index_size io'" "row_of msg_rows (index_size io') (buf fp') 0 = Inr sample_row"
      "row_of msg_rows (index_size io') (buf fp') 1 = Inr r"
    using io c r by auto
  then show ?thesis using d(1) big unfolding io_def [symmetric] key_def [symmetric] w_def [symmetric] r_def [symmetric]
    by (intro exI [of _ d] exI [of _ n] exI [of _ io'] exI [of _ fp']) simp
qed

text \<open>
  C37: Moving the file to another row size, in place, keeps every row: the look-ahead is
  always far enough that no row is overwritten before it has been read.  The rows of the file
  are rows that \<open>write_key\<close> wrote and that fit into the new size, and the counters are machine
  integers, so that the header fits into its 128 bytes.
\<close>

theorem resize_keys_keeps_rows:
  assumes "file_rows msg_rows Y (io, fp)" "0 < index_size io" "0 < n_lines io"
    and "counters_ok io" "isz \<le> MAX_INDEX_SIZE"
    and "\<forall>r < n_lines io. resizable msg_rows storable viewed (resized_io io (align8 isz)) (align8 isz) (Y r)"
  shows "\<exists>io' fp'. resize_keys (write_key 1 msg_rows) msg_rows isz False (io, fp) = Some (Inr (io', fp')) \<and>
    index_size io' = align8 isz \<and> n_lines io' = n_lines io \<and> n_records io' = n_records io \<and>
    file_rows msg_rows Y (io', fp')"
proof -
  have "align8 isz < 10 ^ 5" using align8_small assms(5) by (simp add: MAX_INDEX_SIZE_def)
  from msg_rows.resize_keys_rows [OF assms(1-3,6) header_fits [OF assms(4) this], of 0]
  show ?thesis by (simp del: write_key.simps)
qed

theorem resize_keys_keeps_rows_witness:
  "\<exists>d io fp. KEY_dumps msg_rows sample_row = Inr d \<and>
     resize_keys (write_key 1 msg_rows) msg_rows 250 False (sample_file d) = Some (Inr (io, fp)) \<and>
     index_size io = 256 \<and> file_rows msg_rows (\<lambda>_. sample_row) (io, fp)"
proof -
  obtain d where d: "KEY_dumps msg_rows sample_row = Inr d" "length d \<le> 80" using sample_row_dumps by blast
  have f: "file_rows msg_rows (\<lambda>_. sample_row) (sample_io, snd (sample_file d))"
    using sample_file_rows [OF d] unfolding sample_file_def by simp
  have io: "n_lines sample_io = 1" "index_size sample_io = 128" "counters_ok sample_io"
    by (simp_all add: sample_io_def counters_ok_def)
  have a: "align8 250 = 256" by (simp add: align8_def)
  have "\<exists>io' fp'. resize_keys (write_key 1 msg_rows) msg_rows 250 False (sample_io, snd (sample_file d)) = Some (Inr (io', fp')) \<and>
    index_size io' = align8 250 \<and> n_lines io' = n_lines sample_io \<and> n_records io' = n_records sample_io \<and>
    file_rows msg_rows (\<lambda>_. sample_row) (io', fp')"
    by (rule resize_keys_keeps_rows)
      (use f d io a in \<open>simp_all add: sample_resizable MAX_INDEX_SIZE_def\<close>)
  then show ?thesis
    using d a by (auto simp: sample_file_def)
qed

text \<open>
  C38: The caches of key rows never go stale: whatever is read is the row in the file, up
  to the rounding of its days, and reading, writing and copying rows keep that so.
\<close>

theorem row_cache_coherent:
  assumes "coherent msg_rows storable viewed (io, fp)"
  shows "(read_key msg_rows row (io, fp) = (Inr r, io1, fp1) \<longrightarrow>
      coherent msg_rows storable viewed (io1, fp1) \<and> buf fp1 = buf fp \<and>
      (\<exists>y. row_of msg_rows (index_size io) (buf fp) row = Inr y \<and> (r = y \<or> viewed r = y)))
    \<and> (KEY_dumps msg_rows (completed io w) = Inr data \<and> length data < index_size io \<and>
        storable (completed io w) \<and> row_pos io row \<le> length (buf fp) \<and>
        write_key 1 msg_rows row w (io, fp) = Some (Inr (n, io2, fp2)) \<longrightarrow>
      coherent msg_rows storable viewed (io2, fp2))
    \<and> (copy_key row dst (io, fp) = (line, io3, fp3) \<and> row_pos io dst \<le> length (buf fp) \<and>
        0 < index_size io \<longrightarrow>
      coherent msg_rows storable viewed (io3, fp3))"
proof (intro conjI impI; (elim conjE)?)
  assume r: "read_key msg_rows row (io, fp) = (Inr r, io1, fp1)"
  show "coherent msg_rows storable viewed (io1, fp1)"
    by (rule msg_rows.read_key_coherent(1) [OF assms r])
  show "buf fp1 = buf fp" by (rule read_key_eq(1) [OF r])
  show "\<exists>y. row_of msg_rows (index_size io) (buf fp) row = Inr y \<and> (r = y \<or> viewed r = y)"
    using msg_rows.read_key_coherent(2) [OF assms r] by blast
next
  assume a: "KEY_dumps msg_rows (completed io w) = Inr data" "length data < index_size io"
    "storable (completed io w)" "row_pos io row \<le> length (buf fp)"
    "write_key 1 msg_rows row w (io, fp) = Some (Inr (n, io2, fp2))"
  then have "put_row row (completed io w) data (io, fp) = (io2, fp2)"
    using write_key_fits [OF a(1,2), of 0 row fp] by (simp del: write_key.simps)
  then show "coherent msg_rows storable viewed (io2, fp2)"
    by (rule msg_rows.put_row_coherent [OF assms a(1-4)])
next
  assume "copy_key row dst (io, fp) = (line, io3, fp3)" "row_pos io dst \<le> length (buf fp)" "0 < index_size io"
  then show "coherent msg_rows storable viewed (io3, fp3)" by (rule copy_key_coherent [OF assms])
qed

theorem row_cache_coherent_witness:
  "\<exists>d io fp. KEY_dumps msg_rows sample_row = Inr d \<and>
     read_key msg_rows 0 (sample_file d) = (Inr sample_row, io, fp) \<and>
     coherent msg_rows storable viewed (io, fp)"
proof -
  define c where "c = msg_rows"
  obtain d where d: "KEY_dumps c sample_row = Inr d" "length d \<le> 80" using sample_row_dumps unfolding c_def by blast
  have f: "file_rows c (\<lambda>_. sample_row) (sample_io, snd (sample_file d))"
    using sample_file_rows d unfolding c_def sample_file_def by simp
  then have "row_of c (index_size sample_io) (buf (snd (sample_file d))) 0 = Inr sample_row"
    by (simp add: file_rows_def rows_from_def sample_io_def)
  then obtain io fp where r: "read_key c 0 (sample_io, snd (sample_file d)) = (Inr sample_row, io, fp)"
    using read_key_ok [of c sample_io "snd (sample_file d)" 0 sample_row] by (auto simp: sample_io_def)
  have "coherent c storable viewed (sample_io, snd (sample_file d))" by (simp add: coherent_def sample_io_def)
  from row_cache_coherent [OF this [unfolded c_def], THEN conjunct1, rule_format, OF r [unfolded c_def]] d r
  show ?thesis unfolding c_def [symmetric] by (auto simp: sample_file_def)
qed

end
