(* ===== verification/Value_Rows.thy ===== *)
theory Value_Rows
  imports Row_Codec
begin

text \<open>
  Where a value goes: \<open>_encode_row\<close> and \<open>_decode_row\<close> of \<open>omni_json_db/jdb_lite.py\<close>.  Small
  values are packed into the fields of the key row itself (\<open>file_id\<close> is then a type number
  and \<open>offset\<close> the payload), all others are bytes for a value file.
\<close>

text \<open>
  The values of records: the plain ones of \<open>Values\<close>, a date (its ordinal), a date with time
  (its calendar reading in microseconds, and the offset of its time zone when it has one), and
  another database; \<open>own\<close> is whether its storage is in memory or already this database's
  group, and \<open>path\<close> its KEY file.
\<close>

datatype jval = Plain pyval | Date nat | Stamp int "int option" | Group bool "nat list"

text \<open>\<open>Inline file_id offset val_size\<close> or the bytes and the size before compression.\<close>

datatype slot = Inline nat nat nat | InFile bytes nat

text \<open>
  The codec of values, the compressor, and the two conversions of the standard library that
  depend on the time zone of the machine: \<open>datetime.timestamp\<close>, as the bits of its float, and
  \<open>datetime.fromtimestamp\<close>, which always answers with a local time without a zone.
\<close>

record val_codec =
  VAL_dumps :: "pyval \<Rightarrow> bytes res"
  VAL_loads :: "bytes \<Rightarrow> pyval res"
  zipped :: bool
  VAL_zip :: "bytes \<Rightarrow> bytes res"
  VAL_unzip :: "byte \<Rightarrow> bytes \<Rightarrow> bytes res"
  VAL_unzip0 :: "bytes \<Rightarrow> bytes res"
  pad_byte :: byte
  pad0_byte :: byte
  row_room :: bool
  min_value_size :: nat
  reserved_rate :: rat
  timestamp :: "int \<Rightarrow> int option \<Rightarrow> 64 word"
  fromtimestamp :: "64 word \<Rightarrow> int"

section \<open>Codec calls\<close>

text \<open>\<open>except ValueError\<close>; \<open>UnicodeError\<close> and \<open>JValueError\<close> are value errors.\<close>

fun as_value_error :: "'a res \<Rightarrow> 'a res" where
  "as_value_error (Inr x) = Inr x"
| "as_value_error (Inl e) = Inl (if e \<in> {ValueError, UnicodeError, JValueError} then JValueError else e)"

definition pad_value :: "val_codec \<Rightarrow> nat \<Rightarrow> bool \<Rightarrow> bytes \<Rightarrow> bytes" where
  "pad_value c max_size no_zip data =
     (let n = length data;
          size = (if max_size = 0
                  then (if reserved_rate c > 0 then max (min_value_size c) (nat (py_trunc (of_nat n * (1 + reserved_rate c))))
                        else max (min_value_size c) n)
                  else max_size)
      in if size < n then data else data @ replicate (size - n) (if no_zip then pad0_byte c else pad_byte c))"

text \<open>
  \<open>unzip\<close>: the code \<open>-1\<close> is data that was never compressed, other negative codes are
  exact compressed data, the rest is padded data.  A failure is retried with more padding.
\<close>

fun unzip_retry :: "val_codec \<Rightarrow> nat \<Rightarrow> bytes \<Rightarrow> bytes res" where
  "unzip_retry c 0 b = Inl JValueError"
| "unzip_retry c (Suc n) b =
     (case VAL_unzip0 c b of Inr u \<Rightarrow> Inr u | Inl e \<Rightarrow> unzip_retry c n (b @ [pad_byte c]))"

definition unzip :: "val_codec \<Rightarrow> int \<Rightarrow> bytes \<Rightarrow> bytes res" where
  "unzip c code b =
     (if code = -1 then Inr b
      else case (if code < 0 then VAL_unzip0 c b else VAL_unzip c (pad_byte c) b) of
             Inr u \<Rightarrow> Inr u
           | Inl e \<Rightarrow> unzip_retry c 8 (rev (dropWhile ((=) (pad_byte c)) (rev b)) @ [pad_byte c]))"

definition loads_with_unzip :: "val_codec \<Rightarrow> int \<Rightarrow> bytes \<Rightarrow> jval res" where
  "loads_with_unzip c code b =
     as_value_error (res_bind (unzip c code b) (\<lambda>u. map_sum id Plain (VAL_loads c u)))"

lemma unzip_plain [simp]: "unzip c (-1) b = Inr b"
  by (simp add: unzip_def)

section \<open>\<open>_encode_row\<close>\<close>

text \<open>Eight bytes in the order of the machine, a little-endian one.\<close>

definition le64 :: "nat \<Rightarrow> bytes" where
  "le64 n = rev (be_bytes 8 n)"

definition le_val :: "bytes \<Rightarrow> nat" where
  "le_val b = be_val (rev b)"

fun empty_code :: "pyval \<Rightarrow> nat option" where
  "empty_code VNone = Some 0"
| "empty_code (VList []) = Some 0x01"
| "empty_code (VDict []) = Some 0x02"
| "empty_code (VSet []) = Some 0x04"
| "empty_code (VTuple []) = Some 0x08"
| "empty_code (VStr []) = Some 0x10"
| "empty_code (VBytes []) = Some 0x20"
| "empty_code (VByteArray []) = Some 0x40"
| "empty_code _ = None"

definition BYTES8 :: nat where "BYTES8 = 0x08"
definition GROUP_TYPE :: nat where "GROUP_TYPE = 0x10"
definition BYTES15 :: nat where "BYTES15 = 2 ^ 56"

definition encode_bytes :: "val_codec \<Rightarrow> pyval \<Rightarrow> slot res" where
  "encode_bytes c v = res_bind (as_value_error (VAL_dumps c v)) (\<lambda>b.
     let n = length b in
     if row_room c \<and> n \<le> 15 then
       (if n \<le> 8 then Inr (Inline BYTES8 (le_val (pad_value c 8 True b)) n)
        else let b16 = pad_value c 15 True b @ [1]
             in Inr (Inline (le_val (drop 8 b16)) (le_val (take 8 b16)) n))
     else if zipped c then res_bind (VAL_zip c b) (\<lambda>z. Inr (InFile z n)) else Inr (InFile b n))"

fun encode_row :: "val_codec \<Rightarrow> jval \<Rightarrow> slot res" where
  "encode_row c (Group own path) =
     (if own then Inr (Inline GROUP_TYPE 0 0)
      else res_bind (as_value_error (VAL_dumps c (VStr path))) (\<lambda>b.
        if zipped c then res_bind (VAL_zip c b) (\<lambda>z. Inr (InFile z (length b))) else Inr (InFile b (length b))))"
| "encode_row c (Date d) = Inr (Inline 0x18 d 0)"
| "encode_row c (Stamp m z) = Inr (Inline 0x19 (unat (timestamp c m z)) 0)"
| "encode_row c (Plain v) =
     (case empty_code v of
        Some code \<Rightarrow> Inr (Inline 0 code 0)
      | None \<Rightarrow>
          (case v of
             VBool b \<Rightarrow> Inr (Inline 0x01 (if b then 1 else 0) 0)
           | VInt i \<Rightarrow>
               if i < 0 then (if - (2 ^ 63) \<le> i then Inr (Inline 0x02 (nat (i mod 2 ^ 64)) 0) else Inl StructError)
               else Inr (Inline 0x03 (nat i) 0)
           | VFloat w \<Rightarrow> Inr (Inline 0x04 (unat w) 0)
           | _ \<Rightarrow> encode_bytes c v))"

section \<open>\<open>_decode_row\<close>\<close>

definition empty_value :: "nat \<Rightarrow> pyval option" where
  "empty_value code = map_of
     [(0, VNone), (0x01, VList []), (0x02, VDict []), (0x04, VSet []), (0x08, VTuple []), (0x10, VStr []),
      (0x20, VBytes []), (0x40, VByteArray []), (0x100, VBool False), (0x200, VInt 0), (0x400, VFloat 0)] code"

text \<open>A type number no branch knows is \<open>ValueError\<close>; a group is never decoded here.\<close>

definition decode_row :: "val_codec \<Rightarrow> nat \<Rightarrow> nat \<Rightarrow> nat \<Rightarrow> jval res" where
  "decode_row c tid off vsz =
     (if tid = 0 then (case empty_value off of Some v \<Rightarrow> Inr (Plain v) | None \<Rightarrow> Inl ValueError)
      else if tid = 0x01 then Inr (Plain (VBool (off > 0)))
      else if tid = 0x02 then
        (if off < 2 ^ 64 then Inr (Plain (VInt (if off < 2 ^ 63 then int off else int off - 2 ^ 64))) else Inl StructError)
      else if tid = 0x03 then Inr (Plain (VInt (int off)))
      else if tid = 0x04 then (if off < 2 ^ 64 then Inr (Plain (VFloat (word_of_nat off))) else Inl StructError)
      else if tid = 0x08 \<or> tid = 0x09 then
        (if off < 2 ^ 64 then
           (if vsz > 0 then loads_with_unzip c (-1) (take vsz (le64 off)) else loads_with_unzip c 0 (le64 off))
         else Inl StructError)
      else if odd (tid div BYTES15) then
        (if off < 2 ^ 64 \<and> tid < 2 ^ 64 then
           (let b = le64 off @ le64 tid
            in if vsz > 0 then loads_with_unzip c (-1) (take vsz b) else loads_with_unzip c 0 (butlast b))
         else Inl StructError)
      else if tid = GROUP_TYPE then Inr (Group True [])
      else if tid = 0x18 then Inr (Date off)
      else if tid = 0x19 then (if off < 2 ^ 64 then Inr (Stamp (fromtimestamp c (word_of_nat off)) None) else Inl StructError)
      else Inl ValueError)"

section \<open>Round trip\<close>

lemma be_val_Cons: "be_val (b # bs) = unat b * 256 ^ length bs + be_val bs"
proof (induction bs rule: rev_induct)
  case (snoc x xs)
  have "be_val (b # xs @ [x]) = be_val (b # xs) * 256 + unat x"
    using be_val_snoc [of "b # xs" x] by simp
  with snoc show ?case by (simp add: algebra_simps)
qed (simp add: be_val_def)

lemma be_bytes_val: "length bs = n \<Longrightarrow> be_bytes n (be_val bs) = bs"
proof (induction bs arbitrary: n rule: rev_induct)
  case (snoc x xs)
  have "unat x div 256 = 0" using unat_byte_less [of x] by (simp del: unat_byte_less)
  with snoc show ?case by (auto simp: div_mult_self3)
qed simp

lemma le_roundtrip: "length b = 8 \<Longrightarrow> le64 (le_val b) = b"
  by (simp add: le64_def le_val_def be_bytes_val)

lemma le_val_bound: "length b = 8 \<Longrightarrow> le_val b < 2 ^ 64"
  using be_val_bound [of "rev b"] by (simp add: le_val_def)

lemma le_val_high:
  assumes "length b = 8" "last b = 1"
  shows "BYTES15 \<le> le_val b" "odd (le_val b div BYTES15)"
proof -
  define c where "c = butlast b"
  have "b \<noteq> []" using assms(1) by auto
  then have c: "b = c @ [1]" "length c = 7" using assms append_butlast_last_id [of b] by (simp_all add: c_def)
  have v: "le_val b = BYTES15 + be_val (rev c)"
    using c by (simp add: le_val_def be_val_Cons BYTES15_def)
  have "be_val (rev c) < BYTES15" using be_val_bound [of "rev c"] c by (simp add: BYTES15_def)
  then have "le_val b div BYTES15 = 1" unfolding v by (intro div_nat_eqI) simp_all
  then show "BYTES15 \<le> le_val b" "odd (le_val b div BYTES15)" by (simp_all add: v)
qed

text \<open>The values that are packed without the codec; a date with time goes through its stamp.\<close>

fun packed :: "jval \<Rightarrow> bool" where
  "packed (Plain v) = (empty_code v \<noteq> None \<or> is_number v)"
| "packed (Group own path) = own"
| "packed _ = True"

text \<open>What comes back for a value that was stored.\<close>

fun reads_back :: "val_codec \<Rightarrow> jval \<Rightarrow> jval \<Rightarrow> bool" where
  "reads_back c (Plain v) w =
     (if packed (Plain v) then w = Plain v
      else \<exists>b u. VAL_dumps c v = Inr b \<and> VAL_loads c b = Inr u \<and> w = Plain u)"
| "reads_back c (Group own path) w = (own \<and> w = Group True [])"
| "reads_back c (Stamp m z) w = (w = Stamp (fromtimestamp c (timestamp c m z)) None)"
| "reads_back c v w = (w = v)"

lemma pad_exact: "length b \<le> n \<Longrightarrow> 0 < n \<Longrightarrow> pad_value c n True b = b @ replicate (n - length b) (pad0_byte c)"
  by (simp add: pad_value_def Let_def)

lemma encode_bytes_inline:
  assumes "encode_bytes c v = Inr (Inline t n sz)"
  obtains b where "VAL_dumps c v = Inr b" "sz = length b" "length b \<le> 15"
    "n < 2 ^ 64" "t < 2 ^ 64" "t = BYTES8 \<or> odd (t div BYTES15)"
    "t = BYTES8 \<Longrightarrow> take sz (le64 n) = b" "t \<noteq> BYTES8 \<Longrightarrow> take sz (le64 n @ le64 t) = b"
proof -
  obtain b where b: "VAL_dumps c v = Inr b" "length b \<le> 15" "row_room c"
      "Inr (Inline t n sz) = (if length b \<le> 8 then Inr (Inline BYTES8 (le_val (pad_value c 8 True b)) (length b))
        else let b16 = pad_value c 15 True b @ [1]
             in Inr (Inline (le_val (drop 8 b16)) (le_val (take 8 b16)) (length b)) :: slot res)"
    using assms by (cases "VAL_dumps c v") (auto simp: encode_bytes_def Let_def split: if_splits elim!: res_bind_Inr_iff [THEN iffD1, elim_format])
  show thesis
  proof (cases "length b \<le> 8")
    case True
    define p where "p = pad_value c 8 True b"
    have p: "length p = 8" "take (length b) p = b" using True by (simp_all add: p_def pad_exact)
    have "t = BYTES8" "n = le_val p" "sz = length b" using b(4) True by (simp_all add: p_def)
    with p b le_roundtrip [OF p(1)] le_val_bound [OF p(1)] show thesis by (intro that [of b]) (simp_all add: BYTES8_def)
  next
    case False
    define p where "p = pad_value c 15 True b @ [1]"
    have p: "length p = 16" "take (length b) p = b" "last p = 1" using False b(2) by (simp_all add: p_def pad_exact)
    have e: "t = le_val (drop 8 p)" "n = le_val (take 8 p)" "sz = length b" using b(4) False by (simp_all add: p_def Let_def)
    have l: "length (take 8 p) = 8" "length (drop 8 p) = 8" "last (drop 8 p) = 1" using p by simp_all
    note hi = le_val_high [OF l(2,3)]
    have "t \<noteq> BYTES8" using hi(1) by (auto simp: e BYTES8_def BYTES15_def)
    moreover have "le64 n @ le64 t = p" using le_roundtrip l by (simp add: e)
    ultimately show thesis
      using hi le_val_bound [OF l(1)] le_val_bound [OF l(2)] p(2) b e by (intro that [of b]) simp_all
  qed
qed

lemma empty_value_code: "empty_code v = Some k \<Longrightarrow> empty_value k = Some v"
  by (cases v rule: empty_code.cases) (auto simp: empty_value_def)

lemma decode_bytes:
  assumes "encode_bytes c v = Inr (Inline t n sz)" "\<And>b. VAL_dumps c v = Inr b \<Longrightarrow> b \<noteq> [] \<and> (\<exists>u. VAL_loads c b = Inr u)"
  shows "sz \<noteq> 0 \<and> (\<exists>b u. VAL_dumps c v = Inr b \<and> VAL_loads c b = Inr u \<and> decode_row c t n sz = Inr (Plain u))"
proof -
  obtain b where b: "VAL_dumps c v = Inr b" "sz = length b" "n < 2 ^ 64" "t < 2 ^ 64" "t = BYTES8 \<or> odd (t div BYTES15)"
    "t = BYTES8 \<Longrightarrow> take sz (le64 n) = b" "t \<noteq> BYTES8 \<Longrightarrow> take sz (le64 n @ le64 t) = b"
    using encode_bytes_inline [OF assms(1)] by metis
  obtain u where u: "b \<noteq> []" "VAL_loads c b = Inr u" using assms(2) [OF b(1)] by blast
  have p: "loads_with_unzip c (-1) b = Inr (Plain u)" using u by (simp add: loads_with_unzip_def)
  have "decode_row c t n sz = Inr (Plain u)"
  proof (cases "t = BYTES8")
    case True
    with b u p show ?thesis by (simp add: decode_row_def BYTES8_def)
  next
    case False
    then have o: "odd (t div BYTES15)" using b(5) by simp
    then have "BYTES15 \<le> t" by (metis div_less even_zero not_le)
    then have "t > 0x19" by (simp add: BYTES15_def)
    with o b u p False show ?thesis by (simp add: decode_row_def)
  qed
  with b u show ?thesis by auto
qed

lemma signed_back: "- (2 ^ 63) \<le> i \<Longrightarrow> i < 0 \<Longrightarrow> i mod 2 ^ 64 = i + 2 ^ 64" for i :: int
  using mod_pos_pos_trivial [of "i + 2 ^ 64" "2 ^ 64"] by simp

lemma empty_value_0 [simp]: "decode_row c 0 k sz = (case empty_value k of Some v \<Rightarrow> Inr (Plain v) | None \<Rightarrow> Inl ValueError)"
  by (simp add: decode_row_def)

text \<open>The type numbers of bytes packed into a row.\<close>

definition byte_type :: "nat \<Rightarrow> bool" where
  "byte_type t \<longleftrightarrow> t = BYTES8 \<or> odd (t div BYTES15)"

lemma byte_type_small: "t < 0x20 \<Longrightarrow> byte_type t \<longleftrightarrow> t = 8"
  by (auto simp: byte_type_def BYTES8_def BYTES15_def)

lemma packed_decodes:
  assumes "encode_row c v = Inr (Inline t n sz)" "packed v"
  shows "\<exists>w. decode_row c t n sz = Inr w \<and> reads_back c v w \<and> sz = 0 \<and> t < 0x20 \<and> t \<noteq> 8"
proof (cases v)
  case (Plain p)
  have "sz = 0 \<and> decode_row c t n sz = Inr v \<and> t < 0x20 \<and> t \<noteq> 8"
  proof (cases "empty_code p")
    case (Some k)
    then have "t = 0 \<and> n = k \<and> sz = 0" using assms(1) by (simp add: Plain)
    then show ?thesis using empty_value_code [OF Some] by (simp add: Plain)
  next
    case None
    then have "is_number p" using assms(2) by (simp add: Plain)
    then consider (b) x where "p = VBool x" | (i) i where "p = VInt i" | (f) w where "p = VFloat w"
      by (cases p) auto
    then show ?thesis
    proof cases
      case b
      then show ?thesis using assms(1) by (cases x) (auto simp: Plain decode_row_def)
    next
      case i
      then show ?thesis using assms(1) signed_back [of i]
        by (auto simp: Plain decode_row_def split: if_splits)
    next
      case f
      then show ?thesis using assms(1) unsigned_less [of w, where ?'a = nat] by (auto simp: Plain decode_row_def)
    qed
  qed
  then show ?thesis using assms(2) by (auto simp: Plain)
next
  case (Group own path)
  then show ?thesis using assms
    by (auto simp: decode_row_def GROUP_TYPE_def BYTES15_def)
next
  case (Date d)
  then show ?thesis using assms(1) by (auto simp: decode_row_def BYTES15_def GROUP_TYPE_def)
next
  case (Stamp m z)
  then show ?thesis using assms(1) unsigned_less [of "timestamp c m z", where ?'a = nat]
    by (auto simp: decode_row_def BYTES15_def GROUP_TYPE_def)
qed

lemma inline_not_packed:
  assumes "encode_row c v = Inr (Inline t n sz)" "\<not> packed v"
  obtains p where "v = Plain p" "encode_bytes c p = Inr (Inline t n sz)"
proof (cases v)
  case (Plain p)
  then have "encode_bytes c p = Inr (Inline t n sz)" using assms by (cases p) auto
  with Plain show thesis by (rule that)
next
  case (Group own path)
  then show thesis using assms by (auto simp: res_bind_Inr_iff split: if_splits)
qed (use assms(2) in simp_all)

lemma inline_decodes:
  assumes "encode_row c v = Inr (Inline t n sz)" "\<And>p b. v = Plain p \<Longrightarrow> VAL_dumps c p = Inr b \<Longrightarrow> b \<noteq> [] \<and> (\<exists>u. VAL_loads c b = Inr u)"
  shows "\<exists>w. decode_row c t n sz = Inr w \<and> reads_back c v w \<and> (sz = 0 \<longleftrightarrow> packed v) \<and> (byte_type t \<longleftrightarrow> \<not> packed v)"
proof (cases "packed v")
  case True
  from packed_decodes [OF assms(1) this] show ?thesis using True byte_type_small by blast
next
  case False
  obtain p where p: "v = Plain p" "encode_bytes c p = Inr (Inline t n sz)"
    using inline_not_packed [OF assms(1) False] .
  have "byte_type t" using encode_bytes_inline [OF p(2)] by (auto simp: byte_type_def)
  with decode_bytes [OF p(2) assms(2) [OF p(1)]] False show ?thesis unfolding p(1) by auto
qed

text \<open>
  C40: what comes back for a value packed into its key row.  \<open>None\<close>, the empty containers,
  booleans, integers, floats, dates and the mark of a group decode to exactly the value; a
  date with time decodes to the local time of its time stamp, so its zone is gone; any other
  value was short enough for its bytes to lie in the row, and decodes to what the codec makes
  of exactly these bytes, hence to the value itself when the codec reads back what it writes.
  The type numbers tell the two groups apart: those of packed bytes are never those of another
  type, and the size in the row is zero exactly for the values that were packed without the
  codec.  (The codec writes at least one byte and reads what it wrote.)
\<close>

theorem inline_value_roundtrip:
  assumes "encode_row c v = Inr (Inline t n sz)"
    and "\<And>p b. v = Plain p \<Longrightarrow> VAL_dumps c p = Inr b \<Longrightarrow> b \<noteq> [] \<and> (\<exists>u. VAL_loads c b = Inr u)"
  shows "(packed v \<longrightarrow>
      (case v of Stamp m z \<Rightarrow> decode_row c t n sz = Inr (Stamp (fromtimestamp c (timestamp c m z)) None)
       | Group own path \<Rightarrow> decode_row c t n sz = Inr (Group True [])
       | _ \<Rightarrow> decode_row c t n sz = Inr v)) \<and>
    (\<not> packed v \<longrightarrow>
      (\<exists>p b u. v = Plain p \<and> VAL_dumps c p = Inr b \<and> length b = sz \<and> sz \<le> 15 \<and>
         VAL_loads c b = Inr u \<and> decode_row c t n sz = Inr (Plain u))) \<and>
    (sz = 0 \<longleftrightarrow> packed v) \<and> (byte_type t \<longleftrightarrow> \<not> packed v)"
proof (cases "packed v")
  case True
  from packed_decodes [OF assms(1) this] True show ?thesis
    using byte_type_small by (auto split: jval.split)
next
  case False
  obtain p where p: "v = Plain p" "encode_bytes c p = Inr (Inline t n sz)"
    using inline_not_packed [OF assms(1) False] .
  obtain b where "VAL_dumps c p = Inr b" "sz = length b" "length b \<le> 15"
    using encode_bytes_inline [OF p(2)] by metis
  with decode_bytes [OF p(2) assms(2) [OF p(1)]] inline_decodes [OF assms] False p(1)
  show ?thesis by auto
qed

definition text_codec :: val_codec where
  "text_codec = \<lparr>VAL_dumps = JIoVAL_S_dumps, VAL_loads = JIoVAL_S_loads, zipped = False, VAL_zip = Inr,
     VAL_unzip = (\<lambda>_. Inr), VAL_unzip0 = Inr, pad_byte = 0xC1, pad0_byte = 0xC1, row_room = True,
     min_value_size = 16, reserved_rate = 1 / 1000, timestamp = (\<lambda>m z. word_of_int m), fromtimestamp = uint\<rparr>"

theorem inline_value_roundtrip_witness:
  "\<exists>t n. encode_row text_codec (Plain (VStr [104, 105])) = Inr (Inline t n 3) \<and> byte_type t \<and>
     decode_row text_codec t n 3 = Inr (Plain (VStr [104, 105]))"
proof -
  have d: "VAL_dumps text_codec (VStr [104, 105]) = Inr [0xA2, 0x68, 0x69]"
    by (simp add: text_codec_def JIoVAL_S_dumps_def msg_dumps_enc utf8_encode_def scalar_def utf8_char_def
        str_header_def byte_of_def)
  have "msg_loads [0xA2, 0x68, 0x69] = Inr (VStr [104, 105])"
    using msg_roundtrip_view [of "VStr [104, 105]" "[0xA2, 0x68, 0x69]" "[]"] d
    by (simp add: text_codec_def JIoVAL_S_dumps_def)
  then have l: "VAL_loads text_codec [0xA2, 0x68, 0x69] = Inr (VStr [104, 105])"
    by (simp add: text_codec_def JIoVAL_S_loads_def numeral_eq_Suc)
  obtain t n where e: "encode_row text_codec (Plain (VStr [104, 105])) = Inr (Inline t n 3)"
    using d by (simp add: encode_bytes_def Let_def) (simp add: text_codec_def)
  have c: "b \<noteq> [] \<and> (\<exists>u. VAL_loads text_codec b = Inr u)"
    if "Plain (VStr [104, 105]) = Plain p" "VAL_dumps text_codec p = Inr b" for p b
    using that d l by auto
  from inline_value_roundtrip [OF e c] d l e show ?thesis by auto
qed
end
