(* ===== verification/Key_Table.thy ===== *)
theory Key_Table
  imports Key_Flags
begin

text \<open>
  \<open>DictKeyTable\<close> of \<open>omni_json_db/jdb_io.py\<close>, the default key table: a dictionary from
  keys to integers that pack the row of a record and its flags.  The contract the record
  operations rely on is the locale \<open>key_index\<close>.
\<close>

type_synonym key = "nat list"

definition ROW_ID_SHIFT :: nat where "ROW_ID_SHIFT = 16"

definition pack_row :: "nat \<Rightarrow> int \<Rightarrow> int" where
  "pack_row row flags = push_bit ROW_ID_SHIFT (int row) OR (flags AND KEY_FLAG_MASK)"

section \<open>Operations\<close>

type_synonym dict_table = "(key \<times> int) list"

definition table_set :: "key \<Rightarrow> nat \<Rightarrow> int \<Rightarrow> dict_table \<Rightarrow> dict_table" where
  "table_set key row flags t = assoc_set key (pack_row row flags) t"

definition table_pop :: "key \<Rightarrow> int \<Rightarrow> dict_table \<Rightarrow> int \<times> dict_table" where
  "table_pop key dflt t =
     (case map_of t key of
        None \<Rightarrow> (dflt, t)
      | Some v \<Rightarrow> (if v < 0 then dflt else drop_bit ROW_ID_SHIFT v, assoc_del key t))"

definition table_get :: "key \<Rightarrow> int \<Rightarrow> dict_table \<Rightarrow> int" where
  "table_get key dflt t =
     (case map_of t key of
        None \<Rightarrow> dflt | Some v \<Rightarrow> if v < 0 then dflt else drop_bit ROW_ID_SHIFT v)"

definition table_get_both :: "key \<Rightarrow> dict_table \<Rightarrow> int \<times> int" where
  "table_get_both key t =
     (case map_of t key of
        None \<Rightarrow> (-1, 0)
      | Some v \<Rightarrow> if v < 0 then (-1, 0) else (drop_bit ROW_ID_SHIFT v, v AND KEY_FLAG_MASK))"

definition table_contains :: "key \<Rightarrow> dict_table \<Rightarrow> bool" where
  "table_contains key t \<longleftrightarrow> table_get key (-1) t \<ge> 0"

section \<open>The contract\<close>

text \<open>
  What the operations on records need of a key table: a row and the flags of a row under
  each key, with \<open>-1\<close> for a key that is missing.
\<close>

locale key_index =
  fixes get_both :: "key \<Rightarrow> 't \<Rightarrow> int \<times> int"
    and set_row :: "key \<Rightarrow> nat \<Rightarrow> int \<Rightarrow> 't \<Rightarrow> 't"
    and pop_row :: "key \<Rightarrow> 't \<Rightarrow> 't"
    and empty_table :: 't
  assumes get_empty: "get_both k empty_table = (-1, 0)"
    and get_set: "get_both k' (set_row k row flags t) =
      (if k' = k then (int row, flags AND KEY_FLAG_MASK) else get_both k' t)"
    and get_pop: "get_both k' (pop_row k t) = (if k' = k then (-1, 0) else get_both k' t)"
begin

text \<open>A table that indexes exactly the rows of a map.\<close>

definition indexes :: "'t \<Rightarrow> (key \<Rightarrow> nat option) \<Rightarrow> bool" where
  "indexes t m \<longleftrightarrow> (\<forall>k. fst (get_both k t) = (case m k of None \<Rightarrow> -1 | Some r \<Rightarrow> int r))"

lemma indexes_empty: "indexes empty_table (\<lambda>_. None)"
  by (simp add: indexes_def get_empty)

lemma indexes_set: "indexes t m \<Longrightarrow> indexes (set_row k r f t) (m(k \<mapsto> r))"
  by (simp add: indexes_def get_set)

lemma indexes_pop: "indexes t m \<Longrightarrow> indexes (pop_row k t) (m(k := None))"
  by (simp add: indexes_def get_pop)

lemma indexes_get: "indexes t m \<Longrightarrow> fst (get_both k t) = int r \<longleftrightarrow> m k = Some r"
  by (auto simp: indexes_def split: option.splits)

lemma indexes_missing: "indexes t m \<Longrightarrow> fst (get_both k t) < 0 \<longleftrightarrow> m k = None"
  by (auto simp: indexes_def split: option.splits)

lemma indexes_unique: "indexes t m \<Longrightarrow> indexes t m' \<Longrightarrow> m = m'"
  by (rule ext) (metis indexes_get not_None_eq)

text \<open>The flags under a key are those of its last \<open>set_row\<close>, cut to the bits of a row.\<close>

lemma flags_set: "snd (get_both k (set_row k r f t)) = f AND KEY_FLAG_MASK"
  by (simp add: get_set)

end

lemma pack_row_parts [simp]:
  "drop_bit ROW_ID_SHIFT (pack_row row flags) = int row"
  "pack_row row flags AND KEY_FLAG_MASK = flags AND KEY_FLAG_MASK"
  "0 \<le> pack_row row flags" "\<not> pack_row row flags < 0"
proof -
  have m: "KEY_FLAG_MASK = mask 16" by (simp add: KEY_FLAG_MASK_def mask_numeral)
  show "drop_bit ROW_ID_SHIFT (pack_row row flags) = int row"
    by (rule bit_eqI) (auto simp: pack_row_def ROW_ID_SHIFT_def m bit_simps)
  show "pack_row row flags AND KEY_FLAG_MASK = flags AND KEY_FLAG_MASK"
    by (rule bit_eqI) (auto simp: pack_row_def ROW_ID_SHIFT_def m bit_simps)
  show p: "0 \<le> pack_row row flags" by (simp add: pack_row_def m)
  show "\<not> pack_row row flags < 0" using p by simp
qed

interpretation dict_table: key_index table_get_both table_set "\<lambda>k t. snd (table_pop k (-1) t)" "[]"
  by unfold_locales
    (auto simp: table_get_both_def table_set_def table_pop_def not_less split: option.split)

text \<open>The other readers agree with \<open>get_both\<close>.\<close>

lemma table_get_eq: "table_get k d t = (if fst (table_get_both k t) < 0 then d else fst (table_get_both k t))"
  by (auto simp: table_get_def table_get_both_def split: option.split)

lemma table_pop_eq: "fst (table_pop k d t) = table_get k d t"
  by (auto simp: table_get_def table_pop_def split: option.split)

lemma table_contains_iff: "table_contains k t \<longleftrightarrow> fst (table_get_both k t) \<ge> 0"
  by (auto simp: table_contains_def table_get_eq)

end
