(* ===== verification/Record_Store.thy ===== *)
theory Record_Store
  imports Row_Store Value_Rows Key_Table "HOL-Library.Product_Lexorder"
begin

text \<open>
  The state behind the records of \<open>omni_json_db/jdb.py\<close> and \<open>jdb_lite.py\<close>, and the steps
  their writers share.  The rows of the KEY file are a list: the first \<open>n_recs\<close> are the live
  records, the others are dead rows that hold earlier versions and free space.  Row ids are
  list positions; \<open>Row_Store\<close> shows that the bytes of the file keep such a list.
\<close>

section \<open>State\<close>

record krow =
  kr_key :: key
  kr_file :: nat
  kr_off :: nat
  kr_rsz :: nat
  kr_vsz :: nat
  kr_ver :: int
  kr_cdays :: int
  kr_mdays :: pynum
  kr_ttl :: pynum
  kr_flags :: int

text \<open>
  The settings of an open database: its codec, the clock, the \<open>JFlag\<close> bits, the cache limit,
  the rows kept for history, the windows of the search for dead rows, the largest value file,
  the write hook, whether values are compressed with gzip, \<open>randint(0, n)\<close>, and the
  comparison of values when one of them is a database.
\<close>

record settings =
  cod :: val_codec
  day_now :: int
  live_now :: pynum
  jflags :: int
  cache_limit :: int
  min_safe :: nat
  def_wsize :: nat
  window :: nat
  max_fsize :: nat
  hook :: "(key \<Rightarrow> jval \<Rightarrow> bool) option"
  gzip :: bool
  pick :: "nat \<Rightarrow> nat"
  grp_eq :: "jval \<Rightarrow> jval \<Rightarrow> bool"

text \<open>
  \<open>kcache\<close> and \<open>dcache\<close> are \<open>_KEY_rows\<close> (its row ids) and \<open>_DEAD_rows\<close>, \<open>vfiles\<close> the value
  files, \<open>fopen\<close> those open in this thread, \<open>lines0\<close> the row count at the last header, \<open>safe\<close>
  the first row that may be reused, \<open>chg\<close> the keys changed since the database was opened,
  \<open>vcache\<close> the cache of values, least recently used first, and \<open>expired\<close> the records this
  thread found expired.  A group is noted with its handle once it has one.
\<close>

record store =
  rows :: "krow list"
  n_recs :: nat
  ktab :: dict_table
  grps :: "(key \<times> jval option) list"
  kcache :: "nat list"
  dcache :: "(nat \<times> nat \<times> nat \<times> nat) list"
  vfiles :: "(nat \<times> bytes) list"
  ftab :: "(nat \<times> nat) list"
  fopen :: "nat list"
  maxv :: int
  sync :: int
  swap :: int
  remv :: int
  lines0 :: nat
  safe :: nat
  chg :: "key list"
  vcache :: "(key \<times> jval) list"
  expired :: "(nat \<times> key) list"

abbreviation lines :: "store \<Rightarrow> nat" where
  "lines s \<equiv> length (rows s)"

section \<open>Rows\<close>

text \<open>\<open>write_key\<close> completes a row before it is stored.\<close>

definition complete :: "settings \<Rightarrow> store \<Rightarrow> krow \<Rightarrow> int option \<Rightarrow> krow" where
  "complete cfg s x v =
     (let r = write_key_row (day_now cfg) (live_now cfg) (sync s) (kr_key x) (int (kr_file x)) (int (kr_off x))
                (int (kr_rsz x)) (int (kr_vsz x)) v (kr_cdays x) (kr_mdays x) (kr_ttl x) (Some (kr_flags x))
      in x\<lparr>kr_ver := (case v of None \<Rightarrow> sync s | Some n \<Rightarrow> n), kr_cdays := num_int (cdays r),
           kr_mdays := mdays r, kr_ttl := ttl r, kr_flags := kflags r\<rparr>)"

definition write_k :: "settings \<Rightarrow> nat \<Rightarrow> krow \<Rightarrow> int option \<Rightarrow> store \<Rightarrow> store" where
  "write_k cfg row x v s =
     (let s1 = s\<lparr>rows := (rows s)[row := complete cfg s x v],
                 kcache := removeAll row (kcache s), dcache := assoc_del row (dcache s)\<rparr>
      in if row < n_recs s then s1\<lparr>kcache := last_n TOTAL_KEY_ROWS (kcache s1 @ [row])\<rparr>
         else if row \<ge> n_recs s + 1 then
           s1\<lparr>dcache := last_n TOTAL_DEAD_ROWS (dcache s1 @ [(row, kr_file x, kr_off x, kr_rsz x)])\<rparr>
         else s1)"

definition read_k :: "nat \<Rightarrow> store \<Rightarrow> krow \<times> store" where
  "read_k row s =
     (let x = rows s ! row; s1 = s\<lparr>dcache := assoc_del row (dcache s)\<rparr>
      in (x, if row \<in> set (kcache s) then s1\<lparr>kcache := removeAll row (kcache s) @ [row]\<rparr>
             else if row < n_recs s then s1\<lparr>kcache := last_n TOTAL_KEY_ROWS (kcache s @ [row])\<rparr>
             else s1\<lparr>dcache := last_n TOTAL_DEAD_ROWS (dcache s1 @ [(row, kr_file x, kr_off x, kr_rsz x)])\<rparr>))"

definition copy_k :: "nat \<Rightarrow> nat \<Rightarrow> store \<Rightarrow> store" where
  "copy_k src dst s =
     s\<lparr>rows := (rows s)[dst := rows s ! src], kcache := removeAll dst (kcache s), dcache := assoc_del dst (dcache s)\<rparr>"

text \<open>\<open>io.n_lines += 1\<close>: the new row has no content until it is written.\<close>

definition blank :: krow where
  "blank = \<lparr>kr_key = [], kr_file = 0, kr_off = 0, kr_rsz = 0, kr_vsz = 0, kr_ver = 0, kr_cdays = 0,
     kr_mdays = PI 0, kr_ttl = PI 0, kr_flags = 0\<rparr>"

definition add_line :: "store \<Rightarrow> store" where
  "add_line s = s\<lparr>rows := rows s @ [blank]\<rparr>"

definition SYNC_MASK :: int where "SYNC_MASK = 0x7FFFFFFFFFF"

definition next_sync :: "store \<Rightarrow> store" where
  "next_sync s = s\<lparr>sync := (sync s + 1) AND SYNC_MASK\<rparr>"

text \<open>\<open>DictKeyTable.set\<close>, which also notes a group.\<close>

definition set_key :: "key \<Rightarrow> nat \<Rightarrow> int \<Rightarrow> store \<Rightarrow> store" where
  "set_key k row fl s =
     s\<lparr>ktab := table_set k row fl (ktab s),
       grps := (if fl AND KF_GROUP \<noteq> 0 \<and> row < n_recs s \<and> k \<notin> fst ` set (grps s)
                then grps s @ [(k, None)] else grps s)\<rparr>"

definition pop_key :: "key \<Rightarrow> store \<Rightarrow> store" where
  "pop_key k s = s\<lparr>ktab := snd (table_pop k (-1) (ktab s))\<rparr>"

section \<open>Value files\<close>

definition vfile :: "store \<Rightarrow> nat \<Rightarrow> bytes" where
  "vfile s f = (case map_of (vfiles s) f of None \<Rightarrow> [] | Some b \<Rightarrow> b)"

definition used :: "store \<Rightarrow> nat \<Rightarrow> nat" where
  "used s f = (case map_of (ftab s) f of None \<Rightarrow> 0 | Some n \<Rightarrow> n)"

definition bytes_put :: "nat \<Rightarrow> bytes \<Rightarrow> bytes \<Rightarrow> bytes" where
  "bytes_put p d b = take p (b @ replicate (p - length b) 0) @ d @ drop (p + length d) b"

definition put_value :: "nat \<Rightarrow> nat \<Rightarrow> bytes \<Rightarrow> store \<Rightarrow> store" where
  "put_value f p d s = s\<lparr>vfiles := assoc_set f (bytes_put p d (vfile s f)) (vfiles s)\<rparr>"

definition note_used :: "nat \<Rightarrow> nat \<Rightarrow> store \<Rightarrow> store" where
  "note_used f n s = s\<lparr>ftab := assoc_set f (max (used s f) n) (ftab s)\<rparr>"

text \<open>\<open>f_get_val_fp\<close>: the search for a file with room, newest first.\<close>

function pick_file :: "nat \<Rightarrow> nat \<Rightarrow> nat \<Rightarrow> store \<Rightarrow> nat \<Rightarrow> nat \<times> nat" where
  "pick_file limit req step s f =
     (if used s f + req \<le> limit then (f, used s f)
      else if f < step \<or> step = 0 then (length (ftab s), 0)
      else pick_file limit req step s (f - step))"
  by auto
termination by (relation "measure (\<lambda>(limit, req, step, s, f). f)") auto

declare pick_file.simps [simp del]

definition MAX_FP :: nat where "MAX_FP = 32"

fun close_extra :: "nat \<Rightarrow> nat list \<Rightarrow> store \<Rightarrow> store" where
  "close_extra (Suc n) (f # fs) s =
     close_extra n fs (s\<lparr>maxv := max (maxv s) (int f + 1),
       ftab := assoc_set f (max (used s f) (length (vfile s f))) (ftab s), fopen := removeAll f (fopen s)\<rparr>)"
| "close_extra n fs s = s"

definition get_val_fp :: "settings \<Rightarrow> nat option \<Rightarrow> nat \<Rightarrow> store \<Rightarrow> (nat \<times> nat) \<times> store" where
  "get_val_fp cfg fid req s =
     (let (f, off) = (case fid of
            Some f \<Rightarrow> (f, used s f)
          | None \<Rightarrow> pick_file (max_fsize cfg) req (max 1 (length (ftab s) div 4)) s (length (ftab s) - 1))
      in if f \<in> set (fopen s) then ((f, off), s)
         else
           let s1 = close_extra (length (fopen s) + 1 - MAX_FP) (fopen s) s
           in case map_of (vfiles s1) f of
                None \<Rightarrow> ((f, off), s1\<lparr>vfiles := assoc_set f [] (vfiles s1), fopen := fopen s1 @ [f]\<rparr>)
              | Some b \<Rightarrow>
                  (let n = length b; s2 = s1\<lparr>fopen := fopen s1 @ [f]\<rparr>
                   in if n \<ge> off then ((f, n), s2\<lparr>ftab := assoc_set f n (ftab s2)\<rparr>) else ((f, off), s2)))"

section \<open>Dead rows\<close>

text \<open>\<open>JIo.get_dead_row\<close>: the smallest fitting entry of the cache of dead rows.\<close>

definition fits :: "nat \<Rightarrow> nat \<Rightarrow> bool" where
  "fits req z \<longleftrightarrow> req = z \<and> z = 0 \<or> z \<ge> req \<and> req > 0"

fun match_dead :: "nat \<Rightarrow> nat \<Rightarrow> (nat \<times> nat \<times> nat \<times> nat) list \<Rightarrow> (nat \<times> nat \<times> nat \<times> nat) list" where
  "match_dead low req [] = []"
| "match_dead low req ((r, f, p, z) # ds) =
     (if r \<ge> low \<and> fits req z then
        (z, f, p, r) # (if z = req then [] else match_dead low req ds)
      else match_dead low req ds)"

fun stale_dead :: "nat \<Rightarrow> nat \<Rightarrow> nat \<Rightarrow> (nat \<times> nat \<times> nat \<times> nat) list \<Rightarrow> nat list" where
  "stale_dead n low req [] = []"
| "stale_dead n low req ((r, f, p, z) # ds) =
     (if r \<ge> low then (if fits req z \<and> z = req then [] else stale_dead n low req ds)
      else (if r < n then [r] else []) @ stale_dead n low req ds)"

definition get_dead_row :: "nat \<Rightarrow> nat \<Rightarrow> store \<Rightarrow> (nat \<times> nat \<times> nat \<times> nat) option \<times> store" where
  "get_dead_row low req s =
     (let ms = match_dead low req (dcache s);
          ds = filter (\<lambda>p. fst p \<notin> set (stale_dead (n_recs s) low req (dcache s))) (dcache s)
      in if ms = [] then (None, s\<lparr>dcache := ds\<rparr>)
         else (case Min (set ms) of (z, f, p, r) \<Rightarrow> (Some (r, f, p, z), s\<lparr>dcache := assoc_del r ds\<rparr>)))"

text \<open>A dead row longer than needed is split; the rest goes to the row \<open>ext\<close>.\<close>

definition split_size :: "settings \<Rightarrow> nat \<Rightarrow> nat" where
  "split_size cfg req = max (min_value_size (cod cfg)) (nat (py_trunc (of_nat req * (1 + reserved_rate (cod cfg)))))"

definition free_row :: "nat \<Rightarrow> nat \<Rightarrow> nat \<Rightarrow> krow" where
  "free_row f p z = blank\<lparr>kr_file := f, kr_off := p, kr_rsz := z, kr_cdays := -1, kr_mdays := PI (-1)\<rparr>"

definition split_dead :: "settings \<Rightarrow> int \<Rightarrow> nat \<Rightarrow> nat option \<Rightarrow> nat \<times> nat \<times> nat \<times> nat \<Rightarrow> store
    \<Rightarrow> (nat \<times> nat \<times> nat \<times> nat) \<times> store" where
  "split_dead cfg fl req ext = (\<lambda>(r, f, p, z) s.
     let sz = split_size cfg req
     in if F_SPLIT AND fl \<noteq> 0 \<and> z \<ge> sz + max 64 (min_value_size (cod cfg)) then
          (let (e, s1) = (case ext of None \<Rightarrow> (lines s, add_line s) | Some e \<Rightarrow> (e, s));
               s2 = write_k cfg e (free_row f (p + sz) (z - sz)) (Some 0) s1
           in ((r, f, p, sz), write_k cfg r (free_row f p sz) (Some 0) s2))
        else ((r, f, p, z), s))"

text \<open>The scan of a window of dead rows, from its end; a row without space is noted for the split.\<close>

fun scan_dead :: "krow list \<Rightarrow> nat \<Rightarrow> nat list \<Rightarrow> nat option \<Rightarrow> (nat \<times> nat option) option" where
  "scan_dead xs req [] ext = None"
| "scan_dead xs req (i # is) ext =
     (if req = 0 then (if kr_rsz (xs ! i) = 0 then Some (i, ext) else scan_dead xs req is ext)
      else if kr_rsz (xs ! i) \<ge> req then Some (i, ext)
      else scan_dead xs req is (if kr_rsz (xs ! i) = 0 then Some i else ext))"

text \<open>The first row the writer may take, and the mark that keeps this key's version.\<close>

definition dead_region :: "settings \<Rightarrow> int \<Rightarrow> key \<Rightarrow> store \<Rightarrow> nat \<times> store" where
  "dead_region cfg fl key s =
     (if F_REVERT AND fl \<noteq> 0 then
        (let line = min (max (safe s) (n_recs s + min_safe cfg)) (lines s)
         in (line, if key \<in> set (chg s) then s else s\<lparr>chg := key # chg s, safe := line + 1\<rparr>))
      else (n_recs s, s))"

definition find_dead :: "settings \<Rightarrow> int \<Rightarrow> nat option \<Rightarrow> key \<Rightarrow> nat \<Rightarrow> store
    \<Rightarrow> nat \<times> (nat \<times> nat \<times> nat \<times> nat) option \<times> store" where
  "find_dead cfg fl wsize key req s =
     (let (line, s) = dead_region cfg fl key s; n = lines s
      in if n \<le> line then (line, None, s)
         else
           let (c, s) = get_dead_row line req s
           in case (case c of None \<Rightarrow> None | Some (r, f, p, z) \<Rightarrow> if line \<le> r \<and> r < n then c else None) of
                Some d \<Rightarrow>
                  (let (d, s) = (if 0 < req then split_dead cfg fl req None d s else (d, s)) in (line, Some d, s))
              | None \<Rightarrow>
                  (let w = min (case wsize of None \<Rightarrow> def_wsize cfg | Some w \<Rightarrow> w) (window cfg)
                   in if (case wsize of None \<Rightarrow> def_wsize cfg | Some w \<Rightarrow> w) = 0 then (line, None, s)
                      else
                        let start = line + pick cfg ((n - line) div w) * w; stop = min n (start + w)
                        in case scan_dead (rows s) req (rev [start..<stop]) None of
                             None \<Rightarrow> (line, None, s)
                           | Some (r, ext) \<Rightarrow>
                               (let d = (r, kr_file (rows s ! r), kr_off (rows s ! r), kr_rsz (rows s ! r));
                                    (d, s) = (if 0 < req then split_dead cfg fl req ext d s else (d, s))
                                in (line, Some d, s))))"

section \<open>Making room\<close>

text \<open>
  Every writer that keeps the previous version frees the first dead row: it takes a dead row
  or a new one and moves the first dead row there.
\<close>

definition claim_header :: "settings \<Rightarrow> int \<Rightarrow> nat option \<Rightarrow> key \<Rightarrow> store \<Rightarrow> nat \<times> store" where
  "claim_header cfg fl wsize key s =
     (let (line, c, s) = find_dead cfg fl wsize key 0 s;
          (d, s) = (case c of None \<Rightarrow> (lines s, add_line s) | Some (r, f, p, z) \<Rightarrow> (r, s))
      in (line, if d > line then copy_k line d s else s))"

definition claim_value :: "settings \<Rightarrow> int \<Rightarrow> nat option \<Rightarrow> key \<Rightarrow> bytes \<Rightarrow> store
    \<Rightarrow> nat \<times> (nat \<times> nat \<times> nat) \<times> store" where
  "claim_value cfg fl wsize key data s =
     (let (line, c, s) = find_dead cfg fl wsize key (length data) s;
          (d, f, p, z, data, s) = (case c of
              None \<Rightarrow>
                (let d = lines s; data = pad_value (cod cfg) 0 False data;
                     ((f, p), s) = get_val_fp cfg None (length data) (add_line s)
                 in (d, f, p, length data, data, s))
            | Some (r, f, p, z) \<Rightarrow>
                (let (_, s) = get_val_fp cfg (Some f) (min_value_size (cod cfg)) s in (r, f, p, z, data, s)));
          s = put_value f p data s
      in (line, (f, p, z), if d > line then copy_k line d s else s))"

end
