(* ===== verification/Record_Space.thy ===== *)
theory Record_Space
  imports Record_Store
begin

text \<open>
  The space of the value files: every row owns the bytes it points to, rows never share a
  byte, and moving rows about keeps that so.
\<close>

section \<open>Rows own disjoint bytes\<close>

definition cells :: "krow \<Rightarrow> (nat \<times> nat) set" where
  "cells x = {kr_file x} \<times> {kr_off x ..< kr_off x + kr_rsz x}"

definition disjoint_rows :: "krow list \<Rightarrow> bool" where
  "disjoint_rows xs \<longleftrightarrow>
     (\<forall>i < length xs. \<forall>j < length xs. i \<noteq> j \<longrightarrow> cells (xs ! i) \<inter> cells (xs ! j) = {})"

lemma cells_empty [simp]: "kr_rsz x = 0 \<Longrightarrow> cells x = {}"
  by (simp add: cells_def)

lemma disjoint_rowsD:
  "disjoint_rows xs \<Longrightarrow> i < length xs \<Longrightarrow> j < length xs \<Longrightarrow> i \<noteq> j \<Longrightarrow> cells (xs ! i) \<inter> cells (xs ! j) = {}"
  by (simp add: disjoint_rows_def)

text \<open>If every row of \<open>ys\<close> lies inside a row of \<open>xs\<close> of its own, nothing can overlap.\<close>

lemma disjoint_nested:
  assumes "disjoint_rows xs" "inj_on src {..<length ys}"
    and "\<And>i. i < length ys \<Longrightarrow> src i < length xs \<and> cells (ys ! i) \<subseteq> cells (xs ! src i)"
  shows "disjoint_rows ys"
  unfolding disjoint_rows_def
proof (intro allI impI)
  fix i j assume i: "i < length ys" "j < length ys" "i \<noteq> j"
  then have "src i \<noteq> src j" using assms(2) by (auto simp: inj_on_def)
  then have "cells (xs ! src i) \<inter> cells (xs ! src j) = {}"
    using assms(1,3) i by (intro disjoint_rowsD) auto
  then show "cells (ys ! i) \<inter> cells (ys ! j) = {}" using assms(3) i by blast
qed

lemma disjoint_update:
  assumes "disjoint_rows xs" "d < length xs \<Longrightarrow> cells y \<subseteq> cells (xs ! d)"
  shows "disjoint_rows (xs[d := y])"
proof (rule disjoint_nested [OF assms(1), of id])
  show "id i < length xs \<and> cells (xs[d := y] ! i) \<subseteq> cells (xs ! id i)" if "i < length (xs[d := y])" for i
    using that assms(2) by (cases "i = d") simp_all
qed simp

lemma disjoint_snoc:
  assumes "disjoint_rows xs" "\<And>x. x \<in> set xs \<Longrightarrow> cells x \<inter> cells y = {}"
  shows "disjoint_rows (xs @ [y])"
  unfolding disjoint_rows_def
proof (intro allI impI)
  fix i j assume "i < length (xs @ [y])" "j < length (xs @ [y])" "i \<noteq> j"
  then consider "i < length xs" "j < length xs" "i \<noteq> j" | "i < length xs" "j = length xs" | "i = length xs" "j < length xs"
    by fastforce
  then show "cells ((xs @ [y]) ! i) \<inter> cells ((xs @ [y]) ! j) = {}"
    using disjoint_rowsD [OF assms(1)] assms(2) [OF nth_mem] by cases (simp_all add: nth_append Int_commute)
qed

text \<open>
  The one pattern of all operations: row \<open>l\<close> moves to \<open>d\<close>, something of row \<open>r\<close> goes to
  \<open>l\<close>, and \<open>r\<close> gets what lay at \<open>d\<close>.
\<close>

definition rotated :: "krow list \<Rightarrow> nat \<Rightarrow> nat \<Rightarrow> nat \<Rightarrow> krow \<Rightarrow> krow \<Rightarrow> krow list" where
  "rotated xs r l d old new = xs[d := xs ! l, l := old, r := new]"

lemma length_rotated [simp]: "length (rotated xs r l d old new) = length xs"
  by (simp add: rotated_def)

lemma nth_rotated:
  "i < length xs \<Longrightarrow> rotated xs r l d old new ! i =
     (if i = r then new else if i = l then old else if i = d then xs ! l else xs ! i)"
  by (simp add: rotated_def nth_list_update)

lemma set_rotated: "l < length xs \<Longrightarrow> set (rotated xs r l d old new) \<subseteq> {old, new} \<union> set xs"
  using set_update_subset_insert [of xs d "xs ! l"] set_update_subset_insert [of "xs[d := xs ! l]" l old]
    set_update_subset_insert [of "xs[d := xs ! l, l := old]" r new] nth_mem [of l xs]
  unfolding rotated_def by blast

lemma disjoint_rotated:
  assumes "disjoint_rows (xs[d := new])" "r < length xs" "l < length xs" "d < length xs" "r = d \<Longrightarrow> l = r"
    and "l \<noteq> r \<Longrightarrow> cells old \<subseteq> cells (xs ! r)"
  shows "disjoint_rows (rotated xs r l d old new)"
proof (rule disjoint_nested [OF assms(1)])
  let ?src = "\<lambda>i. if i = r then d else if i = l then r else if i = d then l else i"
  show "inj_on ?src {..<length (rotated xs r l d old new)}"
  proof (rule inj_onI)
    fix i j assume "?src i = ?src j"
    then show "i = j" using assms(5) by (cases "r = d") (simp_all split: if_splits)
  qed
  fix i assume "i < length (rotated xs r l d old new)"
  then have i: "i < length xs" by simp
  consider "i = r" | "i \<noteq> r" "i = l" | "i \<noteq> r" "i \<noteq> l" "i = d" | "i \<noteq> r" "i \<noteq> l" "i \<noteq> d" by blast
  then show "?src i < length (xs[d := new]) \<and> cells (rotated xs r l d old new ! i) \<subseteq> cells (xs[d := new] ! ?src i)"
  proof cases
    case 2
    then have "r \<noteq> d" using assms(5) by auto
    with 2 assms i show ?thesis by (simp add: nth_rotated)
  qed (use assms i in \<open>simp_all add: nth_rotated\<close>)
qed

text \<open>A dead row that is split.\<close>

lemma disjoint_split:
  assumes "disjoint_rows xs" "r < length xs" "e < length xs" "e \<noteq> r"
    and "cells lo \<subseteq> cells (xs ! r)" "cells hi \<subseteq> cells (xs ! r)" "cells lo \<inter> cells hi = {}"
  shows "disjoint_rows (xs[e := hi, r := lo])"
  unfolding disjoint_rows_def
proof (intro allI impI)
  fix i j assume "i < length (xs[e := hi, r := lo])" "j < length (xs[e := hi, r := lo])" and ij: "i \<noteq> j"
  then have b: "i < length xs" "j < length xs" by simp_all
  have r: "cells (xs ! k) \<inter> cells (xs ! r) = {}" if "k < length xs" "k \<noteq> r" for k
    using disjoint_rowsD [OF assms(1)] that assms(2) by blast
  have c: "cells (xs[e := hi, r := lo] ! k) \<subseteq> (if k = r then cells lo else if k = e then cells hi else cells (xs ! k))"
    if "k < length xs" for k using that assms(4) by (auto simp: nth_list_update)
  have "(if i = r then cells lo else if i = e then cells hi else cells (xs ! i)) \<inter>
      (if j = r then cells lo else if j = e then cells hi else cells (xs ! j)) = {}"
    using ij assms(5-7) r [OF b(1)] r [OF b(2)] disjoint_rowsD [OF assms(1) b ij] by (simp split: if_split) blast
  then show "cells (xs[e := hi, r := lo] ! i) \<inter> cells (xs[e := hi, r := lo] ! j) = {}"
    using c [OF b(1)] c [OF b(2)] by blast
qed

section \<open>The invariants\<close>

definition row_ok :: "store \<Rightarrow> krow \<Rightarrow> bool" where
  "row_ok s x \<longleftrightarrow> 0 < kr_rsz x \<longrightarrow> kr_vsz x \<le> kr_rsz x \<and> kr_off x + kr_rsz x \<le> used s (kr_file x) \<and>
     kr_off x + kr_rsz x \<le> length (vfile s (kr_file x))"

definition space_ok :: "store \<Rightarrow> bool" where
  "space_ok s \<longleftrightarrow> disjoint_rows (rows s) \<and> (\<forall>x \<in> set (rows s). row_ok s x)"

definition files_ok :: "store \<Rightarrow> bool" where
  "files_ok s \<longleftrightarrow> fst ` set (ftab s) = {..<length (ftab s)} \<and> set (fopen s) \<subseteq> fst ` set (ftab s)"

definition dcache_ok :: "store \<Rightarrow> bool" where
  "dcache_ok s \<longleftrightarrow> (\<forall>(r, f, p, z) \<in> set (dcache s). r < lines s \<and>
     kr_file (rows s ! r) = f \<and> kr_off (rows s ! r) = p \<and> kr_rsz (rows s ! r) = z)"

text \<open>The content of a row: its inline fields, or its bytes.\<close>

datatype content = Fields nat nat nat | Data bytes

definition content :: "store \<Rightarrow> krow \<Rightarrow> content" where
  "content s x =
     (if kr_rsz x = 0 then Fields (kr_file x) (kr_off x) (kr_vsz x)
      else Data (take (kr_vsz x) (drop (kr_off x) (vfile s (kr_file x)))))"

section \<open>Bytes\<close>

lemma length_bytes_put [simp]: "length (bytes_put p d b) = max (length b) (p + length d)"
  by (simp add: bytes_put_def)

lemma bytes_put_there: "n \<le> length d \<Longrightarrow> take n (drop p (bytes_put p d b)) = take n d"
  by (simp add: bytes_put_def)

lemma bytes_put_elsewhere:
  assumes "q + n \<le> length b" "{q ..< q + n} \<inter> {p ..< p + length d} = {}"
  shows "take n (drop q (bytes_put p d b)) = take n (drop q b)"
proof (rule nth_equalityI)
  show "length (take n (drop q (bytes_put p d b))) = length (take n (drop q b))" using assms(1) by simp
  fix i assume "i < length (take n (drop q (bytes_put p d b)))"
  then have i: "i < n" by simp
  then have "q + i \<notin> {p ..< p + length d}" using assms(2) by auto
  then have "bytes_put p d b ! (q + i) = b ! (q + i)"
    using assms(1) i by (auto simp: bytes_put_def nth_append)
  then show "take n (drop q (bytes_put p d b)) ! i = take n (drop q b) ! i" using i assms(1) by simp
qed

text \<open>The same as a seek and a write on the stream.\<close>

lemma bytes_put_stream: "d \<noteq> [] \<Longrightarrow> buf (write_at p d fp) = bytes_put p d (buf fp)"
  by (simp add: write_at_def seek_to_def stream_write_eq bytes_put_def)

lemma vfile_put: "vfile (put_value f p d s) g = (if g = f then bytes_put p d (vfile s f) else vfile s g)"
  by (simp add: vfile_def put_value_def)

lemma put_value_more [simp]:
  "rows (put_value f p d s) = rows s" "ftab (put_value f p d s) = ftab s" "fopen (put_value f p d s) = fopen s"
  "dcache (put_value f p d s) = dcache s" "used (put_value f p d s) = used s"
  by (simp_all add: put_value_def used_def fun_eq_iff)

lemma content_put:
  assumes "row_ok s x" "cells x \<inter> {f} \<times> {p ..< p + length d} = {}"
  shows "content (put_value f p d s) x = content s x"
proof (cases "kr_file x = f \<and> 0 < kr_rsz x")
  case True
  have "{kr_off x ..< kr_off x + kr_rsz x} \<inter> {p ..< p + length d} = {}"
  proof (rule equals0I)
    fix z assume "z \<in> {kr_off x ..< kr_off x + kr_rsz x} \<inter> {p ..< p + length d}"
    then have "(f, z) \<in> cells x \<inter> {f} \<times> {p ..< p + length d}" using True by (simp add: cells_def)
    then show False using assms(2) by blast
  qed
  then have "{kr_off x ..< kr_off x + kr_vsz x} \<inter> {p ..< p + length d} = {}"
    using assms(1) True by (fastforce simp: row_ok_def)
  then show ?thesis using True assms(1) bytes_put_elsewhere [of "kr_off x" "kr_vsz x" "vfile s f" p d]
    by (simp add: content_def vfile_put row_ok_def)
qed (auto simp: content_def vfile_put)

end
