(* ===== verification/Record_Claim.thy ===== *)
theory Record_Claim
  imports Record_Space
begin

text \<open>
  Reusing dead rows: \<open>_get_dead_row\<close> finds a row that fits, behind the rows it must keep,
  and splits it without losing a byte; what the writers claim is theirs alone.
\<close>

section \<open>Rows and the fields they leave alone\<close>

lemma complete_simps [simp]:
  "kr_key (complete cfg s x v) = kr_key x" "kr_file (complete cfg s x v) = kr_file x"
  "kr_off (complete cfg s x v) = kr_off x" "kr_rsz (complete cfg s x v) = kr_rsz x"
  "kr_vsz (complete cfg s x v) = kr_vsz x"
  by (simp_all add: complete_def Let_def)

lemma cells_complete [simp]: "cells (complete cfg s x v) = cells x"
  by (simp add: cells_def)

text \<open>The search for dead rows touches only rows, their caches, and the marks of history.\<close>

definition same_data :: "store \<Rightarrow> store \<Rightarrow> bool" where
  "same_data s s' \<longleftrightarrow> n_recs s' = n_recs s \<and> ktab s' = ktab s \<and> grps s' = grps s \<and> vfiles s' = vfiles s \<and>
     ftab s' = ftab s \<and> fopen s' = fopen s \<and> maxv s' = maxv s \<and> sync s' = sync s \<and> swap s' = swap s \<and>
     remv s' = remv s \<and> lines0 s' = lines0 s \<and> vcache s' = vcache s"

lemma same_data_refl [simp]: "same_data s s"
  by (simp add: same_data_def)

lemma same_data_trans: "same_data a b \<Longrightarrow> same_data b c \<Longrightarrow> same_data a c"
  by (simp add: same_data_def)

lemma same_dataD:
  assumes "same_data s s'"
  shows "n_recs s' = n_recs s" "ktab s' = ktab s" "grps s' = grps s" "vfiles s' = vfiles s" "ftab s' = ftab s"
    "fopen s' = fopen s" "maxv s' = maxv s" "sync s' = sync s" "swap s' = swap s" "remv s' = remv s"
    "lines0 s' = lines0 s" "vcache s' = vcache s" "used s' = used s" "vfile s' = vfile s"
    "row_ok s' = row_ok s" "content s' = content s"
  using assms by (auto simp: same_data_def used_def vfile_def row_ok_def content_def fun_eq_iff)

lemma write_k_same [simp]: "same_data s (write_k cfg row x v s)"
  by (simp add: write_k_def Let_def same_data_def)

lemma copy_k_same [simp]: "same_data s (copy_k a b s)"
  by (simp add: copy_k_def same_data_def)

lemma add_line_same [simp]: "same_data s (add_line s)"
  by (simp add: add_line_def same_data_def)

lemma read_k_simps [simp]:
  "fst (read_k row s) = rows s ! row" "same_data s (snd (read_k row s))" "rows (snd (read_k row s)) = rows s"
  "chg (snd (read_k row s)) = chg s" "safe (snd (read_k row s)) = safe s"
  by (simp_all add: read_k_def Let_def same_data_def)

lemma rows_write_k [simp]: "rows (write_k cfg row x v s) = (rows s)[row := complete cfg s x v]"
  by (simp add: write_k_def Let_def)

lemma rows_copy_k [simp]: "rows (copy_k a b s) = (rows s)[b := rows s ! a]"
  by (simp add: copy_k_def)

lemma rows_add_line [simp]: "rows (add_line s) = rows s @ [blank]"
  by (simp add: add_line_def)

lemma marks_simps [simp]:
  "chg (write_k cfg row x v s) = chg s" "safe (write_k cfg row x v s) = safe s"
  "chg (copy_k a b s) = chg s" "safe (copy_k a b s) = safe s" "chg (add_line s) = chg s" "safe (add_line s) = safe s"
  by (simp_all add: write_k_def copy_k_def add_line_def Let_def)

section \<open>The cache of dead rows\<close>

lemma dcache_ok_subset:
  "dcache_ok s \<Longrightarrow> rows s' = rows s \<Longrightarrow> set (dcache s') \<subseteq> set (dcache s) \<Longrightarrow> dcache_ok s'"
  unfolding dcache_ok_def by auto

lemma set_assoc_del: "set (assoc_del k al) = {p \<in> set al. fst p \<noteq> k}"
  by (simp add: assoc_del_def)

lemma dcache_write_k:
  "set (dcache (write_k cfg row x v s)) \<subseteq>
     insert (row, kr_file x, kr_off x, kr_rsz x) {p \<in> set (dcache s). fst p \<noteq> row}"
  using set_last_n [of TOTAL_DEAD_ROWS "assoc_del row (dcache s) @ [(row, kr_file x, kr_off x, kr_rsz x)]"]
  by (auto simp: write_k_def Let_def set_assoc_del)

lemma dcache_ok_write_k:
  assumes "dcache_ok s" "row < lines s"
  shows "dcache_ok (write_k cfg row x v s)"
  unfolding dcache_ok_def
proof clarify
  fix r f p z assume a: "(r, f, p, z) \<in> set (dcache (write_k cfg row x v s))"
  then consider "r = row" "f = kr_file x" "p = kr_off x" "z = kr_rsz x" | "(r, f, p, z) \<in> set (dcache s)" "r \<noteq> row"
    using dcache_write_k [of cfg row x v s] by auto
  then show "r < lines (write_k cfg row x v s) \<and> kr_file (rows (write_k cfg row x v s) ! r) = f \<and>
      kr_off (rows (write_k cfg row x v s) ! r) = p \<and> kr_rsz (rows (write_k cfg row x v s) ! r) = z"
    using assms by cases (auto simp: dcache_ok_def)
qed

lemma dcache_ok_copy_k: "dcache_ok s \<Longrightarrow> dcache_ok (copy_k a b s)"
  by (auto simp: dcache_ok_def copy_k_def set_assoc_del)

lemma dcache_ok_add_line: "dcache_ok s \<Longrightarrow> dcache_ok (add_line s)"
  by (fastforce simp: dcache_ok_def add_line_def nth_append)

section \<open>The search\<close>

lemma match_dead_sound:
  "(z, f, p, r) \<in> set (match_dead low req ds) \<Longrightarrow> (r, f, p, z) \<in> set ds \<and> low \<le> r \<and> fits req z"
  by (induction low req ds rule: match_dead.induct) (auto split: if_splits)

lemma get_dead_row_spec:
  assumes "get_dead_row low req s = (c, s')" "dcache_ok s"
  shows "same_data s s'" "rows s' = rows s" "chg s' = chg s" "safe s' = safe s" "dcache_ok s'"
    and "c = Some (r, f, p, z) \<Longrightarrow> low \<le> r \<and> r < lines s \<and> fits req z \<and>
      f = kr_file (rows s ! r) \<and> p = kr_off (rows s ! r) \<and> z = kr_rsz (rows s ! r)"
proof -
  let ?ms = "match_dead low req (dcache s)"
  have e: "s' = s\<lparr>dcache := dcache s'\<rparr>" "set (dcache s') \<subseteq> set (dcache s)"
    using assms(1) by (auto simp: get_dead_row_def Let_def set_assoc_del split: if_splits prod.splits)
  show r: "rows s' = rows s" and "same_data s s'" "chg s' = chg s" "safe s' = safe s"
    by (subst e(1), simp add: same_data_def)+
  show "dcache_ok s'" by (rule dcache_ok_subset [OF assms(2) r e(2)])
  assume "c = Some (r, f, p, z)"
  then have "Min (set ?ms) = (z, f, p, r)" "?ms \<noteq> []"
    using assms(1) by (auto simp: get_dead_row_def Let_def split: if_splits prod.splits)
  then have "(z, f, p, r) \<in> set ?ms" by (metis Min_in finite_set set_empty)
  from match_dead_sound [OF this] assms(2) show "low \<le> r \<and> r < lines s \<and> fits req z \<and>
      f = kr_file (rows s ! r) \<and> p = kr_off (rows s ! r) \<and> z = kr_rsz (rows s ! r)"
    by (auto simp: dcache_ok_def)
qed

lemma scan_dead_spec:
  assumes "scan_dead xs req is ext = Some (r, ext')" "sorted_wrt (>) is"
    and "\<And>e. ext = Some e \<Longrightarrow> kr_rsz (xs ! e) = 0 \<and> (\<forall>i \<in> set is. i < e)"
  shows "r \<in> set is \<and> (fits req (kr_rsz (xs ! r)) \<and>
    (\<forall>e. ext' = Some e \<longrightarrow> (e \<in> set is \<or> ext = Some e) \<and> e \<noteq> r \<and> kr_rsz (xs ! e) = 0))"
  using assms
proof (induction "is" arbitrary: ext)
  case (Cons i "is")
  show ?case
  proof (cases "req = 0 \<and> kr_rsz (xs ! i) = 0 \<or> 0 < req \<and> req \<le> kr_rsz (xs ! i)")
    case True
    then have "r = i" "ext' = ext" using Cons.prems(1) by auto
    with True Cons.prems(3) show ?thesis by (auto simp: fits_def)
  next
    case False
    define ext1 where "ext1 = (if req \<noteq> 0 \<and> kr_rsz (xs ! i) = 0 then Some i else ext)"
    have "scan_dead xs req is ext1 = Some (r, ext')"
      using False Cons.prems(1) by (auto simp: ext1_def split: if_splits)
    moreover have "kr_rsz (xs ! e) = 0 \<and> (\<forall>i \<in> set is. i < e)" if "ext1 = Some e" for e
      using that Cons.prems(2,3) by (auto simp: ext1_def split: if_splits)
    ultimately have "r \<in> set is \<and> (fits req (kr_rsz (xs ! r)) \<and>
      (\<forall>e. ext' = Some e \<longrightarrow> (e \<in> set is \<or> ext1 = Some e) \<and> e \<noteq> r \<and> kr_rsz (xs ! e) = 0))"
      using Cons.prems(2) by (intro Cons.IH) auto
    then show ?thesis by (auto simp: ext1_def split: if_splits)
  qed
qed simp

text \<open>Splitting a dead row gives its space to two rows.\<close>

definition settings_ok :: "settings \<Rightarrow> bool" where
  "settings_ok cfg \<longleftrightarrow> 0 \<le> reserved_rate (cod cfg)"

lemma grow_le: "0 \<le> q \<Longrightarrow> n \<le> nat (py_trunc (of_nat n * (1 + q)))"
proof -
  assume "0 \<le> q"
  then have "of_nat n \<le> of_nat n * (1 + q)" by (simp add: algebra_simps)
  then have "int n \<le> \<lfloor>of_nat n * (1 + q)\<rfloor>" by (simp add: le_floor_iff)
  then show ?thesis using \<open>0 \<le> q\<close> by (simp add: py_trunc_nonneg)
qed

lemma split_size_le: "settings_ok cfg \<Longrightarrow> n \<le> split_size cfg n"
  using grow_le [of "reserved_rate (cod cfg)" n] by (simp add: settings_ok_def split_size_def)

lemma free_row_simps [simp]:
  "kr_key (free_row f p z) = []" "kr_file (free_row f p z) = f" "kr_off (free_row f p z) = p"
  "kr_rsz (free_row f p z) = z" "kr_vsz (free_row f p z) = 0"
  by (simp_all add: free_row_def blank_def)

lemma space_ok_add_line: "space_ok s \<Longrightarrow> space_ok (add_line s)"
  unfolding space_ok_def same_dataD(15) [OF add_line_same] rows_add_line
  by (auto simp: blank_def row_ok_def cells_def intro!: disjoint_snoc)

definition claimable :: "store \<Rightarrow> nat \<Rightarrow> nat \<times> nat \<times> nat \<times> nat \<Rightarrow> bool" where
  "claimable s line = (\<lambda>(r, f, p, z). line \<le> r \<and> r < lines s \<and>
     f = kr_file (rows s ! r) \<and> p = kr_off (rows s ! r) \<and> z = kr_rsz (rows s ! r))"

lemma split_dead_spec:
  assumes "split_dead cfg fl req ext d s = (d', s')" "settings_ok cfg" "space_ok s" "dcache_ok s"
    and "claimable s line d" "0 < req" "req \<le> snd (snd (snd d))"
    and "\<And>e. ext = Some e \<Longrightarrow> line \<le> e \<and> e < lines s \<and> e \<noteq> fst d"
  shows "same_data s s' \<and> chg s' = chg s \<and> safe s' = safe s \<and> lines s \<le> lines s' \<and> space_ok s' \<and> dcache_ok s' \<and>
    claimable s' line d' \<and> req \<le> snd (snd (snd d')) \<and> (\<forall>i < line. rows s' ! i = rows s ! i)"
proof -
  obtain r f p z where d: "d = (r, f, p, z)" by (cases d) auto
  let ?sz = "split_size cfg req" and ?m = "max 64 (min_value_size (cod cfg))"
  show ?thesis
  proof (cases "F_SPLIT AND fl \<noteq> 0 \<and> z \<ge> ?sz + ?m")
    case False
    then have "d' = d" "s' = s" using assms(1) by (auto simp: split_dead_def d Let_def)
    then show ?thesis using assms by simp
  next
    case True
    define s1 where "s1 = (case ext of None \<Rightarrow> add_line s | Some _ \<Rightarrow> s)"
    define e where "e = (case ext of None \<Rightarrow> lines s | Some e \<Rightarrow> e)"
    define hi lo where "hi = free_row f (p + ?sz) (z - ?sz)" and "lo = free_row f p ?sz"
    define s2 where "s2 = write_k cfg e hi (Some 0) s1"
    have s': "d' = (r, f, p, ?sz)" "s' = write_k cfg r lo (Some 0) s2"
      using assms(1) True by (auto simp: split_dead_def d Let_def s2_def s1_def e_def hi_def lo_def split: option.splits)
    have s1: "same_data s s1" "chg s1 = chg s" "safe s1 = safe s" "lines s \<le> lines s1" "space_ok s1" "dcache_ok s1"
        "\<forall>i < lines s. rows s1 ! i = rows s ! i" "e < lines s1" "e \<noteq> r" "line \<le> e"
      using assms(3-5,8) space_ok_add_line [OF assms(3)] dcache_ok_add_line [OF assms(4)]
      by (cases ext; simp add: s1_def e_def d claimable_def nth_append; fail)+
    have r: "r < lines s1" "rows s1 ! r = rows s ! r" "f = kr_file (rows s ! r)" "p = kr_off (rows s ! r)"
        "z = kr_rsz (rows s ! r)" "line \<le> r" "r < lines s"
      using assms(5) s1(4,7) by (auto simp: d claimable_def)
    have rw: "rows s' = (rows s1)[e := complete cfg s1 hi (Some 0), r := complete cfg s2 lo (Some 0)]"
      by (simp add: s'(2) s2_def)
    have dis: "disjoint_rows (rows s')"
      unfolding rw
    proof (rule disjoint_split)
      show "disjoint_rows (rows s1)" using s1(5) by (simp add: space_ok_def)
      show "cells (complete cfg s2 lo (Some 0)) \<subseteq> cells (rows s1 ! r)"
        "cells (complete cfg s1 hi (Some 0)) \<subseteq> cells (rows s1 ! r)"
        "cells (complete cfg s2 lo (Some 0)) \<inter> cells (complete cfg s1 hi (Some 0)) = {}"
        using True r by (auto simp: cells_def hi_def lo_def)
    qed (use r s1 in auto)
    have sd: "same_data s s'"
      unfolding s'(2) s2_def by (rule same_data_trans [OF s1(1) same_data_trans [OF write_k_same write_k_same]])
    have ok: "row_ok s x" if "x \<in> set (rows s1)" for x
      using s1(5) that by (simp add: space_ok_def same_dataD(15) [OF s1(1)])
    have "row_ok s (complete cfg s1 hi (Some 0))" "row_ok s (complete cfg s2 lo (Some 0))"
      using ok [OF nth_mem [OF r(1)]] r True by (auto simp: row_ok_def hi_def lo_def)
    then have "\<forall>x \<in> set (rows s'). row_ok s' x"
      using ok unfolding rw same_dataD(15) [OF sd]
      by (auto dest!: set_update_subset_insert [THEN subsetD])
    with dis have "space_ok s'" by (simp add: space_ok_def)
    moreover have "dcache_ok s'"
      unfolding s'(2) s2_def using s1(6,8) r(1) by (intro dcache_ok_write_k) simp_all
    ultimately show ?thesis
      using sd s1 r split_size_le [OF assms(2), of req] assms(5)
      by (auto simp: s' s2_def claimable_def lo_def rw)
  qed
qed

lemma dead_region_spec:
  assumes "dead_region cfg fl key s = (line, s')" "n_recs s \<le> lines s"
  shows "same_data s s' \<and> rows s' = rows s \<and> dcache s' = dcache s \<and> n_recs s \<le> line \<and> line \<le> lines s"
    and "F_REVERT AND fl \<noteq> 0 \<Longrightarrow> safe s \<le> lines s \<Longrightarrow> safe s \<le> line"
  using assms by (auto simp: dead_region_def Let_def same_data_def split: if_splits)

lemma space_ok_rows: "space_ok s \<Longrightarrow> same_data s s' \<Longrightarrow> rows s' = rows s \<Longrightarrow> space_ok s'"
  by (simp add: space_ok_def same_dataD)

lemma claimable_rows: "claimable s line d \<Longrightarrow> rows s' = rows s \<Longrightarrow> claimable s' line d"
  by (auto simp: claimable_def)

text \<open>Splitting only when there is something to store.\<close>

lemma maybe_split_spec:
  assumes "(if 0 < req then split_dead cfg fl req ext d s else (d, s)) = (d', s')" "settings_ok cfg" "space_ok s" "dcache_ok s"
    and "claimable s line d" "fits req (snd (snd (snd d)))"
    and "\<And>e. ext = Some e \<Longrightarrow> line \<le> e \<and> e < lines s \<and> e \<noteq> fst d"
  shows "same_data s s' \<and> chg s' = chg s \<and> safe s' = safe s \<and> lines s \<le> lines s' \<and> space_ok s' \<and> dcache_ok s' \<and>
    claimable s' line d' \<and> fits req (snd (snd (snd d'))) \<and> (\<forall>i < line. rows s' ! i = rows s ! i)"
proof (cases "0 < req")
  case True
  then have "split_dead cfg fl req ext d s = (d', s')" "req \<le> snd (snd (snd d))" using assms(1,6) by (auto simp: fits_def)
  from split_dead_spec [OF this(1) assms(2-5) True this(2) assms(7)] show ?thesis using True by (simp add: fits_def)
next
  case False
  with assms show ?thesis by auto
qed

lemma find_dead_spec:
  assumes f: "find_dead cfg fl wsize key req s = (line, c, s')" and cfg: "settings_ok cfg"
    and ok: "space_ok s" "dcache_ok s" "n_recs s \<le> lines s"
  shows "line = fst (dead_region cfg fl key s) \<and> same_data s s' \<and> lines s \<le> lines s' \<and> space_ok s' \<and> dcache_ok s' \<and>
    n_recs s \<le> line \<and> line \<le> lines s \<and> (\<forall>i < line. rows s' ! i = rows s ! i) \<and>
    (case c of None \<Rightarrow> rows s' = rows s | Some d \<Rightarrow> claimable s' line d \<and> fits req (snd (snd (snd d))))"
proof -
  obtain s1 where d1: "dead_region cfg fl key s = (line, s1)"
    using f by (auto simp: find_dead_def Let_def split: prod.splits if_splits option.splits)
  note r1 = dead_region_spec(1) [OF d1 ok(3)]
  have ok1: "space_ok s1" "dcache_ok s1"
    using space_ok_rows [OF ok(1)] dcache_ok_subset [OF ok(2)] r1 by auto
  show ?thesis
  proof (cases "lines s1 \<le> line")
    case True
    then have "c = None" "s' = s1" using f d1 by (auto simp: find_dead_def)
    then show ?thesis using d1 r1 ok1 by simp
  next
    case False
    obtain c2 s2 where d2: "get_dead_row line req s1 = (c2, s2)" by (cases "get_dead_row line req s1")
    note r2 = get_dead_row_spec [OF d2 ok1(2)]
    have ok2: "space_ok s2" by (rule space_ok_rows [OF ok1(1) r2(1,2)])
    have sd2: "same_data s s2" using r1 r2(1) same_data_trans by blast
    have rows2: "rows s2 = rows s" using r1 r2(2) by simp
    define c3 where "c3 = (case c2 of None \<Rightarrow> None | Some (r, f, p, z) \<Rightarrow> if line \<le> r \<and> r < lines s1 then c2 else None)"
    show ?thesis
    proof (cases c3)
      case (Some d)
      then have c2: "c2 = Some d" by (auto simp: c3_def split: option.splits if_splits)
      obtain r fi p z where d: "d = (r, fi, p, z)" by (cases d) auto
      have cl: "claimable s2 line d" "fits req (snd (snd (snd d)))"
        using r2(6) [OF c2 [unfolded d]] r2(2) by (auto simp: claimable_def d)
      obtain d' s3 where m: "(if 0 < req then split_dead cfg fl req None d s2 else (d, s2)) = (d', s3)"
        by (cases "if 0 < req then split_dead cfg fl req None d s2 else (d, s2)")
      have "c = Some d'" "s' = s3"
        using f d1 False d2 Some m unfolding find_dead_def c3_def by (auto simp: Let_def)
      then show ?thesis
        using maybe_split_spec [OF m cfg ok2 r2(5) cl] same_data_trans [OF sd2] d1 r1 rows2 by auto
    next
      case None
      define ws where "ws = (case wsize of None \<Rightarrow> def_wsize cfg | Some w \<Rightarrow> w)"
      define w where "w = min ws (window cfg)"
      define start where "start = line + pick cfg ((lines s1 - line) div w) * w"
      define rng where "rng = rev [start..<min (lines s1) (start + w)]"
      have e: "(line, c, s') = (if ws = 0 then (line, None, s2)
          else case scan_dead (rows s2) req rng None of
                 None \<Rightarrow> (line, None, s2)
               | Some (r, ext) \<Rightarrow>
                   (let d = (r, kr_file (rows s2 ! r), kr_off (rows s2 ! r), kr_rsz (rows s2 ! r));
                        (d, s) = (if 0 < req then split_dead cfg fl req ext d s2 else (d, s2))
                    in (line, Some d, s)))"
        using f d1 False d2 None unfolding find_dead_def c3_def rng_def start_def w_def ws_def Let_def
        by simp
      show ?thesis
      proof (cases "ws = 0 \<or> scan_dead (rows s2) req rng None = None")
        case True
        then have "(line, c, s') = (line, None, s2)" using e by (cases "ws = 0") simp_all
        then have "c = None" "s' = s2" by simp_all
        then show ?thesis using d1 r1 r2 ok2 sd2 rows2 by simp
      next
        case F2: False
        then obtain r ext where sc: "scan_dead (rows s2) req rng None = Some (r, ext)" by auto
        have srt: "sorted_wrt (>) rng" by (simp add: rng_def sorted_wrt_rev)
        note sp = scan_dead_spec [OF sc srt]
        have in_rng: "line \<le> i \<and> i < lines s2" if "i \<in> set rng" for i
          using that rows2 r1 by (auto simp: rng_def start_def)
        define d where "d = (r, kr_file (rows s2 ! r), kr_off (rows s2 ! r), kr_rsz (rows s2 ! r))"
        have cl: "claimable s2 line d" "fits req (snd (snd (snd d)))"
          using sp in_rng by (auto simp: claimable_def d_def)
        have ext: "\<And>e. ext = Some e \<Longrightarrow> line \<le> e \<and> e < lines s2 \<and> e \<noteq> fst d"
          using sp in_rng by (auto simp: d_def)
        obtain d' s3 where m: "(if 0 < req then split_dead cfg fl req ext d s2 else (d, s2)) = (d', s3)"
          by (cases "if 0 < req then split_dead cfg fl req ext d s2 else (d, s2)")
        have "(line, c, s') = (line, Some d', s3)"
          using e sc F2 m unfolding d_def Let_def by (cases "0 < req") auto
        then have "c = Some d'" "s' = s3" by simp_all
        then show ?thesis
          using maybe_split_spec [OF m cfg ok2 r2(5) cl ext] same_data_trans [OF sd2] d1 r1 rows2 by auto
      qed
    qed
  qed
qed

end
