(* ===== verification/Record_Files.thy ===== *)
theory Record_Files
  imports Record_Claim
begin

text \<open>
  The value files: a file with room is found, no matter how many are open, and what a writer
  gets there lies behind everything any row uses.
\<close>

section \<open>Choosing a file\<close>

lemma used_assoc [simp]: "used (s\<lparr>ftab := assoc_set f n (ftab s)\<rparr>) g = (if g = f then n else used s g)"
  by (simp add: used_def)

lemma used_new: "fst ` set (ftab s) = {..<length (ftab s)} \<Longrightarrow> length (ftab s) \<le> f \<Longrightarrow> used s f = 0"
proof -
  assume "fst ` set (ftab s) = {..<length (ftab s)}" "length (ftab s) \<le> f"
  then have "f \<notin> fst ` set (ftab s)" by simp
  then show ?thesis by (simp add: used_def map_of_eq_None_iff [symmetric])
qed

lemma pick_file_spec:
  assumes "fst ` set (ftab s) = {..<length (ftab s)}" "f \<le> length (ftab s)"
  shows "pick_file limit req step s f = (g, p) \<Longrightarrow> p = used s g \<and> g \<le> length (ftab s)"
  using assms
proof (induction limit req step s f rule: pick_file.induct)
  case (1 limit req step s f)
  then show ?case
    using used_new [of s "length (ftab s)"] pick_file.simps [of limit req step s f] by (auto split: if_splits)
qed

text \<open>File operations leave the rows and the table of keys alone.\<close>

definition same_recs :: "store \<Rightarrow> store \<Rightarrow> bool" where
  "same_recs s s' \<longleftrightarrow> rows s' = rows s \<and> n_recs s' = n_recs s \<and> ktab s' = ktab s \<and> grps s' = grps s \<and>
     kcache s' = kcache s \<and> dcache s' = dcache s \<and> sync s' = sync s \<and> swap s' = swap s \<and> remv s' = remv s \<and>
     lines0 s' = lines0 s \<and> safe s' = safe s \<and> chg s' = chg s \<and> vcache s' = vcache s"

lemma same_recs_refl [simp]: "same_recs s s"
  by (simp add: same_recs_def)

lemma same_recs_trans: "same_recs a b \<Longrightarrow> same_recs b c \<Longrightarrow> same_recs a c"
  by (simp add: same_recs_def)

lemma put_value_recs [simp]: "same_recs s (put_value f p d s)"
  by (simp add: put_value_def same_recs_def)

lemma note_used_recs [simp]: "same_recs s (note_used f n s)"
  by (simp add: note_used_def same_recs_def)

text \<open>Closing files only notes how long they are.\<close>

lemma close_extra_spec:
  assumes "set fs \<subseteq> fst ` set (ftab s)"
  shows "fst ` set (ftab (close_extra n fs s)) = fst ` set (ftab s) \<and> length (ftab (close_extra n fs s)) = length (ftab s) \<and>
    (\<forall>g. used s g \<le> used (close_extra n fs s) g) \<and> set (fopen (close_extra n fs s)) \<subseteq> set (fopen s) \<and>
    (\<forall>g. g \<notin> set fs \<longrightarrow> used (close_extra n fs s) g = used s g) \<and> vfiles (close_extra n fs s) = vfiles s \<and>
    same_recs s (close_extra n fs s)"
  using assms
proof (induction n fs s rule: close_extra.induct)
  case (1 n f fs s)
  define s1 where "s1 = s\<lparr>maxv := max (maxv s) (int f + 1),
       ftab := assoc_set f (max (used s f) (length (vfile s f))) (ftab s), fopen := removeAll f (fopen s)\<rparr>"
  have k: "fst ` set (ftab s1) = fst ` set (ftab s)" "length (ftab s1) = length (ftab s)"
    using 1(2) by (auto simp: s1_def length_assoc_set)
  have u: "used s1 g = (if g = f then max (used s f) (length (vfile s f)) else used s g)" for g
    by (simp add: s1_def used_def)
  have r: "same_recs s s1" "vfiles s1 = vfiles s" "set (fopen s1) \<subseteq> set (fopen s)" by (auto simp: s1_def same_recs_def)
  have "set fs \<subseteq> fst ` set (ftab s1)" using 1(2) k by simp
  note ih = 1(1) [folded s1_def, OF this]
  have "used s g \<le> used (close_extra n fs s1) g" for g
    using ih u [of g] by (metis (no_types, lifting) le_trans max.cobounded1 order_refl)
  moreover have "same_recs s (close_extra n fs s1)" using ih r(1) same_recs_trans by blast
  ultimately show ?case
    using ih k r u by (auto simp: s1_def [symmetric])
qed simp_all

lemma keys_assoc_next:
  assumes "fst ` set al = {..<length al}" "f \<le> length al"
  shows "fst ` set (assoc_set f n al) = {..<length (assoc_set f n al)} \<and> f < length (assoc_set f n al)"
proof (cases "f < length al")
  case True
  with assms show ?thesis by (simp add: length_assoc_set insert_absorb)
next
  case False
  with assms show ?thesis by (simp add: length_assoc_set lessThan_Suc)
qed

text \<open>Where a new value goes.\<close>

lemma get_val_fp_spec:
  assumes g: "get_val_fp cfg fid req s = ((f, p), s')" and ok: "files_ok s"
    and fid: "\<And>i. fid = Some i \<Longrightarrow> i < length (ftab s)"
  shows "same_recs s s' \<and> vfile s' = vfile s \<and> used s f \<le> p \<and> f \<le> length (ftab s) \<and>
    (\<forall>g. used s g \<le> used s' g) \<and> (\<forall>i. fid = Some i \<longrightarrow> f = i \<and> files_ok s') \<and> files_ok (note_used f n s')"
proof -
  define p0 where "p0 = used s f"
  have tab: "fst ` set (ftab s) = {..<length (ftab s)}" "set (fopen s) \<subseteq> fst ` set (ftab s)"
    using ok unfolding files_ok_def by blast+
  have f: "(case fid of Some f \<Rightarrow> (f, used s f)
          | None \<Rightarrow> pick_file (max_fsize cfg) req (max 1 (length (ftab s) div 4)) s (length (ftab s) - 1)) = (f, p0)"
      "f \<le> length (ftab s)" "\<forall>i. fid = Some i \<longrightarrow> f = i"
  proof -
    obtain f1 p1 where fp: "(case fid of Some f \<Rightarrow> (f, used s f)
          | None \<Rightarrow> pick_file (max_fsize cfg) req (max 1 (length (ftab s) div 4)) s (length (ftab s) - 1)) = (f1, p1)"
      by (metis surj_pair)
    have f1: "p1 = used s f1" "f1 \<le> length (ftab s)" "\<forall>i. fid = Some i \<longrightarrow> f1 = i"
      using fp fid pick_file_spec [OF tab(1), of "length (ftab s) - 1"] by (auto split: option.splits dest: less_imp_le)
    have "f1 = f"
      using g fp unfolding get_val_fp_def by (auto simp: Let_def split: if_splits option.splits)
    with f1 fp show "(case fid of Some f \<Rightarrow> (f, used s f)
          | None \<Rightarrow> pick_file (max_fsize cfg) req (max 1 (length (ftab s) div 4)) s (length (ftab s) - 1)) = (f, p0)"
      "f \<le> length (ftab s)" "\<forall>i. fid = Some i \<longrightarrow> f = i" by (simp_all add: p0_def)
  qed
  have nu: "files_ok (note_used f n t)" if t: "fst ` set (ftab t) = {..<length (ftab t)}" "f \<le> length (ftab t)"
      "set (fopen t) \<subseteq> insert f (fst ` set (ftab t))" for t
    using that by (auto simp: files_ok_def note_used_def length_assoc_set)
  show ?thesis
  proof (cases "f \<in> set (fopen s)")
    case True
    then have "s' = s" "p = p0" using g f(1) by (auto simp: get_val_fp_def)
    then show ?thesis using f ok tab nu [of s] by (auto simp: p0_def)
  next
    case False
    define s1 where "s1 = close_extra (length (fopen s) + 1 - MAX_FP) (fopen s) s"
    note c = close_extra_spec [OF tab(2), of "length (fopen s) + 1 - MAX_FP", folded s1_def]
    have u1: "used s1 f = used s f" using c False by blast
    show ?thesis
    proof (cases "map_of (vfiles s1) f")
      case None
      then have e: "s' = s1\<lparr>vfiles := assoc_set f [] (vfiles s1), fopen := fopen s1 @ [f]\<rparr>" "p = p0"
        using g f(1) False by (auto simp: get_val_fp_def Let_def s1_def)
      have "vfile s' = vfile s" using None c by (auto simp: e(1) vfile_def fun_eq_iff)
      moreover have "used s' = used s1" by (simp add: e(1) used_def fun_eq_iff)
      moreover have t: "fst ` set (ftab s') = {..<length (ftab s')}" "f \<le> length (ftab s')"
          "set (fopen s') \<subseteq> insert f (fst ` set (ftab s'))"
        using e c tab f(2) by auto
      moreover have "same_recs s1 s'" using e by (auto simp: same_recs_def)
      moreover have "files_ok s'" if "fid = Some i" for i
        using t fid [OF that] f(3) that c tab by (auto simp: files_ok_def e(1))
      ultimately show ?thesis using f c nu [OF t] e(2) same_recs_trans [of s s1 s'] by (auto simp: p0_def)
    next
      case (Some b)
      then have e: "(p = length b \<and> p0 \<le> p \<and> s' = s1\<lparr>fopen := fopen s1 @ [f], ftab := assoc_set f p (ftab s1)\<rparr>) \<or>
          (p = p0 \<and> s' = s1\<lparr>fopen := fopen s1 @ [f]\<rparr>)"
        using g f(1) False by (auto simp: get_val_fp_def Let_def s1_def split: if_splits)
      have p: "p0 \<le> p" using e by auto
      have "vfile s' = vfile s" using c e by (auto simp: vfile_def fun_eq_iff)
      moreover have "used s g \<le> used s' g" for g
      proof -
        have "used s1 g \<le> used s' g" using e p u1 by (auto simp: used_def p0_def)
        moreover have "used s g \<le> used s1 g" using c by blast
        ultimately show ?thesis by simp
      qed
      moreover have t1: "fst ` set (ftab s1) = {..<length (ftab s1)}" "f \<le> length (ftab s1)"
        using c tab f(2) by simp_all
      moreover have t: "fst ` set (ftab s') = {..<length (ftab s')}" "f \<le> length (ftab s')"
          "set (fopen s') \<subseteq> insert f (fst ` set (ftab s'))"
        using e
      proof (atomize (full), elim disjE conjE, goal_cases)
        case 1
        then have "ftab s' = assoc_set f p (ftab s1)" "fopen s' = fopen s1 @ [f]" by simp_all
        then show ?case using keys_assoc_next [OF t1, of p] c tab by auto
      next
        case 2
        then have "ftab s' = ftab s1" "fopen s' = fopen s1 @ [f]" by simp_all
        then show ?case using t1 c tab by auto
      qed
      moreover have "same_recs s1 s'" using e by (auto simp: same_recs_def)
      moreover have "files_ok s'" if "fid = Some i" for i
      proof -
        have "f < length (ftab s1)" using fid [OF that] f(3) that c by simp
        then have "f < length (ftab s')" using e by (elim disjE conjE) (simp_all add: length_assoc_set)
        with t show ?thesis by (simp add: files_ok_def insert_absorb)
      qed
      moreover have "same_recs s s'" using c same_recs_trans calculation by blast
      ultimately show ?thesis using f p nu [OF t] unfolding p0_def by (intro conjI) simp_all
    qed
  qed
qed

section \<open>What a writer claims\<close>

text \<open>
  The rows \<open>xs\<close> before the first dead row \<open>line\<close> moved to \<open>d\<close>; everything before \<open>line\<close>
  is as it was.
\<close>

definition claimed :: "store \<Rightarrow> nat \<Rightarrow> krow list \<Rightarrow> nat \<Rightarrow> store \<Rightarrow> bool" where
  "claimed s line xs d s' \<longleftrightarrow>
     rows s' = xs[d := xs ! line] \<and> n_recs s \<le> line \<and> line \<le> lines s \<and> line \<le> d \<and> d < length xs \<and> lines s \<le> length xs \<and>
     (\<forall>i < line. xs ! i = rows s ! i) \<and> (\<forall>x \<in> set xs. row_ok s' x) \<and> dcache_ok s' \<and>
     n_recs s' = n_recs s \<and> ktab s' = ktab s \<and> grps s' = grps s \<and> sync s' = sync s \<and> swap s' = swap s \<and>
     remv s' = remv s \<and> lines0 s' = lines0 s \<and> vcache s' = vcache s"

definition store_ok :: "store \<Rightarrow> bool" where
  "store_ok s \<longleftrightarrow> space_ok s \<and> files_ok s \<and> dcache_ok s \<and> n_recs s \<le> lines s"

lemma row_ok_blank [simp]: "row_ok s blank"
  by (simp add: row_ok_def blank_def)

lemma cells_blank [simp]: "cells blank = {}"
  by (simp add: blank_def)

lemma update_same: "d = l \<or> d < length xs \<Longrightarrow> xs[d := xs ! d] = xs"
  by (cases "d < length xs") simp_all

lemma moved_row:
  assumes "line \<le> d"
  shows "rows (if line < d then copy_k line d s else s) = (rows s)[d := rows s ! line]"
    and "same_data s (if line < d then copy_k line d s else s)"
    and "dcache_ok s \<Longrightarrow> dcache_ok (if line < d then copy_k line d s else s)"
  using assms by (auto simp: dcache_ok_copy_k)

lemma claim_header_spec:
  assumes "claim_header cfg fl wsize key s = (line, s')" "settings_ok cfg" "store_ok s"
  shows "\<exists>xs d. claimed s line xs d s' \<and> vfiles s' = vfiles s \<and> ftab s' = ftab s \<and> fopen s' = fopen s \<and>
    line = fst (dead_region cfg fl key s) \<and> (\<forall>y. cells y = {} \<longrightarrow> disjoint_rows (xs[d := y]))"
proof -
  obtain c s1 where f: "find_dead cfg fl wsize key 0 s = (line, c, s1)"
    using assms(1) by (auto simp: claim_header_def Let_def split: prod.splits option.splits)
  have ok: "space_ok s" "dcache_ok s" "n_recs s \<le> lines s" using assms(3) by (simp_all add: store_ok_def)
  note sp = find_dead_spec [OF f assms(2) ok]
  define s2 where "s2 = (case c of None \<Rightarrow> add_line s1 | Some _ \<Rightarrow> s1)"
  define d where "d = (case c of None \<Rightarrow> lines s1 | Some (r, _) \<Rightarrow> r)"
  have s': "s' = (if line < d then copy_k line d s2 else s2)"
    using assms(1) f by (auto simp: claim_header_def Let_def s2_def d_def split: option.splits)
  have d: "line \<le> d" "d < lines s2" "lines s \<le> lines s2" "\<forall>i < line. rows s2 ! i = rows s ! i"
      "space_ok s2" "dcache_ok s2" "same_data s s2"
    using sp space_ok_add_line [of s1] dcache_ok_add_line [of s1] same_data_trans [OF _ add_line_same]
    by (auto simp: s2_def d_def claimable_def nth_append split: option.splits)
  note m = moved_row [OF d(1), of s2, folded s']
  have sd: "same_data s s'" using same_data_trans [OF d(7) m(2)] .
  have "disjoint_rows ((rows s2)[d := y])" if "cells y = {}" for y
    using d(5) that by (intro disjoint_update) (simp_all add: space_ok_def)
  moreover have "claimed s line (rows s2) d s'"
    using sp d m(1) m(3) [OF d(6)] same_dataD [OF sd] same_dataD(15) [OF d(7)]
    by (auto simp: claimed_def space_ok_def)
  ultimately show ?thesis using sp same_dataD [OF sd] by blast
qed

lemma row_ok_mono:
  assumes "row_ok s x" "\<And>g. used s g \<le> used s' g" "\<And>g. length (vfile s g) \<le> length (vfile s' g)"
  shows "row_ok s' x"
  using assms(1) assms(2) [of "kr_file x"] assms(3) [of "kr_file x"] by (auto simp: row_ok_def)

lemma pad_value_simps:
  "length (pad_value c 0 b d) \<ge> length d" "take (length d) (pad_value c 0 b d) = d"
  by (simp_all add: pad_value_def Let_def)

lemma content_files: "vfile s' = vfile s \<Longrightarrow> content s' = content s"
  by (simp add: content_def fun_eq_iff)

lemma files_ok_cong: "ftab s' = ftab s \<Longrightarrow> fopen s' = fopen s \<Longrightarrow> files_ok s' = files_ok s"
  by (simp add: files_ok_def)

text \<open>A fresh region: nothing any row points to.\<close>

lemma fresh_cells:
  assumes "row_ok s x" "used s f \<le> p"
  shows "cells x \<inter> {f} \<times> {p ..< p + n} = {}"
  using assms by (auto simp: cells_def row_ok_def)

text \<open>
  Space for \<open>data\<close> at \<open>(f, p)\<close>, \<open>z\<close> bytes that no row but \<open>d\<close> owns, and a free place \<open>d\<close>
  for the first dead row: \<open>s2\<close> before and \<open>s3\<close> after the value file is opened.
\<close>

definition readied :: "store \<Rightarrow> nat \<Rightarrow> bytes \<Rightarrow> nat \<times> nat \<times> nat \<Rightarrow> store \<Rightarrow> store \<Rightarrow> nat \<Rightarrow> bytes \<Rightarrow> bool" where
  "readied s line data = (\<lambda>(f, p, z) s2 s3 d dd.
     same_data s s2 \<and> same_recs s2 s3 \<and> vfile s3 = vfile s2 \<and> (\<forall>g. used s2 g \<le> used s3 g) \<and>
     files_ok (note_used f (p + z) s3) \<and> space_ok s2 \<and> dcache_ok s2 \<and> line \<le> d \<and> d < lines s2 \<and> lines s \<le> lines s2 \<and>
     (\<forall>i < line. rows s2 ! i = rows s ! i) \<and> length data \<le> length dd \<and> length dd \<le> z \<and> take (length data) dd = data \<and>
     (\<forall>y. cells y \<subseteq> {f} \<times> {p ..< p + z} \<longrightarrow> disjoint_rows ((rows s2)[d := y])) \<and>
     (\<forall>i < lines s2. i \<noteq> d \<longrightarrow> cells (rows s2 ! i) \<inter> {f} \<times> {p ..< p + length dd} = {}) \<and>
     (p + z \<le> length (vfile s3 f) \<or> length dd = z))"

text \<open>A new line and new space for the padded data.\<close>

lemma readied_fresh:
  assumes g: "get_val_fp cfg None (length (pad_value c 0 b data)) (add_line s1) = ((f, p), s3)"
    and ok: "same_data s s1" "space_ok s1" "dcache_ok s1" "files_ok s1" "lines s \<le> lines s1" "line \<le> lines s1"
      "\<forall>i < line. rows s1 ! i = rows s ! i"
  shows "readied s line data (f, p, length (pad_value c 0 b data)) (add_line s1) s3 (lines s1) (pad_value c 0 b data)"
proof -
  define dd where "dd = pad_value c 0 b data"
  note g = g [folded dd_def]
  have f2: "files_ok (add_line s1)" using ok(4) files_ok_cong same_dataD(5,6) [OF add_line_same] by blast
  note gs = get_val_fp_spec [OF g f2, where n = "p + length dd"]
  have sd: "same_data s (add_line s1)" using ok(1) same_data_trans [OF _ add_line_same] by blast
  have so: "space_ok (add_line s1)" "dcache_ok (add_line s1)"
    using ok(2,3) space_ok_add_line dcache_ok_add_line by blast+
  have fresh: "cells x \<inter> {f} \<times> {p ..< p + n} = {}" if "x \<in> set (rows (add_line s1))" for x n
    using so(1) that gs by (intro fresh_cells) (auto simp: space_ok_def)
  have "disjoint_rows ((rows (add_line s1))[lines s1 := y])" if "cells y \<subseteq> {f} \<times> {p ..< p + length dd}" for y
  proof -
    have "disjoint_rows (rows s1 @ [y])"
      using ok(2) fresh [of _ "length dd"] that by (intro disjoint_snoc) (auto simp: space_ok_def)
    then show ?thesis by simp
  qed
  moreover have "cells (rows s1 ! i) \<inter> {f} \<times> {p ..< p + length dd} = {}" if "i < lines s1" for i
    using fresh [of "rows s1 ! i"] that by simp
  ultimately show ?thesis
    using gs sd so ok pad_value_simps [where c = c and b = b and d = data]
    by (simp add: readied_def dd_def [symmetric] nth_append)
qed

lemma claim_finish:
  fixes f p dd s3 d line
  assumes h0: "readied s line data (f, p, z) s2 s3 d dd" and line: "n_recs s \<le> line \<and> line \<le> lines s"
  defines "s' \<equiv> (if line < d then copy_k line d (put_value f p dd s3) else put_value f p dd s3)"
  shows "claimed s line (rows s2) d s' \<and> length data \<le> z \<and>
    (\<forall>y. cells y \<subseteq> {f} \<times> {p ..< p + z} \<longrightarrow> disjoint_rows ((rows s2)[d := y])) \<and>
    take (length data) (drop p (vfile s' f)) = data \<and> p + z \<le> length (vfile s' f) \<and>
    files_ok (note_used f (p + z) s') \<and> (\<forall>i < lines s2. i \<noteq> d \<longrightarrow> content s' (rows s2 ! i) = content s (rows s2 ! i))"
proof -
  have h: "same_data s s2" "same_recs s2 s3" "vfile s3 = vfile s2" "\<And>g. used s2 g \<le> used s3 g"
      "files_ok (note_used f (p + z) s3)" "space_ok s2" "dcache_ok s2" "line \<le> d" "d < lines s2" "lines s \<le> lines s2"
      "\<forall>i < line. rows s2 ! i = rows s ! i" "length data \<le> length dd" "length dd \<le> z" "take (length data) dd = data"
      "\<forall>y. cells y \<subseteq> {f} \<times> {p ..< p + z} \<longrightarrow> disjoint_rows ((rows s2)[d := y])"
      "\<forall>i < lines s2. i \<noteq> d \<longrightarrow> cells (rows s2 ! i) \<inter> {f} \<times> {p ..< p + length dd} = {}"
      "p + z \<le> length (vfile s3 f) \<or> length dd = z"
    using h0 unfolding readied_def prod.case by blast+
  define s4 where "s4 = put_value f p dd s3"
  note m = moved_row [OF h(8), of s4, unfolded s4_def, folded s'_def, folded s4_def]
  have r4: "rows s4 = rows s2" "dcache_ok s4"
    using h(2,7) by (auto simp: s4_def same_recs_def dcache_ok_def)
  have v4: "vfile s' = vfile s4" "used s' = used s4" using same_dataD [OF m(2)] by simp_all
  have u4: "used s4 = used s3" by (simp add: s4_def)
  have rk: "row_ok s' x" if "x \<in> set (rows s2)" for x
  proof (rule row_ok_mono [of s2])
    show "row_ok s2 x" using h(6) that by (simp add: space_ok_def)
    show "used s2 g \<le> used s' g" for g using h(4) by (simp add: v4 u4)
    show "length (vfile s2 g) \<le> length (vfile s' g)" for g using h(3) by (simp add: v4 s4_def vfile_put)
  qed
  have "content s' (rows s2 ! i) = content s (rows s2 ! i)" if "i < lines s2" "i \<noteq> d" for i
  proof -
    have "row_ok s3 (rows s2 ! i)"
      by (rule row_ok_mono [of s2]) (use h(3,4,6) that in \<open>simp_all add: space_ok_def\<close>)
    then have "content s4 (rows s2 ! i) = content s3 (rows s2 ! i)"
      unfolding s4_def using h(16) that by (intro content_put) simp_all
    then show ?thesis
      using content_files [OF v4(1)] content_files [OF h(3)] same_dataD(16) [OF h(1)] by (simp add: fun_eq_iff)
  qed
  moreover have "claimed s line (rows s2) d s'"
  proof -
    have "same_recs s2 s4" using h(2) put_value_recs same_recs_trans unfolding s4_def by blast
    then have e: "n_recs s4 = n_recs s \<and> ktab s4 = ktab s \<and> grps s4 = grps s \<and> sync s4 = sync s \<and> swap s4 = swap s \<and>
        remv s4 = remv s \<and> lines0 s4 = lines0 s \<and> vcache s4 = vcache s"
      using same_dataD(1-3,8-12) [OF h(1)] unfolding same_recs_def by simp
    have "rows s' = (rows s2)[d := rows s2 ! line]" using m(1) r4(1) by simp
    moreover have "dcache_ok s'" using m(3) r4(2) by blast
    moreover have "\<forall>x \<in> set (rows s2). row_ok s' x" using rk by blast
    ultimately show ?thesis
      using e line same_dataD(1-3,8-12) [OF m(2)] h(8-11) unfolding claimed_def by simp
  qed
  moreover have "take (length data) (drop p (vfile s' f)) = data"
    using h(12,14) bytes_put_there [of "length data" dd p] by (simp add: v4 s4_def vfile_put)
  moreover have "p + z \<le> length (vfile s' f)" using h(13,17) by (auto simp: v4 s4_def vfile_put)
  moreover have "files_ok (note_used f (p + z) s')"
  proof -
    have "ftab (note_used f (p + z) s') = ftab (note_used f (p + z) s3)" "fopen (note_used f (p + z) s') = fopen (note_used f (p + z) s3)"
      using same_dataD(5,6) [OF m(2)] v4 u4 by (simp_all add: note_used_def s4_def)
    from files_ok_cong [OF this] h(5) show ?thesis by simp
  qed
  ultimately show ?thesis using h(12,13,15) by simp
qed

lemma claim_value_spec:
  assumes "claim_value cfg fl wsize key data s = (line, (f, p, z), s')" "settings_ok cfg" "store_ok s" "data \<noteq> []"
  shows "\<exists>xs d. claimed s line xs d s' \<and> line = fst (dead_region cfg fl key s) \<and> length data \<le> z \<and>
    (\<forall>y. cells y \<subseteq> {f} \<times> {p ..< p + z} \<longrightarrow> disjoint_rows (xs[d := y])) \<and>
    take (length data) (drop p (vfile s' f)) = data \<and> p + z \<le> length (vfile s' f) \<and>
    files_ok (note_used f (p + z) s') \<and> (\<forall>i < length xs. i \<noteq> d \<longrightarrow> content s' (xs ! i) = content s (xs ! i))"
proof -
  obtain c s1 where fd: "find_dead cfg fl wsize key (length data) s = (line, c, s1)"
    using assms(1) by (auto simp: claim_value_def Let_def split: prod.splits option.splits)
  have ok: "space_ok s" "dcache_ok s" "n_recs s \<le> lines s" "files_ok s" using assms(3) by (simp_all add: store_ok_def)
  note sp = find_dead_spec [OF fd assms(2) ok(1-3)]
  have f1: "files_ok s1" using ok(4) sp files_ok_cong same_dataD(5,6) [of s s1] by blast
  have "\<exists>s2 s3 d dd. readied s line data (f, p, z) s2 s3 d dd \<and>
      s' = (if line < d then copy_k line d (put_value f p dd s3) else put_value f p dd s3)"
  proof (cases c)
    case None
    define dd where "dd = pad_value (cod cfg) 0 False data"
    obtain s3 where g: "get_val_fp cfg None (length dd) (add_line s1) = ((f, p), s3)" and z: "z = length dd"
      and s': "s' = (if line < lines s1 then copy_k line (lines s1) (put_value f p dd s3) else put_value f p dd s3)"
      using assms(1) fd None unfolding claim_value_def Let_def dd_def by (auto split: prod.splits)
    have "readied s line data (f, p, z) (add_line s1) s3 (lines s1) dd"
      unfolding z dd_def by (rule readied_fresh [OF g [unfolded dd_def]]) (use sp f1 same_dataD(15) in auto)
    with s' show ?thesis by blast
  next
    case (Some x)
    obtain r f' p' z' where x: "x = (r, f', p', z')" by (cases x) auto
    obtain q s3 where g: "get_val_fp cfg (Some f) (min_value_size (cod cfg)) s1 = (q, s3)" and e: "f' = f" "p' = p" "z' = z"
      and s': "s' = (if line < r then copy_k line r (put_value f p data s3) else put_value f p data s3)"
      using assms(1) fd Some unfolding claim_value_def Let_def x by (auto split: prod.splits)
    have cl: "line \<le> r" "r < lines s1" "f = kr_file (rows s1 ! r)" "p = kr_off (rows s1 ! r)" "z = kr_rsz (rows s1 ! r)"
        "length data \<le> z"
      using sp Some x e assms(4) by (auto simp: claimable_def fits_def)
    have z: "0 < z" using cl(6) assms(4) by (cases data) simp_all
    have so: "space_ok s1" "dcache_ok s1" using sp by blast+
    have rok: "row_ok s1 (rows s1 ! r)" using so(1) cl(2) by (simp add: space_ok_def)
    then have len: "p + z \<le> used s1 f" "p + z \<le> length (vfile s1 f)" using cl z by (simp_all add: row_ok_def)
    then have "f < length (ftab s1)"
      using used_new [of s1 f] f1 z by (auto simp: files_ok_def not_less [symmetric])
    then have gs: "same_recs s1 s3 \<and> vfile s3 = vfile s1 \<and> (\<forall>g. used s1 g \<le> used s3 g) \<and> files_ok (note_used f (p + z) s3)"
      using get_val_fp_spec [of cfg "Some f" _ s1 "fst q" "snd q" s3 "p + z"] g f1 by (cases q) auto
    have "disjoint_rows ((rows s1)[r := y])" if "cells y \<subseteq> {f} \<times> {p ..< p + z}" for y
      using so(1) that cl by (intro disjoint_update) (auto simp: space_ok_def cells_def)
    moreover have "cells (rows s1 ! i) \<inter> {f} \<times> {p ..< p + length data} = {}" if "i < lines s1" "i \<noteq> r" for i
    proof -
      have "cells (rows s1 ! i) \<inter> cells (rows s1 ! r) = {}"
        using so(1) that cl(2) by (intro disjoint_rowsD) (simp_all add: space_ok_def)
      moreover have "{f} \<times> {p ..< p + length data} \<subseteq> cells (rows s1 ! r)" using cl by (auto simp: cells_def)
      ultimately show ?thesis by blast
    qed
    ultimately have "readied s line data (f, p, z) s1 s3 r data"
      using gs so sp cl len by (simp add: readied_def)
    with s' show ?thesis by blast
  qed
  then obtain s2 s3 d dd where r: "readied s line data (f, p, z) s2 s3 d dd"
      "s' = (if line < d then copy_k line d (put_value f p dd s3) else put_value f p dd s3)"
    by blast
  have "n_recs s \<le> line \<and> line \<le> lines s" using sp by blast
  from claim_finish [OF r(1) this, folded r(2)] sp show ?thesis
    by (intro exI [of _ "rows s2"] exI [of _ d]) simp
qed

end
