(* ===== verification/Record_Write.thy ===== *)
theory Record_Write
  imports Record_Files
begin

text \<open>
  Writing and reading records: \<open>f_write\<close>, \<open>f_append\<close>, \<open>f_write_key_flags\<close>,
  \<open>f_change_days\<close> and \<open>f_read\<close> of \<open>omni_json_db/jdb.py\<close> and \<open>jdb_lite.py\<close>, inside a
  session that holds the write lock.  The clock stands still during one call.  A link is
  answered with its target, which the caller follows.
\<close>

section \<open>The value cache\<close>

fun jval_copy :: "jval \<Rightarrow> jval" where
  "jval_copy (Plain v) = Plain (deepcopy v)"
| "jval_copy v = v"

fun is_group :: "jval \<Rightarrow> bool" where
  "is_group (Group _ _) = True"
| "is_group _ = False"

fun is_str :: "jval \<Rightarrow> bool" where
  "is_str (Plain (VStr _)) = True"
| "is_str _ = False"

text \<open>Two times with a zone are equal when they are the same instant.\<close>

fun jval_eq :: "settings \<Rightarrow> jval \<Rightarrow> jval \<Rightarrow> bool" where
  "jval_eq cfg (Plain v) (Plain w) = py_eq v w"
| "jval_eq cfg (Stamp m z) (Stamp m' z') =
     (case (z, z') of (Some o1, Some o2) \<Rightarrow> m - o1 = m' - o2 | (None, None) \<Rightarrow> m = m' | _ \<Rightarrow> False)"
| "jval_eq cfg v w = (if is_group v \<or> is_group w then grp_eq cfg v w else v = w)"

text \<open>\<open>is_value_extension\<close> on all values: the other types never extend one another.\<close>

fun jval_extends :: "jval \<Rightarrow> jval \<Rightarrow> bool" where
  "jval_extends (Plain VNone) w = (w \<noteq> Plain VNone)"
| "jval_extends (Plain v) (Plain w) = is_value_extension v w"
| "jval_extends v w = False"

definition cache_get :: "key \<Rightarrow> store \<Rightarrow> jval option" where
  "cache_get k s = map_of (vcache s) k"

definition cache_pop :: "key \<Rightarrow> store \<Rightarrow> store" where
  "cache_pop k s = s\<lparr>vcache := assoc_del k (vcache s)\<rparr>"

definition cache_touch :: "key \<Rightarrow> store \<Rightarrow> store" where
  "cache_touch k s =
     (case cache_get k s of None \<Rightarrow> s | Some v \<Rightarrow> s\<lparr>vcache := assoc_del k (vcache s) @ [(k, v)]\<rparr>)"

definition update_cache :: "settings \<Rightarrow> key \<Rightarrow> jval \<Rightarrow> bool \<Rightarrow> int \<Rightarrow> store \<Rightarrow> store" where
  "update_cache cfg k v copy fl s =
     (if fl AND KF_NO_CACHE \<noteq> 0 then cache_pop k s
      else if cache_limit cfg = 0 then s
      else
        let c = (if cache_limit cfg > 0 \<and> vcache s \<noteq> [] \<and> cache_limit cfg \<le> int (length (vcache s)) \<and>
                    cache_get k s = None
                 then tl (vcache s) else vcache s)
        in s\<lparr>vcache := assoc_del k c @ [(k, if copy then jval_copy v else v)]\<rparr>)"

section \<open>Reading a row\<close>

text \<open>\<open>read_value\<close>: the bytes of a row, decompressed and decoded.\<close>

definition read_value :: "val_codec \<Rightarrow> bytes \<Rightarrow> nat \<Rightarrow> nat \<Rightarrow> nat \<Rightarrow> jval res" where
  "read_value c file pos rsz vsz =
     (let b = take (if vsz > 0 then vsz else rsz) (drop pos file)
      in if vsz > 0 \<and> \<not> zipped c then loads_with_unzip c (-1) b
         else if b = [] then Inr (Plain VNone)
         else loads_with_unzip c (if vsz > 0 then -2 else 0) b)"

definition row_value :: "settings \<Rightarrow> krow \<Rightarrow> store \<Rightarrow> jval res \<times> store" where
  "row_value cfg x s =
     (if kr_rsz x = 0 then (decode_row (cod cfg) (kr_file x) (kr_off x) (kr_vsz x), s)
      else
        let (_, s) = get_val_fp cfg (Some (kr_file x)) (min_value_size (cod cfg)) s
        in (read_value (cod cfg) (vfile s (kr_file x)) (kr_off x) (kr_rsz x) (kr_vsz x), s))"

definition attach_group :: "key \<Rightarrow> jval \<Rightarrow> store \<Rightarrow> store" where
  "attach_group k v s = (if is_group v then s\<lparr>grps := assoc_set k (Some v) (grps s)\<rparr> else s)"

text \<open>The handle of a group: the attached one, or one opened from the row.\<close>

definition group_value :: "settings \<Rightarrow> key \<Rightarrow> krow \<Rightarrow> store \<Rightarrow> jval res \<times> store" where
  "group_value cfg k x s =
     (case map_of (grps s) k of
        Some (Some g) \<Rightarrow> (Inr g, s)
      | _ \<Rightarrow>
          if kr_rsz x = 0 then (Inr (Group True []), attach_group k (Group True []) s)
          else (case row_value cfg x s of
                  (Inr (Plain (VStr p)), s) \<Rightarrow> (Inr (Group False p), attach_group k (Group False p) s)
                | (_, s) \<Rightarrow> (Inl JTypeError, s)))"

text \<open>
  \<open>f_decode_value\<close> of a row that is not a link, or of a link with \<open>follow_link=False\<close>; \<open>upd\<close>
  is \<open>update_cache\<close>.
\<close>

definition decode_value :: "settings \<Rightarrow> key \<Rightarrow> krow \<Rightarrow> bool \<Rightarrow> bool \<Rightarrow> store \<Rightarrow> jval res \<times> store" where
  "decode_value cfg k x upd copy s =
     (let no_cache = (kr_flags x AND (KF_LINK OR KF_NO_CACHE) \<noteq> 0);
          s = (if no_cache then cache_pop k s else s);
          with_cache = (\<not> no_cache \<and> cache_limit cfg \<noteq> 0);
          out = (\<lambda>v. if copy \<and> with_cache then jval_copy v else v)
      in case (if with_cache then cache_get k s else None) of
           Some v \<Rightarrow> (Inr (out v), if upd then cache_touch k s else s)
         | None \<Rightarrow>
             if kr_flags x AND KF_GROUP \<noteq> 0 then group_value cfg k x s
             else (case row_value cfg x s of
                     (Inl e, s) \<Rightarrow> (Inl JTypeError, s)
                   | (Inr v, s) \<Rightarrow>
                       (Inr (out v), if upd \<and> with_cache then update_cache cfg k v False (kr_flags x) s else s)))"

text \<open>\<open>f_read\<close>: nothing under the key, its value, or the target of a link to follow.\<close>

datatype read_res = Missing | Value jval | LinkTo jval

definition is_expired :: "settings \<Rightarrow> krow \<Rightarrow> bool" where
  "is_expired cfg x \<longleftrightarrow> num_val (kr_ttl x) \<noteq> 0 \<and>
     (if num_val (kr_ttl x) \<ge> 1 then of_int (day_now cfg) > num_val (kr_mdays x) + num_val (kr_ttl x)
      else num_val (live_now cfg) - 1 / (2 * of_int MIN_OF_DAY) > num_val (kr_mdays x) + num_val (kr_ttl x))"

definition f_read :: "settings \<Rightarrow> key \<Rightarrow> bool \<Rightarrow> flags_arg \<Rightarrow> store \<Rightarrow> read_res res \<times> store" where
  "f_read cfg k copy arg s =
     (let (transient, _) = pop_transient_flags arg; (row, fl) = table_get_both k (ktab s)
      in case (if fl AND KF_EXPIRE = 0 \<and> transient AND key_flag_bit NO_FOLLOW = 0 then cache_get k s else None) of
           Some v \<Rightarrow> (Inr (Value (if copy then jval_copy v else v)), cache_touch k s)
         | None \<Rightarrow>
             if row < 0 then (Inr Missing, s)
             else if row \<ge> int (n_recs s) then (Inr Missing, pop_key k s)
             else
               let (x, s) = read_k (nat row) s
               in if is_expired cfg x then
                    (Inr Missing, cache_pop k (s\<lparr>expired := expired s @ [(nat row, kr_key x)]\<rparr>))
                  else if kr_flags x AND KF_LINK \<noteq> 0 \<and> transient AND key_flag_bit NO_FOLLOW = 0 then
                    (let (t, s) = row_value cfg x s in (map_sum id LinkTo t, s))
                  else
                    (let (v, s) = decode_value cfg (kr_key x) x (kr_flags x AND KF_LINK = 0) copy s
                     in (map_sum id Value v, s)))"

section \<open>Changing flags and days\<close>

text \<open>The lifetime a record starts with, and the one given for an existing record (negative: keep).\<close>

definition ttl_start :: "ttl_arg \<Rightarrow> pynum res" where
  "ttl_start t =
     (case t of
        TTL_Num (PI i) \<Rightarrow> Inr (PI (if i < 0 then 0 else min i MAX_TTL_DAYS))
      | _ \<Rightarrow> map_sum id (\<lambda>n. if num_val n \<le> 0 then PI 0 else n) (conv_ttl t))"

definition ttl_given :: "ttl_arg \<Rightarrow> pynum res" where
  "ttl_given t =
     (case t of TTL_Num (PI i) \<Rightarrow> Inr (PI (if i < 0 then i else min i MAX_TTL_DAYS)) | _ \<Rightarrow> conv_ttl t)"

definition expire_bit :: "pynum \<Rightarrow> int" where
  "expire_bit t = (if num_val t > 0 then KF_EXPIRE else 0)"

definition f_write_key_flags :: "settings \<Rightarrow> key \<Rightarrow> flags_arg \<Rightarrow> ttl_arg option \<Rightarrow> pynum \<Rightarrow> store \<Rightarrow> bool res \<times> store" where
  "f_write_key_flags cfg k arg t md s =
     (let row = table_get k (-1) (ktab s)
      in if \<not> (0 \<le> row \<and> row < int (n_recs s)) then (Inr False, s)
         else
           let (x, s) = read_k (nat row) s
           in case (case t of None \<Rightarrow> Inr (kr_ttl x) | Some a \<Rightarrow> ttl_start a) of
                Inl e \<Rightarrow> (Inl e, s)
              | Inr t' \<Rightarrow>
                  let md' = (if num_val md < 0 then kr_mdays x else md);
                      fl = (apply_key_flags arg (kr_flags x) AND WRITABLE_FLAG_MASK) OR
                           (kr_flags x AND DERIVED_FLAG_MASK) OR expire_bit t'
                  in if kr_key x = k \<and> (kr_flags x \<noteq> fl \<or> num_val t' \<noteq> num_val (kr_ttl x) \<or>
                          num_val md' \<noteq> num_val (kr_mdays x)) then
                       (let s = next_sync (write_k cfg (nat row) (x\<lparr>kr_mdays := md', kr_ttl := t', kr_flags := fl\<rparr>)
                                  (Some (kr_ver x)) s);
                            s = (if fl AND KF_NO_CACHE \<noteq> 0 then cache_pop k s else s)
                        in (Inr True, set_key k (nat row) fl s))
                     else (Inr False, s))"

text \<open>\<open>f_change_days\<close> with a day number: a packed pair, or the modification day alone.\<close>

definition new_days :: "settings \<Rightarrow> int \<Rightarrow> int \<Rightarrow> int \<times> int" where
  "new_days cfg old_cd days =
     (let delta = drop_bit NEW_DAY_SHIFT (days AND NEW_DAY_MASK)
      in if days < 0 then (day_now cfg, day_now cfg)
         else if days AND OLD_DAY_MASK = 0 \<and> days AND NEW_DAY_MASK \<noteq> 0 then
           (if delta \<ge> old_cd then old_cd else delta, delta)
         else (days AND OLD_DAY_MASK, (days AND OLD_DAY_MASK) + delta))"

definition f_change_days :: "settings \<Rightarrow> key \<Rightarrow> int \<Rightarrow> store \<Rightarrow> bool \<times> store" where
  "f_change_days cfg k days s =
     (let row = table_get k (-1) (ktab s)
      in if \<not> (0 \<le> row \<and> row < int (n_recs s)) then (False, s)
         else
           let (x, s) = read_k (nat row) s; (cd, md) = new_days cfg (kr_cdays x) days
           in (True,
               if cd \<noteq> kr_cdays x \<or> of_int md \<noteq> num_val (kr_mdays x) then
                 next_sync (write_k cfg (nat row) (x\<lparr>kr_key := k, kr_cdays := cd, kr_mdays := PI md\<rparr>) None s)
               else s))"

section \<open>\<open>f_write\<close>\<close>

text \<open>The arguments of a write, and its outcomes: written or refused, or a link to follow first.\<close>

record wargs =
  w_cdays :: int
  w_mdays :: pynum
  w_ttl :: ttl_arg
  w_flags :: "int option"
  w_wsize :: "nat option"
  w_over :: bool
  w_keyfl :: flags_arg

datatype wres = Wrote bool | FollowLink jval | CheckLink jval

definition MAX_KEY_SIZE :: nat where
  "MAX_KEY_SIZE = MAX_INDEX_SIZE - 128"

text \<open>A packed creation day carries the modification day.\<close>

definition day_args :: "int \<Rightarrow> pynum \<Rightarrow> int \<times> pynum" where
  "day_args cd md =
     (if cd > 0 \<and> cd AND NEW_DAY_MASK \<noteq> 0 then
        let delta = drop_bit NEW_DAY_SHIFT (cd AND NEW_DAY_MASK); cd = cd AND OLD_DAY_MASK
        in (cd, if num_val md < 0 then PI (cd + delta) else md)
      else (cd, md))"

text \<open>Preferences are writable, \<open>EXPIRE\<close> and \<open>GROUP\<close> follow from the record, a retargeted link stays one.\<close>

definition new_flags :: "int \<Rightarrow> flags_arg \<Rightarrow> int \<Rightarrow> pynum \<Rightarrow> jval \<Rightarrow> int" where
  "new_flags transient arg old t v =
     (apply_key_flags arg old AND WRITABLE_FLAG_MASK) OR expire_bit t OR
     (if transient AND key_flag_bit NO_FOLLOW \<noteq> 0 then old AND PAYLOAD_FLAG_MASK else 0) OR
     (if is_group v then KF_GROUP else 0)"

definition krow_of :: "key \<Rightarrow> nat \<times> nat \<times> nat \<Rightarrow> nat \<Rightarrow> int \<Rightarrow> pynum \<Rightarrow> pynum \<Rightarrow> int \<Rightarrow> krow" where
  "krow_of k = (\<lambda>(f, p, z) n cd md t fl. \<lparr>kr_key = k, kr_file = f, kr_off = p, kr_rsz = z, kr_vsz = n, kr_ver = 0,
     kr_cdays = cd, kr_mdays = md, kr_ttl = t, kr_flags = fl\<rparr>)"

text \<open>Old version to the first dead row, new version to the row of the record.\<close>

definition park :: "settings \<Rightarrow> nat \<Rightarrow> nat \<Rightarrow> krow \<Rightarrow> krow \<Rightarrow> store \<Rightarrow> store" where
  "park cfg line row old new s =
     write_k cfg row new None (write_k cfg line (old\<lparr>kr_flags := kr_flags old AND USER_FLAG_MASK\<rparr>) None s)"

definition put_header :: "settings \<Rightarrow> int \<Rightarrow> nat option \<Rightarrow> key \<Rightarrow> nat \<Rightarrow> krow \<Rightarrow> bool \<Rightarrow> krow \<Rightarrow> store \<Rightarrow> store" where
  "put_header cfg fl wsize k row x revert new s =
     (if kr_rsz x = 0 \<and> (\<not> revert \<or> k \<in> set (chg s)) then write_k cfg row new None s
      else let (line, s) = claim_header cfg fl wsize k s in park cfg line row x new s)"

definition put_data :: "settings \<Rightarrow> int \<Rightarrow> nat option \<Rightarrow> key \<Rightarrow> nat \<Rightarrow> krow \<Rightarrow> bool \<Rightarrow> bytes
    \<Rightarrow> (nat \<times> nat \<times> nat \<Rightarrow> krow) \<Rightarrow> store \<Rightarrow> store" where
  "put_data cfg fl wsize k row x revert data new s =
     (if kr_rsz x \<noteq> 0 \<and> kr_rsz x \<ge> length data \<and> (\<not> revert \<or> k \<in> set (chg s)) then
        let (_, s) = get_val_fp cfg (Some (kr_file x)) (min_value_size (cod cfg)) s
        in write_k cfg row (new (kr_file x, kr_off x, kr_rsz x)) None (put_value (kr_file x) (kr_off x) data s)
      else
        let (line, (f, p, z), s) = claim_value cfg fl wsize k data s
        in note_used f (p + z) (park cfg line row x (new (f, p, z)) s))"

text \<open>
  The test whether the stored bytes are the new ones; the four bytes of a gzip time stamp do
  not count.
\<close>

definition same_bytes :: "bool \<Rightarrow> bytes \<Rightarrow> bytes \<Rightarrow> bool" where
  "same_bytes gz old new \<longleftrightarrow> old = new \<or>
     gz \<and> 16 \<le> length new \<and> length old = length new \<and> take 4 old = take 4 new \<and> drop 8 old = drop 8 new"

definition unchanged :: "settings \<Rightarrow> krow \<Rightarrow> slot \<Rightarrow> store \<Rightarrow> bool \<times> store" where
  "unchanged cfg x sl s =
     (case sl of
        Inline t p n \<Rightarrow> (kr_rsz x = 0 \<and> t = kr_file x \<and> p = kr_off x \<and> n = kr_vsz x, s)
      | InFile data _ \<Rightarrow>
          if kr_rsz x \<noteq> 0 \<and> kr_rsz x \<ge> length data \<and> kr_vsz x = length data then
            let (_, s) = get_val_fp cfg (Some (kr_file x)) (min_value_size (cod cfg)) s
            in (same_bytes (gzip cfg) (take (length data) (drop (kr_off x) (vfile s (kr_file x)))) data, s)
          else (False, s))"

definition cache_new :: "settings \<Rightarrow> key \<Rightarrow> jval \<Rightarrow> int \<Rightarrow> store \<Rightarrow> store" where
  "cache_new cfg k v fl s = (if cache_limit cfg \<noteq> 0 then update_cache cfg k v True fl s else s)"

text \<open>The rows of a new version of an existing record.\<close>

definition put_slot :: "settings \<Rightarrow> int \<Rightarrow> nat option \<Rightarrow> key \<Rightarrow> nat \<Rightarrow> krow \<Rightarrow> bool \<Rightarrow> slot
    \<Rightarrow> int \<Rightarrow> pynum \<Rightarrow> pynum \<Rightarrow> int \<Rightarrow> store \<Rightarrow> store" where
  "put_slot cfg fl wsize k row x revert sl cd md t kfl s =
     (case sl of
        Inline tid p n \<Rightarrow> put_header cfg fl wsize k row x revert (krow_of k (tid, p, 0) n cd md t kfl) s
      | InFile data _ \<Rightarrow>
          put_data cfg fl wsize k row x revert data (\<lambda>fpz. krow_of k fpz (length data) cd md t kfl) s)"

text \<open>An equal value changes at most flags, lifetime and days.\<close>

definition store_version :: "settings \<Rightarrow> key \<Rightarrow> jval \<Rightarrow> int \<Rightarrow> nat option \<Rightarrow> bool \<Rightarrow> nat \<Rightarrow> krow \<Rightarrow> slot \<Rightarrow> bool
    \<Rightarrow> int \<Rightarrow> pynum \<Rightarrow> pynum \<Rightarrow> int \<Rightarrow> store \<Rightarrow> wres res \<times> store" where
  "store_version cfg k v fl wsize checked row x sl revert cd md t kfl s =
     (let (same, s) = (if checked then (False, s) else unchanged cfg x sl s)
      in if same then
           let s = cache_new cfg k v kfl s
           in if kfl \<noteq> kr_flags x \<or> num_val t \<noteq> num_val (kr_ttl x) \<or>
                 num_val t \<noteq> 0 \<and> num_val md \<noteq> num_val (kr_mdays x) then
                (let (r, s) = f_write_key_flags cfg k (FInt kfl) (Some (TTL_Num t)) md s in (map_sum id Wrote r, s))
              else (Inr (Wrote False), s)
         else
           (Inr (Wrote True),
            cache_new cfg k v kfl (next_sync (put_slot cfg fl wsize k row x revert sl cd md t kfl s))))"

text \<open>The record exists and may be changed.\<close>

definition write_over :: "settings \<Rightarrow> key \<Rightarrow> jval \<Rightarrow> wargs \<Rightarrow> int \<Rightarrow> flags_arg \<Rightarrow> bool \<Rightarrow> nat \<Rightarrow> krow \<Rightarrow> store
    \<Rightarrow> wres res \<times> store" where
  "write_over cfg k v w transient arg checked row x s =
     (case ttl_given (w_ttl w) of
        Inl e \<Rightarrow> (Inl e, s)
      | Inr t \<Rightarrow>
          let (cd, md) = day_args (w_cdays w) (w_mdays w);
              fl = (case w_flags w of None \<Rightarrow> jflags cfg | Some fl \<Rightarrow> fl);
              t = (if num_val t < 0 then kr_ttl x else t);
              md = (if num_val md \<ge> 0 then md
                    else if transient AND key_flag_bit NO_ATIME \<noteq> 0 then kr_mdays x
                    else if num_val t > 0 \<and> num_val t < 1 then live_now cfg else PI (day_now cfg));
              cd = (if cd < 0 then kr_cdays x else cd);
              kfl = new_flags transient arg (kr_flags x) t v;
              s = attach_group k v s;
              s = (if kfl \<noteq> kr_flags x then set_key k row kfl s else s);
              revert = (F_REVERT AND fl \<noteq> 0 \<and> kfl AND KF_NO_REVERT = 0)
          in case encode_row (cod cfg) v of
               Inl e \<Rightarrow> (Inl e, s)
             | Inr sl \<Rightarrow> store_version cfg k v fl (w_wsize w) checked row x sl revert cd md t kfl s)"

text \<open>The record exists: locks, the cache, links and append-only records come first.\<close>

definition write_found :: "settings \<Rightarrow> key \<Rightarrow> jval \<Rightarrow> wargs \<Rightarrow> int \<Rightarrow> flags_arg \<Rightarrow> nat \<Rightarrow> int \<Rightarrow> store \<Rightarrow> wres res \<times> store" where
  "write_found cfg k v w transient arg row old s =
     (let hit = (if \<not> w_over w \<and> cache_limit cfg \<noteq> 0 then cache_get k s else None);
          unlock = (transient AND KF_UNLOCK \<noteq> 0);
          follow = (transient AND key_flag_bit NO_FOLLOW = 0)
      in if transient AND KF_EXCL \<noteq> 0 \<or> old AND KF_READ_ONLY \<noteq> 0 \<and> \<not> unlock then (Inr (Wrote False), s)
         else if (case hit of None \<Rightarrow> False | Some c \<Rightarrow> jval_eq cfg c v) then (Inr (Wrote False), cache_touch k s)
         else
           let checked = (w_over w \<or> hit \<noteq> None); (x, s) = read_k row s; link = (kr_flags x AND KF_LINK \<noteq> 0)
           in if link \<and> follow then (let (t, s) = row_value cfg x s in (map_sum id FollowLink t, s))
              else if link \<and> \<not> is_str v then (Inl JTypeError, s)
              else if kr_flags x AND KF_APPEND_ONLY \<noteq> 0 \<and> \<not> unlock then
                if link then (let (t, s) = row_value cfg x s in (map_sum id CheckLink t, s))
                else (case decode_value cfg k x False False s of
                        (Inl e, s) \<Rightarrow> (Inl e, s)
                      | (Inr o', s) \<Rightarrow>
                          if jval_extends o' v then write_over cfg k v w transient arg checked row x s
                          else (Inr (Wrote False), s))
              else write_over cfg k v w transient arg checked row x s)"

text \<open>A new record goes to the first row behind the live ones; what lay there moves to \<open>line\<close>.\<close>

definition insert_row :: "settings \<Rightarrow> nat \<Rightarrow> krow \<Rightarrow> store \<Rightarrow> store" where
  "insert_row cfg line new s =
     write_k cfg (n_recs s) new None (if line > n_recs s then copy_k (n_recs s) line s else s)"

definition count_record :: "bool \<Rightarrow> key \<Rightarrow> int \<Rightarrow> store \<Rightarrow> store" where
  "count_record keep k kfl s =
     set_key k (n_recs s) kfl (next_sync (s\<lparr>safe := safe s + (if keep then 0 else 1), n_recs := n_recs s + 1\<rparr>))"

definition write_new :: "settings \<Rightarrow> key \<Rightarrow> jval \<Rightarrow> wargs \<Rightarrow> int \<Rightarrow> flags_arg \<Rightarrow> store \<Rightarrow> wres res \<times> store" where
  "write_new cfg k v w transient arg s =
     (if transient AND KF_MUST_EXIST \<noteq> 0 then (Inr (Wrote False), s)
      else case ttl_start (w_ttl w) of
        Inl e \<Rightarrow> (Inl e, s)
      | Inr t \<Rightarrow>
          let (cd, md) = day_args (w_cdays w) (w_mdays w);
              fl = (case w_flags w of None \<Rightarrow> jflags cfg | Some fl \<Rightarrow> fl);
              kfl = new_flags 0 arg 0 t v;
              s = attach_group k v s
          in case encode_row (cod cfg) v of
               Inl e \<Rightarrow> (Inl e, s)
             | Inr sl \<Rightarrow>
                 let s = (case sl of
                     Inline tid p n \<Rightarrow>
                       (let (line, s) = claim_header cfg fl (w_wsize w) k s
                        in insert_row cfg line (krow_of k (tid, p, 0) n cd md t kfl) s)
                   | InFile data _ \<Rightarrow>
                       (let (line, (f, p, z), s) = claim_value cfg fl (w_wsize w) k data s
                        in note_used f (p + z) (insert_row cfg line (krow_of k (f, p, z) (length data) cd md t kfl) s)))
                 in (Inr (Wrote True), count_record (F_REVERT AND fl \<noteq> 0) k kfl (cache_new cfg k v kfl s)))"

fun plain_bytes :: "jval \<Rightarrow> jval" where
  "plain_bytes (Plain (VByteArray b)) = Plain (VBytes b)"
| "plain_bytes v = v"

definition rejected :: "settings \<Rightarrow> key \<Rightarrow> jval \<Rightarrow> bool" where
  "rejected cfg k v = (case hook cfg of None \<Rightarrow> False | Some h \<Rightarrow> \<not> is_group v \<and> \<not> h k v)"

definition f_write :: "settings \<Rightarrow> key \<Rightarrow> jval \<Rightarrow> wargs \<Rightarrow> store \<Rightarrow> wres res \<times> store" where
  "f_write cfg k v w s =
     (let v = plain_bytes v
      in if rejected cfg k v then (Inl JTypeError, s)
         else if length k > MAX_KEY_SIZE then (Inl JKeyError, s)
         else
           let (row, old) = table_get_both k (ktab s); (transient, arg) = pop_transient_flags (w_keyfl w)
           in if row \<ge> 0 then write_found cfg k v w transient arg (nat row) old s
              else write_new cfg k v w transient arg s)"

section \<open>\<open>f_append\<close>\<close>

text \<open>A new record at the tail, without a search; the value is encoded after the rows have moved.\<close>

definition shift_rows :: "store \<Rightarrow> store" where
  "shift_rows s =
     (let safe_row = min (max (safe s) (n_recs s)) (lines s); dead = lines s;
          s = add_line s;
          s = (if dead > safe_row then copy_k safe_row dead s else s)
      in if safe_row > n_recs s then copy_k (n_recs s) safe_row s else s)"

definition append_new :: "settings \<Rightarrow> key \<Rightarrow> jval \<Rightarrow> ttl_arg \<Rightarrow> flags_arg \<Rightarrow> store \<Rightarrow> wres res \<times> store" where
  "append_new cfg k v ta arg s =
     (let s = shift_rows s
      in case encode_row (cod cfg) v of
           Inl e \<Rightarrow> (Inl e, s)
         | Inr sl \<Rightarrow>
             (case ttl_start ta of
                Inl e \<Rightarrow> (Inl e, s)
              | Inr t \<Rightarrow>
                  let kfl = new_flags 0 arg 0 t v;
                      s = attach_group k v s;
                      s = (case sl of
                        Inline tid p n \<Rightarrow>
                          write_k cfg (n_recs s) (krow_of k (tid, p, 0) n (-1) (PI (-1)) t kfl) None s
                      | InFile data _ \<Rightarrow>
                          (let padded = pad_value (cod cfg) 0 False data;
                               ((f, p), s) = get_val_fp cfg None (length padded) s;
                               s = put_value f p padded s;
                               new = krow_of k (f, p, length padded) (length data) (-1) (PI (-1)) t kfl
                           in note_used f (p + length padded) (write_k cfg (n_recs s) new None s)))
                  in (Inr (Wrote True), count_record False k kfl s)))"

definition f_append :: "settings \<Rightarrow> key \<Rightarrow> jval \<Rightarrow> ttl_arg \<Rightarrow> flags_arg \<Rightarrow> store \<Rightarrow> wres res \<times> store" where
  "f_append cfg k v ta arg s =
     (if rejected cfg k v then (Inl JTypeError, s)
      else if length k > MAX_KEY_SIZE then (Inl JKeyError, s)
      else
        let (row, old) = table_get_both k (ktab s)
        in if row \<ge> 0 then
             (let (transient, arg) = pop_transient_flags arg
              in if transient AND KF_EXCL \<noteq> 0 \<or> old AND KF_READ_ONLY \<noteq> 0 \<and> transient AND KF_UNLOCK = 0
                 then (Inr (Wrote False), s)
                 else f_write cfg k v \<lparr>w_cdays = -1, w_mdays = PI (-1), w_ttl = ta, w_flags = Some 0,
                        w_wsize = Some 0, w_over = True, w_keyfl = arg\<rparr> s)
           else append_new cfg k v ta arg s)"
end
