(* ===== verification/Record_Still.thy ===== *)
theory Record_Still
  imports Record_Write
begin

text \<open>
  The steps of \<open>omni_json_db/jdb.py\<close> that look up and read: they touch caches and open files,
  but no row, no counter of the header and no mark of history.
\<close>

section \<open>Steps that leave rows and counters alone\<close>

definition still :: "store \<Rightarrow> store \<Rightarrow> bool" where
  "still s s' \<longleftrightarrow> rows s' = rows s \<and> n_recs s' = n_recs s \<and> sync s' = sync s \<and> swap s' = swap s \<and>
     remv s' = remv s \<and> chg s' = chg s"

lemma still_refl [simp]: "still s s"
  by (simp add: still_def)

lemma still_trans: "still a b \<Longrightarrow> still b c \<Longrightarrow> still a c"
  by (simp add: still_def)

lemma stillD:
  assumes "still s s'"
  shows "rows s' = rows s" "n_recs s' = n_recs s" "sync s' = sync s" "swap s' = swap s" "remv s' = remv s" "chg s' = chg s"
  using assms by (simp_all add: still_def)

lemma still_recs: "same_recs s s' \<Longrightarrow> still s s'"
  by (simp add: still_def same_recs_def)

lemma still_small [simp]:
  "still s (cache_pop k s)" "still s (cache_touch k s)" "still s (attach_group k v s)" "still s (set_key k row fl s)"
  "still s (pop_key k s)" "still s (s\<lparr>vcache := c\<rparr>)" "still s (put_value f p d s)" "still s (note_used f n s)"
  "still s (snd (read_k row s))" "still s (s\<lparr>grps := g\<rparr>)" "still s (s\<lparr>expired := e\<rparr>)"
  by (simp_all add: still_def cache_pop_def cache_touch_def attach_group_def set_key_def pop_key_def
      put_value_def note_used_def read_k_def Let_def split: option.split)

lemma still_update_cache [simp]: "still s (update_cache cfg k v c fl s)"
  by (simp add: still_def update_cache_def cache_pop_def Let_def)

lemma still_cache_new [simp]: "still s (cache_new cfg k v fl s)"
  by (simp add: cache_new_def)

lemma still_close_extra [simp]: "still s (close_extra n fs s)"
proof (induction n fs s rule: close_extra.induct)
  case (1 n f fs s)
  then show ?case by (simp add: still_def)
qed simp_all

lemma still_get_val_fp: "still s (snd (get_val_fp cfg fid req s))"
proof -
  obtain f p where f: "(case fid of Some f \<Rightarrow> (f, used s f)
      | None \<Rightarrow> pick_file (max_fsize cfg) req (max 1 (length (ftab s) div 4)) s (length (ftab s) - 1)) = (f, p)"
    by (metis surj_pair)
  define s1 where "s1 = close_extra (length (fopen s) + 1 - MAX_FP) (fopen s) s"
  have "still s s1" by (simp add: s1_def)
  then show ?thesis
    unfolding get_val_fp_def f Let_def prod.case s1_def [symmetric]
    by (auto simp: still_def Let_def split: option.split)
qed

lemma still_row_value: "still s (snd (row_value cfg x s))"
  using still_get_val_fp [of s cfg "Some (kr_file x)" "min_value_size (cod cfg)"]
  by (auto simp: row_value_def Let_def split: prod.split)

lemma still_group_value: "still s (snd (group_value cfg k x s))"
  using still_row_value [of s cfg x] still_small(3)
  by (auto simp: group_value_def intro: still_trans split: option.split prod.split sum.split jval.split pyval.split)

lemma still_decode_value: "still s (snd (decode_value cfg k x upd copy s))"
proof -
  define s1 where "s1 = (if kr_flags x AND (KF_LINK OR KF_NO_CACHE) \<noteq> 0 then cache_pop k s else s)"
  have q: "still s s1" by (simp add: s1_def)
  note qs = still_row_value [of s1 cfg x] still_group_value [of s1 cfg k x]
  have "still s1 (snd (decode_value cfg k x upd copy s))"
    unfolding decode_value_def Let_def s1_def [symmetric]
    using qs still_trans [OF qs(1) still_update_cache]
    by (auto simp del: key_flag_bit.simps split: option.split prod.split sum.split)
  with q show ?thesis by (rule still_trans)
qed

lemma still_unchanged: "still s (snd (unchanged cfg x sl s))"
  using still_get_val_fp [of s cfg "Some (kr_file x)" "min_value_size (cod cfg)"]
  by (auto simp: unchanged_def split: slot.split prod.split)

end
