(* ===== verification/Record_Index.thy ===== *)
theory Record_Index
  imports Record_Still
begin

text \<open>
  The database as a map: which record is under a key and what it holds.  The key table
  indexes exactly the live rows, the rows own their bytes, and the steps the writers share
  keep both.
\<close>

section \<open>The abstraction\<close>

definition live :: "store \<Rightarrow> key \<Rightarrow> nat option" where
  "live s k = find (\<lambda>i. kr_key (rows s ! i) = k) [0..<n_recs s]"

definition value_of :: "store \<Rightarrow> key \<Rightarrow> content option" where
  "value_of s k = (case live s k of None \<Rightarrow> None | Some r \<Rightarrow> Some (content s (rows s ! r)))"

definition keys_ok :: "store \<Rightarrow> bool" where
  "keys_ok s \<longleftrightarrow> distinct (map kr_key (take (n_recs s) (rows s))) \<and> dict_table.indexes (ktab s) (live s)"

definition db_ok :: "store \<Rightarrow> bool" where
  "db_ok s \<longleftrightarrow> store_ok s \<and> keys_ok s"

lemma distinct_keys_iff:
  "n_recs s \<le> lines s \<Longrightarrow> distinct (map kr_key (take (n_recs s) (rows s))) \<longleftrightarrow>
     (\<forall>i < n_recs s. \<forall>j < n_recs s. kr_key (rows s ! i) = kr_key (rows s ! j) \<longrightarrow> i = j)"
  by (auto simp: distinct_conv_nth min_def)

lemma live_sound: "live s k = Some r \<Longrightarrow> r < n_recs s \<and> kr_key (rows s ! r) = k"
  by (auto simp: live_def find_Some_iff)

lemma live_None: "live s k = None \<longleftrightarrow> (\<forall>i < n_recs s. kr_key (rows s ! i) \<noteq> k)"
  by (auto simp: live_def find_None_iff)

lemma live_unique:
  assumes "\<And>i j. i < n_recs s \<Longrightarrow> j < n_recs s \<Longrightarrow> kr_key (rows s ! i) = kr_key (rows s ! j) \<Longrightarrow> i = j"
  shows "live s k = Some r \<longleftrightarrow> r < n_recs s \<and> kr_key (rows s ! r) = k"
proof
  assume r: "r < n_recs s \<and> kr_key (rows s ! r) = k"
  then obtain r' where r': "live s k = Some r'" using live_None [of s k] by (cases "live s k") auto
  then have "r' = r" using live_sound [OF r'] r by (intro assms) simp_all
  with r' show "live s k = Some r" by simp
qed (rule live_sound)

lemma db_okD:
  assumes "db_ok s"
  shows "store_ok s" "n_recs s \<le> lines s" "dict_table.indexes (ktab s) (live s)"
    "i < n_recs s \<Longrightarrow> j < n_recs s \<Longrightarrow> kr_key (rows s ! i) = kr_key (rows s ! j) \<Longrightarrow> i = j"
  using assms by (auto simp: db_ok_def keys_ok_def store_ok_def distinct_keys_iff)

lemma db_okI:
  assumes "store_ok s"
    and "\<And>i j. i < n_recs s \<Longrightarrow> j < n_recs s \<Longrightarrow> kr_key (rows s ! i) = kr_key (rows s ! j) \<Longrightarrow> i = j"
    and "dict_table.indexes (ktab s) (live s)"
  shows "db_ok s"
  using assms by (auto simp: db_ok_def keys_ok_def store_ok_def distinct_keys_iff)

lemma live_iff: "db_ok s \<Longrightarrow> live s k = Some r \<longleftrightarrow> r < n_recs s \<and> kr_key (rows s ! r) = k"
  by (rule live_unique) (rule db_okD(4))

text \<open>Two stores with the same live keys at the same rows.\<close>

lemma live_eqI:
  assumes "\<And>i j. i < n_recs s \<Longrightarrow> j < n_recs s \<Longrightarrow> kr_key (rows s ! i) = kr_key (rows s ! j) \<Longrightarrow> i = j"
    and "\<And>r. r < n_recs s \<Longrightarrow> m (kr_key (rows s ! r)) = Some r"
    and "\<And>k r. m k = Some r \<Longrightarrow> r < n_recs s \<and> kr_key (rows s ! r) = k"
  shows "live s = m"
proof
  fix k
  show "live s k = m k"
  proof (cases "m k")
    case None
    then show ?thesis using assms(2) live_sound [of s k] by (cases "live s k") auto
  next
    case (Some r)
    with assms(3) [OF Some] live_unique [OF assms(1), where k = k and r = r] show ?thesis by simp
  qed
qed

lemma table_live:
  assumes "db_ok s" "table_get_both k (ktab s) = (row, fl)"
  shows "row \<ge> 0 \<longleftrightarrow> live s k \<noteq> None" "row \<ge> 0 \<Longrightarrow> live s k = Some (nat row)"
proof -
  have i: "dict_table.indexes (ktab s) (live s)" using assms(1) by (rule db_okD)
  show "row \<ge> 0 \<longleftrightarrow> live s k \<noteq> None"
    using dict_table.indexes_missing [OF i, of k] assms(2) by (auto simp: not_less [symmetric])
  show "row \<ge> 0 \<Longrightarrow> live s k = Some (nat row)"
    using dict_table.indexes_get [OF i, of k "nat row"] assms(2) by simp
qed

section \<open>Steps that leave the records alone\<close>

definition quiet :: "store \<Rightarrow> store \<Rightarrow> bool" where
  "quiet s s' \<longleftrightarrow> rows s' = rows s \<and> n_recs s' = n_recs s \<and> vfile s' = vfile s \<and> safe s' = safe s \<and>
     chg s' = chg s \<and> lines0 s' = lines0 s \<and> (db_ok s \<longrightarrow> db_ok s')"

lemma quiet_refl [simp]: "quiet s s"
  by (simp add: quiet_def)

lemma quiet_trans: "quiet a b \<Longrightarrow> quiet b c \<Longrightarrow> quiet a c"
  by (simp add: quiet_def)

lemma live_cong: "rows s' = rows s \<Longrightarrow> n_recs s' = n_recs s \<Longrightarrow> live s' = live s"
  by (simp add: live_def fun_eq_iff)

lemma quietD:
  assumes "quiet s s'"
  shows "rows s' = rows s" "n_recs s' = n_recs s" "vfile s' = vfile s" "safe s' = safe s" "chg s' = chg s"
    "lines0 s' = lines0 s" "db_ok s \<Longrightarrow> db_ok s'" "content s' = content s" "live s' = live s" "value_of s' = value_of s"
proof -
  show "rows s' = rows s" "n_recs s' = n_recs s" "vfile s' = vfile s" "safe s' = safe s" "chg s' = chg s"
    "lines0 s' = lines0 s" "db_ok s \<Longrightarrow> db_ok s'" using assms by (simp_all add: quiet_def)
  from content_files [OF this(3)] live_cong [OF this(1,2)]
  show c: "content s' = content s" and l: "live s' = live s" .
  show "value_of s' = value_of s"
    by (rule ext) (simp add: value_of_def c l \<open>rows s' = rows s\<close> split: option.split)
qed

text \<open>What the invariant looks at.\<close>

lemma store_ok_cong:
  assumes "rows s' = rows s" "n_recs s' = n_recs s" "vfiles s' = vfiles s" "ftab s' = ftab s" "fopen s' = fopen s"
    and "dcache_ok s \<Longrightarrow> dcache_ok s'"
  shows "store_ok s \<Longrightarrow> store_ok s'"
proof -
  have "row_ok s' = row_ok s" using assms(3,4) by (simp add: row_ok_def used_def vfile_def fun_eq_iff)
  moreover have "files_ok s' = files_ok s" by (rule files_ok_cong [OF assms(4,5)])
  ultimately show "store_ok s \<Longrightarrow> store_ok s'" using assms(1,2,6) unfolding store_ok_def space_ok_def by simp
qed

lemma quiet_fields:
  assumes "rows s' = rows s" "n_recs s' = n_recs s" "vfiles s' = vfiles s" "ftab s' = ftab s" "fopen s' = fopen s"
    and "safe s' = safe s" "chg s' = chg s" "lines0 s' = lines0 s" "ktab s' = ktab s"
    and "dcache_ok s \<Longrightarrow> dcache_ok s'"
  shows "quiet s s'"
proof -
  have "store_ok s \<Longrightarrow> store_ok s'" by (rule store_ok_cong [OF assms(1-5,10)])
  moreover have "vfile s' = vfile s" using assms(3) by (simp add: vfile_def fun_eq_iff)
  ultimately show ?thesis using assms(1,2,6-9) live_cong [OF assms(1,2)]
    unfolding quiet_def db_ok_def keys_ok_def by simp
qed

lemma dcache_ok_same: "dcache s' = dcache s \<Longrightarrow> rows s' = rows s \<Longrightarrow> dcache_ok s \<Longrightarrow> dcache_ok s'"
  by (simp add: dcache_ok_def)

lemma quiet_vcache [simp]: "quiet s (s\<lparr>vcache := c\<rparr>)"
  by (rule quiet_fields) (simp_all add: dcache_ok_def)

lemma quiet_small [simp]:
  "quiet s (cache_pop k s)" "quiet s (cache_touch k s)" "quiet s (attach_group k v s)" "quiet s (next_sync s)"
proof -
  show "quiet s (cache_pop k s)" by (simp add: cache_pop_def)
  show "quiet s (cache_touch k s)" by (simp add: cache_touch_def split: option.split)
  show "quiet s (attach_group k v s)"
    by (rule quiet_fields) (simp_all add: attach_group_def dcache_ok_def)
  show "quiet s (next_sync s)"
    by (rule quiet_fields) (simp_all add: next_sync_def dcache_ok_def)
qed

lemma quiet_update_cache [simp]: "quiet s (update_cache cfg k v c fl s)"
proof -
  obtain vc where "update_cache cfg k v c fl s = s \<or> update_cache cfg k v c fl s = s\<lparr>vcache := vc\<rparr>"
    unfolding update_cache_def Let_def cache_pop_def by metis
  then show ?thesis by (elim disjE) simp_all
qed

lemma quiet_cache_new [simp]: "quiet s (cache_new cfg k v fl s)"
  by (simp add: cache_new_def)

lemma quiet_read_k: "row < lines s \<Longrightarrow> quiet s (snd (read_k row s))"
proof (rule quiet_fields)
  assume row: "row < lines s"
  have "set (dcache (snd (read_k row s))) \<subseteq>
      insert (row, kr_file (rows s ! row), kr_off (rows s ! row), kr_rsz (rows s ! row)) (set (dcache s))"
    using set_last_n [of TOTAL_DEAD_ROWS "assoc_del row (dcache s) @ [(row, kr_file (rows s ! row), kr_off (rows s ! row), kr_rsz (rows s ! row))]"]
    by (auto simp: read_k_def Let_def set_assoc_del)
  then show "dcache_ok s \<Longrightarrow> dcache_ok (snd (read_k row s))" using row by (auto simp: dcache_ok_def)
qed (simp_all add: read_k_def Let_def)

lemma quiet_set_key:
  assumes "db_ok s \<Longrightarrow> live s k = Some row"
  shows "quiet s (set_key k row fl s)"
proof -
  let ?t = "set_key k row fl s"
  have f: "rows ?t = rows s" "n_recs ?t = n_recs s" "vfiles ?t = vfiles s" "ftab ?t = ftab s" "fopen ?t = fopen s"
    "safe ?t = safe s" "chg ?t = chg s" "lines0 ?t = lines0 s" "dcache ?t = dcache s" "ktab ?t = table_set k row fl (ktab s)"
    by (simp_all add: set_key_def)
  have "db_ok ?t" if db: "db_ok s"
  proof (rule db_okI)
    have "store_ok s" using db by (rule db_okD)
    then show "store_ok ?t" using f by (intro store_ok_cong [of ?t s]) (simp_all add: dcache_ok_def)
    show "i < n_recs ?t \<Longrightarrow> j < n_recs ?t \<Longrightarrow> kr_key (rows ?t ! i) = kr_key (rows ?t ! j) \<Longrightarrow> i = j" for i j
      using db_okD(4) [OF db] f by simp
    have "live s = (live s)(k \<mapsto> row)" using assms [OF db] by (simp add: fun_upd_idem)
    then show "dict_table.indexes (ktab ?t) (live ?t)"
      using dict_table.indexes_set [OF db_okD(3) [OF db], of k row fl] f live_cong [of ?t s] by simp
  qed
  then show ?thesis using f by (simp add: quiet_def vfile_def fun_eq_iff)
qed

text \<open>Opening the file of a row changes only the notes on the files.\<close>

lemma row_file_known:
  assumes "store_ok s" "x \<in> set (rows s)" "kr_rsz x \<noteq> 0"
  shows "kr_file x < length (ftab s)"
proof (rule ccontr)
  assume "\<not> kr_file x < length (ftab s)"
  moreover have "fst ` set (ftab s) = {..<length (ftab s)}" using assms(1) by (simp add: store_ok_def files_ok_def)
  ultimately have "used s (kr_file x) = 0" using used_new by (simp add: not_less)
  moreover have "row_ok s x" using assms(1,2) by (simp add: store_ok_def space_ok_def)
  ultimately show False using assms(3) by (simp add: row_ok_def)
qed

lemma quiet_files:
  assumes "same_recs s s'" "vfile s' = vfile s" "\<And>g. used s g \<le> used s' g" "files_ok s \<Longrightarrow> files_ok s'"
  shows "quiet s s'"
proof -
  have r: "row_ok s x \<Longrightarrow> row_ok s' x" for x
    by (rule row_ok_mono [of s]) (use assms in simp_all)
  have "rows s' = rows s" "n_recs s' = n_recs s" "dcache s' = dcache s" "ktab s' = ktab s" "safe s' = safe s"
      "chg s' = chg s" "lines0 s' = lines0 s" using assms(1) by (simp_all add: same_recs_def)
  moreover from this have "store_ok s \<Longrightarrow> store_ok s'"
    using r assms(4) dcache_ok_same [of s' s] by (simp add: store_ok_def space_ok_def)
  ultimately show ?thesis
    using assms(2) live_cong [of s' s] by (simp add: quiet_def db_ok_def keys_ok_def)
qed

lemma quiet_get_val_fp:
  assumes "store_ok s" "x \<in> set (rows s)" "kr_rsz x \<noteq> 0"
  shows "quiet s (snd (get_val_fp cfg (Some (kr_file x)) req s))"
    and "store_ok (snd (get_val_fp cfg (Some (kr_file x)) req s))"
proof -
  obtain f p s' where g: "get_val_fp cfg (Some (kr_file x)) req s = ((f, p), s')" by (metis surj_pair)
  have "files_ok s" using assms(1) by (simp add: store_ok_def)
  from get_val_fp_spec [OF g this] row_file_known [OF assms]
  have sp: "same_recs s s' \<and> vfile s' = vfile s \<and> (\<forall>g. used s g \<le> used s' g) \<and> files_ok s'" by simp
  then show "quiet s (snd (get_val_fp cfg (Some (kr_file x)) req s))"
    using g by (intro quiet_files) simp_all
  have "row_ok s y \<Longrightarrow> row_ok s' y" for y
    by (rule row_ok_mono [of s]) (use sp in simp_all)
  then show "store_ok (snd (get_val_fp cfg (Some (kr_file x)) req s))"
    using sp assms(1) g by (auto simp: store_ok_def space_ok_def same_recs_def dcache_ok_def)
qed

lemma quiet_row_value: "store_ok s \<Longrightarrow> x \<in> set (rows s) \<Longrightarrow> quiet s (snd (row_value cfg x s))"
  using quiet_get_val_fp(1) [of s x cfg "min_value_size (cod cfg)"]
  by (auto simp: row_value_def Let_def split: prod.split)

lemma quiet_group_value: "store_ok s \<Longrightarrow> x \<in> set (rows s) \<Longrightarrow> quiet s (snd (group_value cfg k x s))"
  using quiet_row_value [of s x cfg] quiet_small(3)
  by (auto simp: group_value_def intro: quiet_trans split: option.split prod.split sum.split jval.split pyval.split)

lemma quiet_decode_value:
  assumes "db_ok s" "x \<in> set (rows s)"
  shows "quiet s (snd (decode_value cfg k x upd copy s))"
proof -
  define s1 where "s1 = (if kr_flags x AND (KF_LINK OR KF_NO_CACHE) \<noteq> 0 then cache_pop k s else s)"
  have q: "quiet s s1" by (simp add: s1_def)
  have ok: "store_ok s1" "x \<in> set (rows s1)" using quietD [OF q] assms db_okD(1) by auto
  note qs = quiet_row_value [OF ok, of cfg] quiet_group_value [OF ok, of cfg k]
  have "quiet s1 (snd (decode_value cfg k x upd copy s))"
    unfolding decode_value_def Let_def s1_def [symmetric]
    using qs quiet_trans [OF qs(1) quiet_update_cache]
    by (auto simp del: key_flag_bit.simps split: option.split prod.split sum.split)
  with q show ?thesis by (rule quiet_trans)
qed

section \<open>A new version of a record\<close>

lemma complete_more [simp]:
  "row_ok t (complete cfg s x v) = row_ok t x" "content t (complete cfg s x v) = content t x"
  "content t (x\<lparr>kr_flags := fl\<rparr>) = content t x"
  by (simp_all add: row_ok_def content_def)

lemma value_replace:
  assumes db: "db_ok s" and k: "live s k = Some row" and ok: "store_ok s'" and t: "ktab s' = ktab s" and n: "n_recs s' = n_recs s"
    and same: "\<And>i. i < n_recs s \<Longrightarrow> i \<noteq> row \<Longrightarrow> kr_key (rows s' ! i) = kr_key (rows s ! i) \<and>
      content s' (rows s' ! i) = content s (rows s ! i)"
    and new: "kr_key (rows s' ! row) = k" "content s' (rows s' ! row) = c"
  shows "db_ok s' \<and> value_of s' = (value_of s)(k \<mapsto> c)"
proof -
  have row: "row < n_recs s" "kr_key (rows s ! row) = k" using live_sound [OF k] by blast+
  have keys: "kr_key (rows s' ! i) = kr_key (rows s ! i)" if "i < n_recs s" for i
    using same [of i] new row that by (cases "i = row") auto
  have l: "live s' = live s"
    unfolding live_def n using keys by (intro ext find_cong) auto
  have db': "db_ok s'"
    by (rule db_okI [OF ok]) (use db_okD(3,4) [OF db] keys n t l in auto)
  have "value_of s' j = ((value_of s)(k \<mapsto> c)) j" for j
  proof (cases "live s j")
    case (Some r)
    then have r: "r < n_recs s" "kr_key (rows s ! r) = j" using live_sound by blast+
    show ?thesis
    proof (cases "r = row")
      case True
      then have "j = k" using r row by simp
      then show ?thesis using k new by (simp add: value_of_def l)
    next
      case False
      then have "j \<noteq> k" using k Some by auto
      then show ?thesis using same [OF r(1) False] Some by (simp add: value_of_def l)
    qed
  qed (use k in \<open>auto simp: value_of_def l\<close>)
  with db' show ?thesis by (simp add: fun_eq_iff)
qed

text \<open>After \<open>park\<close>: the old version lies at \<open>line\<close>, everything else is where it was.\<close>

lemma park_spec:
  fixes cfg
  assumes cl: "claimed s line xs d s1" and row: "row < n_recs s"
    and old: "kr_file old = kr_file (rows s ! row)" "kr_off old = kr_off (rows s ! row)"
      "kr_rsz old = kr_rsz (rows s ! row)" "kr_vsz old = kr_vsz (rows s ! row)"
    and dis: "disjoint_rows (xs[d := new])" and new: "row_ok s1 new"
  defines "s2 \<equiv> park cfg line row old new s1"
  shows "same_data s1 s2" "safe s2 = safe s1" "chg s2 = chg s1" "space_ok s2" "dcache_ok s2"
    "lines s2 = length xs" "\<exists>st v. rows s2 ! row = complete cfg st new v"
    "\<exists>st v. rows s2 ! line = complete cfg st (old\<lparr>kr_flags := kr_flags old AND USER_FLAG_MASK\<rparr>) v"
    "\<And>i. i < line \<Longrightarrow> i \<noteq> row \<Longrightarrow> rows s2 ! i = rows s ! i"
proof -
  define o1 where "o1 = complete cfg s1 (old\<lparr>kr_flags := kr_flags old AND USER_FLAG_MASK\<rparr>) None"
  define st where "st = write_k cfg line (old\<lparr>kr_flags := kr_flags old AND USER_FLAG_MASK\<rparr>) None s1"
  define n1 where "n1 = complete cfg st new None"
  have c: "rows s1 = xs[d := xs ! line]" "n_recs s \<le> line" "line \<le> d" "d < length xs" "dcache_ok s1"
      "\<forall>i < line. xs ! i = rows s ! i" "\<forall>x \<in> set xs. row_ok s1 x"
    using cl by (auto simp: claimed_def)
  have rw: "rows s2 = rotated xs row line d o1 n1"
    by (simp add: s2_def park_def rotated_def c(1) o1_def n1_def st_def)
  have l: "row < length xs" "line < length xs" "row < line" "row \<noteq> d" "row \<noteq> line" using c row by auto
  show sd: "same_data s1 s2" unfolding s2_def park_def using write_k_same same_data_trans by blast
  show "safe s2 = safe s1" "chg s2 = chg s1" by (simp_all add: s2_def park_def)
  show "dcache_ok s2" unfolding s2_def park_def
    using c l by (intro dcache_ok_write_k) simp_all
  have xr: "xs ! row = rows s ! row" using c l by simp
  have "disjoint_rows (xs[d := n1])"
    using dis disjoint_update [of "xs[d := new]" d n1] by (simp add: n1_def)
  then have "disjoint_rows (rows s2)"
    unfolding rw using c l old xr by (intro disjoint_rotated) (simp_all add: o1_def cells_def)
  moreover have "row_ok s1 o1" "row_ok s1 n1"
    using c(7) nth_mem [OF l(1)] old xr new by (auto simp: row_ok_def o1_def n1_def)
  then have "\<forall>x \<in> set (rows s2). row_ok s1 x"
    unfolding rw using set_rotated [OF l(2), of row d o1 n1] c(7) by blast
  ultimately show "space_ok s2" using same_dataD(15) [OF sd] by (simp add: space_ok_def)
  show "lines s2 = length xs" by (simp add: rw)
  show "\<exists>st v. rows s2 ! row = complete cfg st new v" using l by (auto simp: rw nth_rotated n1_def)
  show "\<exists>st v. rows s2 ! line = complete cfg st (old\<lparr>kr_flags := kr_flags old AND USER_FLAG_MASK\<rparr>) v"
    using l by (auto simp: rw nth_rotated o1_def)
  show "rows s2 ! i = rows s ! i" if "i < line" "i \<noteq> row" for i
    using that c l by (simp add: rw nth_rotated)
qed
end
