(* ===== verification/Record_Refine.thy ===== *)
theory Record_Refine
  imports Record_Index
begin

text \<open>
  The writers refine an update of the map: a write changes one key and keeps all others, and
  what it returns says whether it did.
\<close>

section \<open>Rewriting a row in place\<close>

lemma write_in_place:
  assumes db: "db_ok s" and k: "live s k = Some row" and key: "kr_key new = k"
    and cells: "cells new \<subseteq> cells (rows s ! row)" and new: "row_ok s new"
  shows "db_ok (write_k cfg row new v s) \<and> value_of (write_k cfg row new v s) = (value_of s)(k \<mapsto> content s new)"
proof -
  let ?t = "write_k cfg row new v s"
  have row: "row < n_recs s" "row < lines s" using live_sound [OF k] db_okD(2) [OF db] by auto
  have ok: "space_ok s" "files_ok s" "dcache_ok s" "n_recs s \<le> lines s"
    using db_okD(1) [OF db] by (simp_all add: store_ok_def)
  note sd = same_dataD [OF write_k_same [of s cfg row new v]]
  have "disjoint_rows (rows ?t)"
    using ok(1) cells by (auto simp: space_ok_def intro!: disjoint_update)
  moreover have "\<forall>x \<in> set (rows ?t). row_ok s x"
    using ok(1) new by (auto simp: space_ok_def dest!: set_update_subset_insert [THEN subsetD])
  ultimately have "space_ok ?t" unfolding space_ok_def sd(15) by blast
  moreover have "files_ok ?t" using ok(2) files_ok_cong [OF sd(5,6)] by blast
  moreover have "dcache_ok ?t" using ok(3) row by (intro dcache_ok_write_k)
  ultimately have st: "store_ok ?t" using ok(4) sd(1) by (simp add: store_ok_def)
  show ?thesis
    by (rule value_replace [OF db k st sd(2,1)]) (use row key sd(16) in auto)
qed

section \<open>Keeping the old version\<close>

text \<open>The old version \<open>x\<close> of a record is the dead row \<open>line\<close> now.\<close>

definition parked :: "store \<Rightarrow> store \<Rightarrow> nat \<Rightarrow> krow \<Rightarrow> bool" where
  "parked s s' line x \<longleftrightarrow> n_recs s \<le> line \<and> line < lines s' \<and> kr_key (rows s' ! line) = kr_key x \<and>
     kr_file (rows s' ! line) = kr_file x \<and> kr_off (rows s' ! line) = kr_off x \<and>
     kr_rsz (rows s' ! line) = kr_rsz x \<and> kr_vsz (rows s' ! line) = kr_vsz x \<and>
     content s' (rows s' ! line) = content s x \<and> (\<forall>i < line. n_recs s \<le> i \<longrightarrow> rows s' ! i = rows s ! i)"

lemma park_refines:
  fixes cfg
  assumes db: "db_ok s" and k: "live s k = Some row" and cl: "claimed s line xs d s1"
    and dis: "disjoint_rows (xs[d := new])" and new: "row_ok s1 new" "kr_key new = k" and f: "files_ok s1"
    and same: "\<And>i. i < length xs \<Longrightarrow> i \<noteq> d \<Longrightarrow> content s1 (xs ! i) = content s (xs ! i)"
  defines "x \<equiv> rows s ! row"
  defines "s2 \<equiv> park cfg line row x new s1"
  shows "db_ok s2 \<and> value_of s2 = (value_of s)(k \<mapsto> content s1 new) \<and> parked s s2 line x \<and> n_recs s2 = n_recs s"
proof -
  have row: "row < n_recs s" "kr_key x = k" using live_sound [OF k] by (simp_all add: x_def)
  have c: "n_recs s \<le> line" "line \<le> d" "d < length xs" "lines s \<le> length xs" "\<forall>i < line. xs ! i = rows s ! i"
      "n_recs s1 = n_recs s" "ktab s1 = ktab s"
    using cl by (auto simp: claimed_def)
  have old: "kr_file x = kr_file (rows s ! row)" "kr_off x = kr_off (rows s ! row)"
      "kr_rsz x = kr_rsz (rows s ! row)" "kr_vsz x = kr_vsz (rows s ! row)" by (simp_all add: x_def)
  note p = park_spec [where cfg = cfg, OF cl row(1) old dis new(1), folded s2_def]
  note sd = same_dataD [OF p(1)]
  have st: "store_ok s2"
    using p(4-6) f files_ok_cong [OF sd(5,6)] c by (simp add: store_ok_def sd(1))
  have cont: "content s1 (rows s ! i) = content s (rows s ! i)" if "i < n_recs s" for i
    using same [of i] c that by auto
  obtain st1 v1 where r: "rows s2 ! row = complete cfg st1 new v1" using p(7) by blast
  obtain st2 v2 where o: "rows s2 ! line = complete cfg st2 (x\<lparr>kr_flags := kr_flags x AND USER_FLAG_MASK\<rparr>) v2"
    using p(8) by blast
  have "db_ok s2 \<and> value_of s2 = (value_of s)(k \<mapsto> content s1 new)"
  proof (rule value_replace [OF db k st])
    show "kr_key (rows s2 ! i) = kr_key (rows s ! i) \<and> content s2 (rows s2 ! i) = content s (rows s ! i)"
      if "i < n_recs s" "i \<noteq> row" for i
      using p(9) [of i] that c(1) cont [of i] sd(16) by simp
  qed (use sd c r new in simp_all)
  moreover have "parked s s2 line x"
    unfolding parked_def using o c p(6,9) cont [OF row(1)] row sd(16)
    by (simp add: x_def)
  ultimately show ?thesis using sd(1) c by simp
qed

text \<open>Contents packed into the row do not depend on the files.\<close>

lemma content_fields [simp]: "kr_rsz x = 0 \<Longrightarrow> content s x = Fields (kr_file x) (kr_off x) (kr_vsz x)"
  by (simp add: content_def)

lemma put_header_refines:
  fixes fl wsize revert
  assumes db: "db_ok s" and cfg: "settings_ok cfg" and k: "live s k = Some row"
    and new: "kr_rsz new = 0" "kr_key new = k"
  defines "x \<equiv> rows s ! row"
  defines "s2 \<equiv> put_header cfg fl wsize k row x revert new s"
  shows "db_ok s2 \<and> value_of s2 = (value_of s)(k \<mapsto> content s new) \<and> n_recs s2 = n_recs s \<and>
    (kr_rsz x = 0 \<and> (\<not> revert \<or> k \<in> set (chg s)) \<or> parked s s2 (fst (dead_region cfg fl k s)) x)"
proof (cases "kr_rsz x = 0 \<and> (\<not> revert \<or> k \<in> set (chg s))")
  case True
  then have "s2 = write_k cfg row new None s" by (simp add: s2_def put_header_def)
  with write_in_place [OF db k new(2), of cfg None] new True same_dataD(1) [OF write_k_same [of s cfg row new None]]
  show ?thesis by (simp add: row_ok_def)
next
  case False
  obtain line s1 where c: "claim_header cfg fl wsize k s = (line, s1)" by (metis surj_pair)
  have s2: "s2 = park cfg line row x new s1" using False c by (auto simp: s2_def put_header_def)
  from claim_header_spec [OF c cfg db_okD(1) [OF db]]
  obtain xs d where cl: "claimed s line xs d s1" "vfiles s1 = vfiles s" "ftab s1 = ftab s" "fopen s1 = fopen s"
      "line = fst (dead_region cfg fl k s)" "\<forall>y. cells y = {} \<longrightarrow> disjoint_rows (xs[d := y])"
    by blast
  have "vfile s1 = vfile s" using cl(2) by (simp add: vfile_def fun_eq_iff)
  then have cont: "content s1 = content s" by (rule content_files)
  have f: "files_ok s1" using files_ok_cong [OF cl(3,4)] db_okD(1) [OF db] by (simp add: store_ok_def)
  have "db_ok s2 \<and> value_of s2 = (value_of s)(k \<mapsto> content s1 new) \<and> parked s s2 line x \<and> n_recs s2 = n_recs s"
    unfolding s2 x_def
    by (rule park_refines [OF db k cl(1)]) (use cl(6) new f cont in \<open>simp_all add: row_ok_def\<close>)
  then show ?thesis using cl(5) cont by simp
qed

text \<open>New bytes over the old ones.\<close>

lemma put_value_refines:
  fixes cfg req
  assumes db: "db_ok s" and k: "live s k = Some row" and x: "x = rows s ! row" "kr_rsz x \<noteq> 0" "length data \<le> kr_rsz x"
    and data: "data \<noteq> []" and new: "kr_key new = k" "kr_file new = kr_file x" "kr_off new = kr_off x" "kr_rsz new = kr_rsz x"
      "kr_vsz new = length data"
  defines "s2 \<equiv> write_k cfg row new None (put_value (kr_file x) (kr_off x) data (snd (get_val_fp cfg (Some (kr_file x)) req s)))"
  shows "db_ok s2 \<and> value_of s2 = (value_of s)(k \<mapsto> Data data) \<and> n_recs s2 = n_recs s"
proof -
  have row: "row < n_recs s" "row < lines s" using live_sound [OF k] db_okD(2) [OF db] by auto
  then have x_in: "x \<in> set (rows s)" using x by simp
  define s1 where "s1 = snd (get_val_fp cfg (Some (kr_file x)) req s)"
  note q = quiet_get_val_fp [OF db_okD(1) [OF db] x_in x(2), of cfg req, folded s1_def]
  have db1: "db_ok s1" using quietD(7) [OF q(1) db] .
  note qd = quietD [OF q(1)]
  define t where "t = put_value (kr_file x) (kr_off x) data s1"
  have tr: "rows t = rows s" "n_recs t = n_recs s" "ktab t = ktab s1" "used t = used s1" "fopen t = fopen s1" "ftab t = ftab s1"
      "dcache t = dcache s1"
    using qd put_value_recs [of s1 "kr_file x" "kr_off x" data] by (simp_all add: t_def same_recs_def)
  have vt: "vfile t g = (if g = kr_file x then bytes_put (kr_off x) data (vfile s (kr_file x)) else vfile s g)" for g
    using qd(3) by (simp add: t_def vfile_put)
  have rok: "row_ok s1 y \<Longrightarrow> row_ok t y" for y
    by (rule row_ok_mono [of s1]) (simp_all add: tr vt qd(3))
  have sp1: "space_ok s1" "files_ok s1" "dcache_ok s1" "n_recs s1 \<le> lines s1"
    using q(2) by (simp_all add: store_ok_def)
  have st: "store_ok t"
    using sp1 rok files_ok_cong [OF tr(6,5)] dcache_ok_same [of t s1] tr qd by (simp add: store_ok_def space_ok_def)
  have lt: "live t = live s1" by (rule live_cong) (simp_all add: tr qd)
  have dbt: "db_ok t" using db1 st tr qd lt by (simp add: db_ok_def keys_ok_def)
  have own: "cells (rows s ! i) \<inter> {kr_file x} \<times> {kr_off x ..< kr_off x + length data} = {}" if "i < n_recs s" "i \<noteq> row" for i
  proof -
    have "cells (rows s ! i) \<inter> cells x = {}"
      unfolding x(1) using that row db_okD(1,2) [OF db] by (intro disjoint_rowsD) (auto simp: store_ok_def space_ok_def)
    moreover have "{kr_file x} \<times> {kr_off x ..< kr_off x + length data} \<subseteq> cells x" using x(3) by (auto simp: cells_def)
    ultimately show ?thesis by blast
  qed
  have cont: "content t (rows s ! i) = content s (rows s ! i)" if "i < n_recs s" "i \<noteq> row" for i
  proof -
    have "row_ok s1 (rows s ! i)" using sp1 qd that by (simp add: space_ok_def)
    then show ?thesis unfolding t_def using content_put [OF _ own [OF that]] qd(8) by simp
  qed
  have vals: "value_of t j = value_of s j" if "j \<noteq> k" for j
  proof (cases "live s j")
    case (Some r)
    then have "r < n_recs s" "r \<noteq> row" using live_sound [OF Some] live_sound [OF k] that by auto
    then show ?thesis using cont [of r] Some by (simp add: value_of_def lt qd tr)
  qed (simp add: value_of_def lt qd)
  have "row_ok t (rows s ! row)" using st row tr by (simp add: store_ok_def space_ok_def)
  then have "row_ok t new" using x new by (simp add: row_ok_def)
  moreover have "cells new \<subseteq> cells (rows t ! row)" using x new by (simp add: cells_def tr)
  moreover have "live t k = Some row" using k by (simp add: lt qd)
  ultimately have "db_ok s2 \<and> value_of s2 = (value_of t)(k \<mapsto> content t new)"
    unfolding s2_def s1_def [symmetric] t_def [symmetric] by (intro write_in_place [OF dbt _ new(1)])
  moreover have "content t new = Data data"
    using x(2) new bytes_put_there [of "length data" data "kr_off x" "vfile s (kr_file x)"] by (simp add: content_def vt)
  moreover have "(value_of t)(k \<mapsto> Data data) = (value_of s)(k \<mapsto> Data data)" using vals by auto
  moreover have "n_recs s2 = n_recs s"
    unfolding s2_def s1_def [symmetric] t_def [symmetric] using same_dataD(1) [OF write_k_same] tr by simp
  ultimately show ?thesis by simp
qed

text \<open>The note on the file may come before or after the rows are written.\<close>

lemma note_write_k: "note_used f n (write_k cfg row x v s) = write_k cfg row x v (note_used f n s)"
proof -
  have "complete cfg (note_used f n s) = complete cfg s"
    by (simp add: complete_def note_used_def fun_eq_iff cong: option.case_cong)
  then show ?thesis
    by (intro store.equality) (simp_all add: write_k_def note_used_def used_def Let_def)
qed

lemma note_copy_k: "note_used f n (copy_k a b s) = copy_k a b (note_used f n s)"
  by (intro store.equality) (simp_all add: copy_k_def note_used_def used_def)

lemma note_park: "note_used f n (park cfg line row old new s) = park cfg line row old new (note_used f n s)"
  by (simp add: park_def note_write_k)

lemma note_used_data:
  "vfile (note_used f n s) = vfile s" "content (note_used f n s) = content s"
  "used (note_used f n s) g = (if g = f then max (used s f) n else used s g)"
proof -
  show v: "vfile (note_used f n s) = vfile s" by (simp add: note_used_def vfile_def fun_eq_iff)
  show "content (note_used f n s) = content s" by (rule content_files [OF v])
  show "used (note_used f n s) g = (if g = f then max (used s f) n else used s g)" by (simp add: note_used_def used_def)
qed

lemma claimed_note: "claimed s line xs d s' \<Longrightarrow> claimed s line xs d (note_used f n s')"
proof -
  assume c: "claimed s line xs d s'"
  have "row_ok (note_used f n s') x" if "row_ok s' x" for x
    by (rule row_ok_mono [OF that]) (simp_all add: note_used_data)
  then show ?thesis using c note_used_recs [of s' f n] dcache_ok_same [of "note_used f n s'" s']
    unfolding claimed_def same_recs_def by simp
qed

lemma krow_of_simps [simp]:
  "kr_key (krow_of k (f, p, z) n cd md t fl) = k" "kr_file (krow_of k (f, p, z) n cd md t fl) = f"
  "kr_off (krow_of k (f, p, z) n cd md t fl) = p" "kr_rsz (krow_of k (f, p, z) n cd md t fl) = z"
  "kr_vsz (krow_of k (f, p, z) n cd md t fl) = n" "kr_flags (krow_of k (f, p, z) n cd md t fl) = fl"
  by (simp_all add: krow_of_def)

text \<open>What a writer finds once the value is in place, with the note on the file made.\<close>

lemma value_ready:
  fixes cd md t kfl k
  assumes cl: "claimed s line xs d s1" and z: "length data \<le> z" and data: "data \<noteq> []"
    and own: "\<forall>y. cells y \<subseteq> {f} \<times> {p ..< p + z} \<longrightarrow> disjoint_rows (xs[d := y])"
    and there: "take (length data) (drop p (vfile s1 f)) = data" "p + z \<le> length (vfile s1 f)"
    and rest: "files_ok (note_used f (p + z) s1)" "\<forall>i < length xs. i \<noteq> d \<longrightarrow> content s1 (xs ! i) = content s (xs ! i)"
  defines "new \<equiv> krow_of k (f, p, z) (length data) cd md t kfl"
  shows "claimed s line xs d (note_used f (p + z) s1) \<and> disjoint_rows (xs[d := new]) \<and>
    row_ok (note_used f (p + z) s1) new \<and> files_ok (note_used f (p + z) s1) \<and>
    content (note_used f (p + z) s1) new = Data data \<and>
    (\<forall>i < length xs. i \<noteq> d \<longrightarrow> content (note_used f (p + z) s1) (xs ! i) = content s (xs ! i))"
proof -
  have "0 < z" using z data by (cases data) simp_all
  have "cells new \<subseteq> {f} \<times> {p ..< p + z}" by (simp add: new_def cells_def)
  then have "disjoint_rows (xs[d := new])" using own by blast
  moreover have "row_ok (note_used f (p + z) s1) new"
    using z there(2) by (simp add: new_def row_ok_def note_used_data)
  moreover have "content (note_used f (p + z) s1) new = Data data"
    using there(1) \<open>0 < z\<close> by (simp add: new_def content_def note_used_data)
  ultimately show ?thesis using rest claimed_note [OF cl] by (simp add: note_used_data)
qed

lemma claim_value_ready:
  fixes cd md t kfl
  assumes c: "claim_value cfg fl wsize k data s = (line, (f, p, z), s1)" and cfg: "settings_ok cfg"
    and ok: "store_ok s" and data: "data \<noteq> []"
  defines "new \<equiv> krow_of k (f, p, z) (length data) cd md t kfl"
  shows "\<exists>xs d. claimed s line xs d (note_used f (p + z) s1) \<and> line = fst (dead_region cfg fl k s) \<and>
    disjoint_rows (xs[d := new]) \<and> row_ok (note_used f (p + z) s1) new \<and> files_ok (note_used f (p + z) s1) \<and>
    content (note_used f (p + z) s1) new = Data data \<and>
    (\<forall>i < length xs. i \<noteq> d \<longrightarrow> content (note_used f (p + z) s1) (xs ! i) = content s (xs ! i))"
proof -
  from claim_value_spec [OF c cfg ok data]
  obtain xs d where cl: "claimed s line xs d s1" "line = fst (dead_region cfg fl k s)" "length data \<le> z"
      "\<forall>y. cells y \<subseteq> {f} \<times> {p ..< p + z} \<longrightarrow> disjoint_rows (xs[d := y])"
      "take (length data) (drop p (vfile s1 f)) = data" "p + z \<le> length (vfile s1 f)"
      "files_ok (note_used f (p + z) s1)" "\<forall>i < length xs. i \<noteq> d \<longrightarrow> content s1 (xs ! i) = content s (xs ! i)"
    by blast
  from value_ready [OF cl(1,3) data cl(4-8), of k cd md t kfl, folded new_def] cl(2) show ?thesis by blast
qed

lemma put_data_refines:
  fixes fl wsize revert cd md t kfl
  assumes db: "db_ok s" and cfg: "settings_ok cfg" and k: "live s k = Some row" and data: "data \<noteq> []"
  defines "x \<equiv> rows s ! row" and "new \<equiv> \<lambda>fpz. krow_of k fpz (length data) cd md t kfl"
  defines "s2 \<equiv> put_data cfg fl wsize k row x revert data new s"
  shows "db_ok s2 \<and> value_of s2 = (value_of s)(k \<mapsto> Data data) \<and> n_recs s2 = n_recs s \<and>
    (kr_rsz x \<ge> length data \<and> (\<not> revert \<or> k \<in> set (chg s)) \<or> parked s s2 (fst (dead_region cfg fl k s)) x)"
proof (cases "kr_rsz x \<noteq> 0 \<and> kr_rsz x \<ge> length data \<and> (\<not> revert \<or> k \<in> set (chg s))")
  case True
  have "s2 = write_k cfg row (new (kr_file x, kr_off x, kr_rsz x)) None (put_value (kr_file x) (kr_off x) data
      (snd (get_val_fp cfg (Some (kr_file x)) (min_value_size (cod cfg)) s)))"
    using True by (simp add: s2_def put_data_def split: prod.split)
  with put_value_refines [OF db k x_def [THEN meta_eq_to_obj_eq] _ _ data, of "new (kr_file x, kr_off x, kr_rsz x)"] True
  show ?thesis by (simp add: new_def)
next
  case False
  obtain line f p z s1 where c: "claim_value cfg fl wsize k data s = (line, (f, p, z), s1)" by (metis surj_pair)
  have s2: "s2 = park cfg line row x (new (f, p, z)) (note_used f (p + z) s1)"
    using False c by (auto simp: s2_def put_data_def note_park)
  from claim_value_ready [OF c cfg db_okD(1) [OF db] data, of cd md t kfl, folded new_def]
  obtain xs d where r: "claimed s line xs d (note_used f (p + z) s1)" "line = fst (dead_region cfg fl k s)"
      "disjoint_rows (xs[d := new (f, p, z)])" "row_ok (note_used f (p + z) s1) (new (f, p, z))"
      "files_ok (note_used f (p + z) s1)" "content (note_used f (p + z) s1) (new (f, p, z)) = Data data"
      "\<forall>i < length xs. i \<noteq> d \<longrightarrow> content (note_used f (p + z) s1) (xs ! i) = content s (xs ! i)"
    by (auto simp: new_def)
  have "db_ok s2 \<and> value_of s2 = (value_of s)(k \<mapsto> content (note_used f (p + z) s1) (new (f, p, z))) \<and>
      parked s s2 line x \<and> n_recs s2 = n_recs s"
    unfolding s2 x_def
    by (rule park_refines [OF db k r(1,3,4) _ r(5)]) (use r(7) in \<open>simp_all add: new_def\<close>)
  then show ?thesis using r(2,6) by simp
qed

section \<open>A new record\<close>

lemma value_insert:
  assumes db: "db_ok s" and k: "live s k = None" and ok: "store_ok s'"
    and t: "ktab s' = table_set k (n_recs s) kfl (ktab s)" and n: "n_recs s' = n_recs s + 1"
    and same: "\<And>i. i < n_recs s \<Longrightarrow> kr_key (rows s' ! i) = kr_key (rows s ! i) \<and>
      content s' (rows s' ! i) = content s (rows s ! i)"
    and new: "kr_key (rows s' ! n_recs s) = k" "content s' (rows s' ! n_recs s) = c"
  shows "db_ok s' \<and> value_of s' = (value_of s)(k \<mapsto> c)"
proof -
  have nk: "kr_key (rows s ! i) \<noteq> k" if "i < n_recs s" for i using k that live_None [of s k] by blast
  have inj: "i = j" if "i < n_recs s'" "j < n_recs s'" "kr_key (rows s' ! i) = kr_key (rows s' ! j)" for i j
    using that same [of i] same [of j] nk [of i] nk [of j] new(1) db_okD(4) [OF db, of i j] n
    by (cases "i = n_recs s"; cases "j = n_recs s") auto
  have l: "live s' = (live s)(k \<mapsto> n_recs s)"
  proof (rule live_eqI [OF inj])
    fix r assume r: "r < n_recs s'"
    show "((live s)(k \<mapsto> n_recs s)) (kr_key (rows s' ! r)) = Some r"
    proof (cases "r = n_recs s")
      case False
      then have "r < n_recs s" using r n by simp
      then show ?thesis using same [of r] nk [of r] live_iff [OF db, where k = "kr_key (rows s ! r)" and r = r] by simp
    qed (use new in simp)
  next
    fix j r assume "((live s)(k \<mapsto> n_recs s)) j = Some r"
    then show "r < n_recs s' \<and> kr_key (rows s' ! r) = j"
      using new(1) n same [of r] live_sound [of s j r] by (cases "j = k") auto
  qed
  have "db_ok s'"
    by (rule db_okI [OF ok inj]) (use dict_table.indexes_set [OF db_okD(3) [OF db], of k "n_recs s" kfl] t l in simp_all)
  moreover have "value_of s' j = ((value_of s)(k \<mapsto> c)) j" for j
  proof (cases "j = k")
    case True
    then show ?thesis using new by (simp add: value_of_def l)
  next
    case False
    then show ?thesis using same live_sound [of s j]
      by (cases "live s j") (auto simp: value_of_def l)
  qed
  ultimately show ?thesis by (simp add: fun_eq_iff)
qed

lemma insert_refines:
  fixes cfg keep kfl
  assumes db: "db_ok s" and k: "live s k = None" and cl: "claimed s line xs d s1"
    and dis: "disjoint_rows (xs[d := new])" and new: "row_ok s1 new" "kr_key new = k" and f: "files_ok s1"
    and same: "\<And>i. i < length xs \<Longrightarrow> i \<noteq> d \<Longrightarrow> content s1 (xs ! i) = content s (xs ! i)"
    and q: "quiet (insert_row cfg line new s1) s2" "ktab s2 = ktab s1" "ftab s2 = ftab s1" "fopen s2 = fopen s1"
      "vfiles s2 = vfiles s1" "dcache s2 = dcache (insert_row cfg line new s1)"
  defines "s3 \<equiv> count_record keep k kfl s2"
  shows "db_ok s3 \<and> value_of s3 = (value_of s)(k \<mapsto> content s1 new) \<and> n_recs s3 = n_recs s + 1"
proof -
  have c: "rows s1 = xs[d := xs ! line]" "n_recs s \<le> line" "line \<le> d" "d < length xs" "lines s \<le> length xs"
      "\<forall>i < line. xs ! i = rows s ! i" "\<forall>x \<in> set xs. row_ok s1 x" "n_recs s1 = n_recs s" "ktab s1 = ktab s" "dcache_ok s1"
    using cl by (auto simp: claimed_def)
  let ?n = "n_recs s" and ?i = "insert_row cfg line new s1"
  define n1 where "n1 = rows ?i ! ?n"
  have n1: "\<exists>st. n1 = complete cfg st new None" using c by (auto simp: n1_def insert_row_def)
  then have n1s [simp]: "cells n1 = cells new" "\<And>t. row_ok t n1 = row_ok t new" "\<And>t. content t n1 = content t new" "kr_key n1 = kr_key new"
    by auto
  have rw: "rows ?i = rotated xs ?n line d (xs ! ?n) n1"
  proof (cases "?n < line")
    case True
    then have "(xs[d := xs ! line]) ! ?n = xs ! ?n" using c by simp
    then show ?thesis using True c n1_def by (simp add: insert_row_def rotated_def list_update_swap)
  next
    case False
    then show ?thesis using c n1_def by (simp add: insert_row_def rotated_def)
  qed
  have l: "?n < length xs" "line < length xs" using c by auto
  have "disjoint_rows (xs[d := n1])" using dis disjoint_update [of "xs[d := new]" d n1] by simp
  then have "disjoint_rows (rows ?i)" unfolding rw using c l by (intro disjoint_rotated) auto
  moreover have "\<forall>x \<in> set (rows ?i). row_ok s1 x"
    unfolding rw using set_rotated [OF l(2), of ?n d "xs ! ?n" n1] c(7) nth_mem [OF l(1)] new by auto
  moreover have "dcache_ok ?i"
    unfolding insert_row_def using c l by (intro dcache_ok_write_k) (auto simp: dcache_ok_copy_k)
  moreover note qd = quietD [OF q(1)]
  have r3: "rows s3 = rows ?i" "n_recs s3 = Suc ?n" "vfiles s3 = vfiles s1" "ftab s3 = ftab s1" "fopen s3 = fopen s1"
      "dcache s3 = dcache ?i" "ktab s3 = table_set k ?n kfl (ktab s)"
    using qd q c by (simp_all add: s3_def count_record_def set_key_def next_sync_def insert_row_def write_k_def copy_k_def Let_def)
  have v3: "vfile s3 = vfile s1" "row_ok s3 = row_ok s1"
    using r3 by (simp_all add: vfile_def row_ok_def used_def fun_eq_iff)
  ultimately have st: "store_ok s3"
    using f files_ok_cong [OF r3(4,5)] r3 l dcache_ok_same [of s3 ?i] rw by (simp add: store_ok_def space_ok_def)
  have "db_ok s3 \<and> value_of s3 = (value_of s)(k \<mapsto> content s1 new)"
  proof (rule value_insert [OF db k st r3(7)])
    fix i assume i: "i < ?n"
    then have "rows ?i ! i = rows s ! i" using c l by (simp add: rw nth_rotated)
    then show "kr_key (rows s3 ! i) = kr_key (rows s ! i) \<and> content s3 (rows s3 ! i) = content s (rows s ! i)"
      using same [of i] c i r3 content_files [OF v3(1)] by auto
  qed (use r3 n1s n1_def new(2) content_files [OF v3(1)] in simp_all)
  then show ?thesis using r3 by simp
qed

lemma note_insert: "note_used f n (insert_row cfg line new s) = insert_row cfg line new (note_used f n s)"
proof -
  have "n_recs (note_used f n s) = n_recs s" by (simp add: note_used_def)
  then show ?thesis by (simp add: insert_row_def note_write_k note_copy_k)
qed

lemma insert_row_fields [simp]:
  "ktab (insert_row cfg line new s) = ktab s" "ftab (insert_row cfg line new s) = ftab s"
  "fopen (insert_row cfg line new s) = fopen s" "vfiles (insert_row cfg line new s) = vfiles s"
  by (simp_all add: insert_row_def write_k_def copy_k_def Let_def)

lemma cache_new_fields [simp]:
  "ktab (cache_new cfg k v fl s) = ktab s" "ftab (cache_new cfg k v fl s) = ftab s" "fopen (cache_new cfg k v fl s) = fopen s"
  "vfiles (cache_new cfg k v fl s) = vfiles s" "dcache (cache_new cfg k v fl s) = dcache s"
  by (simp_all add: cache_new_def update_cache_def cache_pop_def Let_def)

section \<open>\<open>f_write\<close>\<close>

fun slot_content :: "slot \<Rightarrow> content" where
  "slot_content (Inline t p n) = Fields t p n"
| "slot_content (InFile data n) = Data data"

text \<open>No serializer returns an empty byte string.\<close>

definition storable :: "settings \<Rightarrow> jval \<Rightarrow> bool" where
  "storable cfg v \<longleftrightarrow> (case encode_row (cod cfg) v of Inr (InFile data _) \<Rightarrow> data \<noteq> [] | _ \<Rightarrow> True)"

lemma put_slot_refines:
  fixes fl wsize revert cd md t kfl
  assumes db: "db_ok s" and cfg: "settings_ok cfg" and k: "live s k = Some row" and sl: "\<And>d n. sl = InFile d n \<Longrightarrow> d \<noteq> []"
  defines "x \<equiv> rows s ! row"
  defines "s2 \<equiv> put_slot cfg fl wsize k row x revert sl cd md t kfl s"
  shows "db_ok s2 \<and> value_of s2 = (value_of s)(k \<mapsto> slot_content sl) \<and> n_recs s2 = n_recs s \<and>
    (\<not> revert \<or> k \<in> set (chg s) \<or> parked s s2 (fst (dead_region cfg fl k s)) x)"
proof (cases sl)
  case (Inline tid p n)
  then show ?thesis
    using put_header_refines [OF db cfg k, of "krow_of k (tid, p, 0) n cd md t kfl" fl wsize revert]
    by (auto simp: s2_def x_def put_slot_def)
next
  case (InFile data n)
  then show ?thesis
    using put_data_refines [OF db cfg k sl [OF InFile], of fl wsize revert cd md t kfl]
    by (auto simp: s2_def x_def put_slot_def)
qed

lemma unchanged_spec:
  assumes "unchanged cfg x sl s = (same, s')" "store_ok s" "x \<in> set (rows s)"
  shows "quiet s s'" "same \<Longrightarrow> \<not> gzip cfg \<Longrightarrow> content s x = slot_content sl"
proof -
  show "quiet s s'"
    using assms quiet_get_val_fp(1) [OF assms(2,3), of cfg "min_value_size (cod cfg)"]
    by (auto simp: unchanged_def split: slot.splits if_splits prod.splits)
  then have v: "vfile s' = vfile s" by (rule quietD)
  show "content s x = slot_content sl" if "same" "\<not> gzip cfg"
    using assms(1) that v
    by (auto simp: unchanged_def same_bytes_def content_def split: slot.splits if_splits prod.splits)
qed

lemma value_of_live: "live s k = Some r \<Longrightarrow> value_of s k = Some (content s (rows s ! r))"
  by (simp add: value_of_def)

lemma value_same: "value_of s k = Some c \<Longrightarrow> (value_of s)(k \<mapsto> c) = value_of s"
  by auto

lemma in_rows: "db_ok s \<Longrightarrow> live s k = Some r \<Longrightarrow> r < lines s \<and> rows s ! r \<in> set (rows s)"
  using live_sound [of s k r] db_okD(2) [of s] by simp

text \<open>A change of flags, lifetime or days keeps the value.\<close>

lemma rewrite_row_keeps:
  assumes db: "db_ok s" and k: "live s k = Some row" and new: "kr_key new = k" "kr_file new = kr_file (rows s ! row)"
    "kr_off new = kr_off (rows s ! row)" "kr_rsz new = kr_rsz (rows s ! row)" "kr_vsz new = kr_vsz (rows s ! row)"
  shows "db_ok (write_k cfg row new v s) \<and> value_of (write_k cfg row new v s) = value_of s \<and>
    live (write_k cfg row new v s) k = Some row"
proof -
  let ?t = "write_k cfg row new v s"
  have "row_ok s (rows s ! row)" using db_okD(1) [OF db] in_rows [OF db k] by (simp add: store_ok_def space_ok_def)
  then have w: "db_ok ?t \<and> value_of ?t = (value_of s)(k \<mapsto> content s new)"
    using new by (intro write_in_place [OF db k]) (simp_all add: cells_def row_ok_def)
  moreover have "content s new = content s (rows s ! row)" using new by (simp add: content_def)
  moreover have "live ?t k = Some row"
    using w live_iff [of ?t, where k = k and r = row] live_sound [OF k] in_rows [OF db k] new(1)
      same_dataD(1) [OF write_k_same [of s cfg row new v]] by simp
  ultimately show ?thesis using value_same [OF value_of_live [OF k]] by simp
qed

lemma read_live:
  assumes db: "db_ok s" and k: "live s k = Some row" and r: "read_k row s = (x, s1)"
  shows "x = rows s ! row" "quiet s s1" "db_ok s1" "live s1 k = Some row" "rows s1 = rows s"
proof -
  show "x = rows s ! row" using read_k_simps(1) [of row s] r by simp
  show q: "quiet s s1" using quiet_read_k [of row s] in_rows [OF db k] r by simp
  show "db_ok s1" "live s1 k = Some row" "rows s1 = rows s" using quietD [OF q] db k by simp_all
qed

lemma f_write_key_flags_cases:
  assumes f: "f_write_key_flags cfg k arg t md s = (r, s')"
  obtains (none) "s' = s"
  | (read) row x where "table_get k (-1) (ktab s) = int row" "row < n_recs s" "read_k row s = (x, s')"
  | (rewritten) row x s1 m t' fl u where "table_get k (-1) (ktab s) = int row" "row < n_recs s" "read_k row s = (x, s1)"
      "kr_key x = k" "u = next_sync (write_k cfg row (x\<lparr>kr_mdays := m, kr_ttl := t', kr_flags := fl\<rparr>) (Some (kr_ver x)) s1)"
      "s' = set_key k row fl (if fl AND KF_NO_CACHE \<noteq> 0 then cache_pop k u else u)"
proof (cases "0 \<le> table_get k (-1) (ktab s) \<and> table_get k (-1) (ktab s) < int (n_recs s)")
  case False
  then show thesis using f none by (auto simp: f_write_key_flags_def Let_def)
next
  case True
  define row where "row = nat (table_get k (-1) (ktab s))"
  have row: "table_get k (-1) (ktab s) = int row" "row < n_recs s"
    using True by (simp_all add: row_def nat_less_iff)
  obtain x s1 where rd: "read_k row s = (x, s1)" by (metis surj_pair)
  have f1: "(r, s') = (case (case t of None \<Rightarrow> Inr (kr_ttl x) | Some a \<Rightarrow> ttl_start a) of
                Inl e \<Rightarrow> (Inl e, s1)
              | Inr t' \<Rightarrow>
                  let md' = (if num_val md < 0 then kr_mdays x else md);
                      fl = (apply_key_flags arg (kr_flags x) AND WRITABLE_FLAG_MASK) OR
                           (kr_flags x AND DERIVED_FLAG_MASK) OR expire_bit t'
                  in if kr_key x = k \<and> (kr_flags x \<noteq> fl \<or> num_val t' \<noteq> num_val (kr_ttl x) \<or>
                          num_val md' \<noteq> num_val (kr_mdays x)) then
                       (let s = next_sync (write_k cfg row (x\<lparr>kr_mdays := md', kr_ttl := t', kr_flags := fl\<rparr>)
                                  (Some (kr_ver x)) s1);
                            s = (if fl AND KF_NO_CACHE \<noteq> 0 then cache_pop k s else s)
                        in (Inr True, set_key k row fl s))
                     else (Inr False, s1))"
    using f True rd unfolding f_write_key_flags_def row_def [symmetric] Let_def by simp
  show thesis
  proof (cases "case t of None \<Rightarrow> Inr (kr_ttl x) | Some a \<Rightarrow> ttl_start a")
    case (Inl e)
    with f1 read [OF row] rd show thesis by simp
  next
    case (Inr t')
    then show thesis
      using f1 read [OF row, of x] rewritten [OF row rd] rd unfolding Let_def Inr sum.case
      by (split if_split_asm) blast+
  qed
qed

lemma f_write_key_flags_keeps:
  assumes db: "db_ok s" and f: "f_write_key_flags cfg k arg t md s = (r, s')"
  shows "db_ok s' \<and> value_of s' = value_of s"
proof -
  have k: "live s k = Some row" if "table_get k (-1) (ktab s) = int row" for row
    using that table_live(2) [OF db, of k] by (cases "table_get_both k (ktab s)") (auto simp: table_get_eq split: if_splits)
  from f show ?thesis
  proof (cases rule: f_write_key_flags_cases)
    case none
    then show ?thesis using db by simp
  next
    case (read row x)
    from quietD [OF read_live(2) [OF db k [OF read(1)] read(3)]] db show ?thesis by simp
  next
    case (rewritten row x s1 m t' fl u)
    note rl = read_live [OF db k [OF rewritten(1)] rewritten(3)]
    define w where "w = write_k cfg row (x\<lparr>kr_mdays := m, kr_ttl := t', kr_flags := fl\<rparr>) (Some (kr_ver x)) s1"
    have w: "db_ok w \<and> value_of w = value_of s1 \<and> live w k = Some row"
      unfolding w_def using rl rewritten(4) by (intro rewrite_row_keeps) simp_all
    define u' where "u' = (if fl AND KF_NO_CACHE \<noteq> 0 then cache_pop k u else u)"
    have "quiet w u" using rewritten(5) by (simp add: w_def)
    moreover have "quiet u u'" by (simp add: u'_def)
    ultimately have qu: "quiet w u'" by (rule quiet_trans)
    have "live u' k = Some row" using quietD(9) [OF qu] w by simp
    then have "quiet u' s'" unfolding rewritten(6) u'_def [symmetric] by (rule quiet_set_key)
    from quietD [OF quiet_trans [OF qu this]] w quietD [OF rl(2)] show ?thesis by simp
  qed
qed

text \<open>The result of a writer: one key is updated, or nothing is.\<close>

definition updates :: "settings \<Rightarrow> store \<Rightarrow> key \<Rightarrow> jval \<Rightarrow> wres res \<Rightarrow> store \<Rightarrow> bool" where
  "updates cfg s k v r s' \<longleftrightarrow> db_ok s' \<and>
     (if r = Inr (Wrote True)
      then \<exists>sl. encode_row (cod cfg) v = Inr sl \<and> value_of s' = (value_of s)(k \<mapsto> slot_content sl)
      else value_of s' = value_of s)"

lemma updates_quiet: "db_ok s \<Longrightarrow> quiet s s' \<Longrightarrow> r \<noteq> Inr (Wrote True) \<Longrightarrow> updates cfg s k v r s'"
  using quietD(7,10) [of s s'] by (simp add: updates_def)

lemma updates_later: "quiet s s1 \<Longrightarrow> updates cfg s1 k v r s' \<Longrightarrow> updates cfg s k v r s'"
proof -
  assume "quiet s s1" "updates cfg s1 k v r s'"
  moreover from this(1) have "value_of s1 = value_of s" by (rule quietD)
  ultimately show ?thesis unfolding updates_def by metis
qed

lemma updates_none: "db_ok s \<Longrightarrow> r \<noteq> Inr (Wrote True) \<Longrightarrow> updates cfg s k v r s"
  by (rule updates_quiet) simp_all

lemma storableD: "storable cfg v \<Longrightarrow> encode_row (cod cfg) v = Inr (InFile d n) \<Longrightarrow> d \<noteq> []"
  by (simp add: storable_def)

lemma store_version_updates:
  assumes db: "db_ok s" and cfg: "settings_ok cfg" "\<not> gzip cfg" and k: "live s k = Some row" and v: "storable cfg v"
    and sl: "encode_row (cod cfg) v = Inr sl"
    and f: "store_version cfg k v fl wsize checked row (rows s ! row) sl revert cd md t kfl s = (r, s')"
  shows "updates cfg s k v r s'"
proof -
  let ?x = "rows s ! row"
  obtain same s2 where u: "(if checked then (False, s) else unchanged cfg ?x sl s) = (same, s2)" by (metis surj_pair)
  have x: "?x \<in> set (rows s)" "store_ok s" using in_rows [OF db k] db_okD(1) [OF db] by auto
  have q: "quiet s s2" using u unchanged_spec(1) [OF _ x(2,1)] by (auto split: if_splits)
  note qd = quietD [OF q]
  show ?thesis
  proof (cases same)
    case True
    define s3 where "s3 = cache_new cfg k v kfl s2"
    have q3: "quiet s s3" using quiet_trans [OF q quiet_cache_new] by (simp add: s3_def)
    have "content s ?x = slot_content sl"
      using u True unchanged_spec(2) [OF _ x(2,1)] cfg(2) by (auto split: if_splits)
    then have "(value_of s)(k \<mapsto> slot_content sl) = value_of s"
      using value_of_live [OF k] by (intro value_same) simp
    moreover have "s' = s3 \<or> (\<exists>b. f_write_key_flags cfg k (FInt kfl) (Some (TTL_Num t)) md s3 = (b, s'))"
      using f u True unfolding store_version_def Let_def s3_def by (auto split: prod.splits if_splits)
    then have "db_ok s' \<and> value_of s' = value_of s"
      using f_write_key_flags_keeps [OF quietD(7) [OF q3 db]] quietD(7,10) [OF q3] db by auto
    ultimately show ?thesis using sl by (simp add: updates_def)
  next
    case False
    define p where "p = put_slot cfg fl wsize k row ?x revert sl cd md t kfl s2"
    have p: "db_ok p \<and> value_of p = (value_of s2)(k \<mapsto> slot_content sl)"
      using put_slot_refines [OF qd(7) [OF db] cfg(1), of k row sl fl wsize revert cd md t kfl] storableD [OF v] sl k qd
      by (simp add: p_def)
    have e: "r = Inr (Wrote True)" "s' = cache_new cfg k v kfl (next_sync p)"
      using f u False unfolding store_version_def Let_def p_def by simp_all
    have "quiet p s'" unfolding e(2) by (rule quiet_trans [OF quiet_small(4) quiet_cache_new])
    from quietD(7,10) [OF this] p qd(10) sl show ?thesis by (simp add: updates_def e(1))
  qed
qed

lemma write_over_updates:
  assumes db: "db_ok s" and cfg: "settings_ok cfg" "\<not> gzip cfg" and k: "live s k = Some row" and v: "storable cfg v"
    and f: "write_over cfg k v w transient arg checked row (rows s ! row) s = (r, s')"
  shows "updates cfg s k v r s'"
proof (cases "ttl_given (w_ttl w)")
  case (Inl e)
  then show ?thesis using f db by (auto simp: write_over_def intro: updates_none)
next
  case (Inr t0)
  let ?x = "rows s ! row"
  define t where "t = (if num_val t0 < 0 then kr_ttl ?x else t0)"
  define kfl where "kfl = new_flags transient arg (kr_flags ?x) t v"
  define s1 where "s1 = (if kfl \<noteq> kr_flags ?x then set_key k row kfl (attach_group k v s) else attach_group k v s)"
  have q1: "quiet s s1"
  proof -
    have "quiet (attach_group k v s) (set_key k row kfl (attach_group k v s))"
      using k quietD(9) [OF quiet_small(3) [of s k v]] by (intro quiet_set_key) simp
    then show ?thesis using quiet_trans [OF quiet_small(3)] by (simp add: s1_def)
  qed
  note qd1 = quietD [OF q1]
  show ?thesis
  proof (cases "encode_row (cod cfg) v")
    case (Inl e)
    then have "(r, s') = (Inl e, s1)"
      using f Inr unfolding write_over_def s1_def kfl_def t_def Let_def by (simp split: prod.splits)
    then show ?thesis using updates_quiet [OF db q1] by simp
  next
    case sl: (Inr sl)
    obtain cd md fl revert where f0: "store_version cfg k v fl (w_wsize w) checked row ?x sl revert cd md t kfl s1 = (r, s')"
      using f Inr sl unfolding write_over_def s1_def kfl_def t_def Let_def sum.case
      by (cases "day_args (w_cdays w) (w_mdays w)") auto
    then show ?thesis
      using store_version_updates [OF quietD(7) [OF q1 db] cfg _ v] k qd1 sl updates_later [OF q1] by simp
  qed
qed

lemma write_new_updates:
  assumes db: "db_ok s" and cfg: "settings_ok cfg" and k: "live s k = None" and v: "storable cfg v"
    and f: "write_new cfg k v w transient arg s = (r, s')"
  shows "updates cfg s k v r s'"
proof (cases "transient AND KF_MUST_EXIST \<noteq> 0")
  case True
  then show ?thesis using f db by (auto simp: write_new_def intro: updates_none)
next
  case F0: False
  show ?thesis
  proof (cases "ttl_start (w_ttl w)")
    case (Inl e)
    then show ?thesis using f db F0 by (auto simp: write_new_def intro: updates_none)
  next
    case (Inr t)
    define kfl where "kfl = new_flags 0 arg 0 t v"
    define s1 where "s1 = attach_group k v s"
    have q1: "quiet s s1" by (simp add: s1_def)
    note qd = quietD [OF q1]
    have db1: "db_ok s1" "live s1 k = None" using qd db k by simp_all
    show ?thesis
    proof (cases "encode_row (cod cfg) v")
      case (Inl e)
      then have "(r, s') = (Inl e, s1)"
        using f F0 Inr unfolding write_new_def s1_def Let_def by (simp del: key_flag_bit.simps split: prod.splits)
      then show ?thesis using updates_quiet [OF db q1] by simp
    next
      case sl: (Inr sl)
      obtain cd md where dm: "day_args (w_cdays w) (w_mdays w) = (cd, md)" by (metis surj_pair)
      define fl where "fl = (case w_flags w of None \<Rightarrow> jflags cfg | Some fl \<Rightarrow> fl)"
      have e: "r = Inr (Wrote True)" "s' = count_record (F_REVERT AND fl \<noteq> 0) k kfl (cache_new cfg k v kfl
          (case sl of
             Inline tid p n \<Rightarrow>
               (let (line, s) = claim_header cfg fl (w_wsize w) k s1
                in insert_row cfg line (krow_of k (tid, p, 0) n cd md t kfl) s)
           | InFile data _ \<Rightarrow>
               (let (line, (f, p, z), s) = claim_value cfg fl (w_wsize w) k data s1
                in note_used f (p + z) (insert_row cfg line (krow_of k (f, p, z) (length data) cd md t kfl) s))))"
        using f F0 Inr sl dm unfolding write_new_def s1_def kfl_def fl_def Let_def sum.case by (simp_all del: key_flag_bit.simps)
      show ?thesis
      proof (cases sl)
        case (Inline tid p n)
        obtain line s2 where c: "claim_header cfg fl (w_wsize w) k s1 = (line, s2)" by (metis surj_pair)
        from claim_header_spec [OF c cfg db_okD(1) [OF db1(1)]]
        obtain xs d where cl: "claimed s1 line xs d s2" "vfiles s2 = vfiles s1" "ftab s2 = ftab s1" "fopen s2 = fopen s1"
            "\<forall>y. cells y = {} \<longrightarrow> disjoint_rows (xs[d := y])"
          by blast
        have cont: "content s2 = content s1" by (rule content_files) (use cl(2) in \<open>simp add: vfile_def fun_eq_iff\<close>)
        have fo: "files_ok s2" using files_ok_cong [OF cl(3,4)] db_okD(1) [OF db1(1)] by (simp add: store_ok_def)
        define new where "new = krow_of k (tid, p, 0) n cd md t kfl"
        have "db_ok s' \<and> value_of s' = (value_of s1)(k \<mapsto> content s2 new) \<and> n_recs s' = n_recs s1 + 1"
          unfolding e(2) Inline slot.case c Let_def prod.case new_def [symmetric]
          by (rule insert_refines [OF db1 cl(1) _ _ _ fo]) (use cl(5) cont in \<open>simp_all add: new_def row_ok_def\<close>)
        then show ?thesis using e sl Inline qd by (simp add: updates_def new_def)
      next
        case (InFile data n)
        obtain line f' p z s2 where c: "claim_value cfg fl (w_wsize w) k data s1 = (line, (f', p, z), s2)" by (metis surj_pair)
        define new where "new = krow_of k (f', p, z) (length data) cd md t kfl"
        define u where "u = note_used f' (p + z) s2"
        have "data \<noteq> []" using storableD [OF v] sl InFile by simp
        from claim_value_ready [OF c cfg db_okD(1) [OF db1(1)] this, of cd md t kfl, folded new_def u_def]
        obtain xs d where cl: "claimed s1 line xs d u" "disjoint_rows (xs[d := new])" "row_ok u new" "files_ok u"
            "content u new = Data data" "\<forall>i < length xs. i \<noteq> d \<longrightarrow> content u (xs ! i) = content s1 (xs ! i)"
          by blast
        have "db_ok s' \<and> value_of s' = (value_of s1)(k \<mapsto> content u new) \<and> n_recs s' = n_recs s1 + 1"
          unfolding e(2) InFile slot.case c Let_def prod.case new_def [symmetric] note_insert u_def [symmetric]
          by (rule insert_refines [OF db1 cl(1,2,3) _ cl(4)]) (use cl(6) in \<open>simp_all add: new_def\<close>)
        then show ?thesis using e sl InFile qd cl(5) by (simp add: updates_def)
      qed
    qed
  qed
qed

lemma write_found_updates:
  assumes db: "db_ok s" and cfg: "settings_ok cfg" "\<not> gzip cfg" and k: "live s k = Some row" and v: "storable cfg v"
    and f: "write_found cfg k v w transient arg row old s = (r, s')"
  shows "updates cfg s k v r s'"
proof -
  obtain x s1 where rd: "read_k row s = (x, s1)" by (metis surj_pair)
  note rl = read_live [OF db k rd]
  have x: "x \<in> set (rows s1)" "x = rows s1 ! row" using rl(1,5) in_rows [OF db k] by simp_all
  have over: "updates cfg s k v r' s''" if "write_over cfg k v w transient arg checked row x s2 = (r', s'')" "quiet s1 s2"
    for checked s2 r' s''
  proof -
    have q: "quiet s s2" by (rule quiet_trans [OF rl(2) that(2)])
    have "rows s2 ! row = x" using quietD(1) [OF that(2)] x(2) by simp
    then have w2: "write_over cfg k v w transient arg checked row (rows s2 ! row) s2 = (r', s'')" using that(1) by (simp only:)
    have k2: "live s2 k = Some row" using k quietD(9) [OF q] by simp
    have "updates cfg s2 k v r' s''" by (rule write_over_updates [OF quietD(7) [OF q db] cfg k2 v w2])
    with q show ?thesis by (rule updates_later)
  qed
  have q1: "quiet s (snd (row_value cfg x s1))"
    by (rule quiet_trans [OF rl(2) quiet_row_value [OF db_okD(1) [OF rl(3)] x(1)]])
  have q2: "quiet s1 (snd (decode_value cfg k x False False s1))" by (rule quiet_decode_value [OF rl(3) x(1)])
  have no: "updates cfg s k v r' s''" if "quiet s s''" "r' \<noteq> Inr (Wrote True)" for r' s''
    using updates_quiet [OF db that] .
  show ?thesis
  proof (cases "\<exists>checked s2. quiet s1 s2 \<and> (r, s') = write_over cfg k v w transient arg checked row x s2")
    case True
    then show ?thesis using over by metis
  next
    case False
    then have nw: "\<And>checked s2. quiet s1 s2 \<Longrightarrow> write_over cfg k v w transient arg checked row x s2 \<noteq> (r, s')" by metis
    obtain dv s2 where d: "decode_value cfg k x False False s1 = (dv, s2)" by (metis surj_pair)
    obtain rv s3 where rv: "row_value cfg x s1 = (rv, s3)" by (metis surj_pair)
    have q: "quiet s1 s2" "quiet s s2" "quiet s s3" using q1 q2 quiet_trans [OF rl(2) q2] d rv by simp_all
    have "map_sum id FollowLink rv \<noteq> Inr (Wrote True)" "map_sum id CheckLink rv \<noteq> Inr (Wrote True)"
      by (cases rv; simp)+
    then have "(s' = s \<or> s' = cache_touch k s \<or> s' = s1 \<or> s' = s2 \<or> s' = s3) \<and> r \<noteq> Inr (Wrote True)"
      using f nw [OF q(1)] nw [OF quiet_refl] d rv rd unfolding write_found_def Let_def
      by (auto split: if_splits sum.splits simp del: key_flag_bit.simps)
    then show ?thesis using no q rl(2) by auto
  qed
qed

lemma f_write_updates:
  assumes "db_ok s" "settings_ok cfg" "\<not> gzip cfg" "storable cfg (plain_bytes v)" "f_write cfg k v w s = (r, s')"
  shows "updates cfg s k (plain_bytes v) r s'"
proof -
  obtain row old where t: "table_get_both k (ktab s) = (row, old)" by (metis surj_pair)
  obtain tr arg where p: "pop_transient_flags (w_keyfl w) = (tr, arg)" by (metis surj_pair)
  note tl = table_live [OF assms(1) t]
  show ?thesis
  proof (cases "rejected cfg k (plain_bytes v) \<or> MAX_KEY_SIZE < length k")
    case True
    then have "s' = s" "r \<noteq> Inr (Wrote True)" using assms(5) by (auto simp: f_write_def Let_def split: if_splits)
    then show ?thesis using updates_none [OF assms(1)] by simp
  next
    case False
    then have "(if row \<ge> 0 then write_found cfg k (plain_bytes v) w tr arg (nat row) old s
        else write_new cfg k (plain_bytes v) w tr arg s) = (r, s')"
      using assms(5) t p by (simp add: f_write_def Let_def)
    then show ?thesis
      using write_found_updates [OF assms(1-3) tl(2) assms(4)] write_new_updates [OF assms(1,2) _ assms(4)] tl(1)
      by (simp split: if_splits)
  qed
qed

text \<open>A database that has just been created, and settings for it.\<close>

definition new_store :: store where
  "new_store = \<lparr>rows = [], n_recs = 0, ktab = [], grps = [], kcache = [], dcache = [], vfiles = [], ftab = [],
     fopen = [], maxv = -1, sync = 0, swap = 0, remv = 0, lines0 = 0, safe = 0, chg = [], vcache = [], expired = []\<rparr>"

definition demo_cfg :: settings where
  "demo_cfg = \<lparr>cod = text_codec, day_now = 20000, live_now = PI 20000, jflags = 0, cache_limit = 0, min_safe = 0,
     def_wsize = 0, window = 16, max_fsize = 1000, hook = None, gzip = False, pick = (\<lambda>_. 0), grp_eq = (\<lambda>_ _. False)\<rparr>"

definition demo_args :: wargs where
  "demo_args = \<lparr>w_cdays = -1, w_mdays = PI (-1), w_ttl = TTL_Num (PI (-1)), w_flags = None, w_wsize = None, w_over = False,
     w_keyfl = FNone\<rparr>"

lemma new_store_ok: "db_ok new_store"
proof (rule db_okI)
  show "store_ok new_store"
    by (simp add: store_ok_def space_ok_def files_ok_def dcache_ok_def disjoint_rows_def new_store_def)
  show "dict_table.indexes (ktab new_store) (live new_store)"
  proof -
    have "live new_store = (\<lambda>_. None)" by (simp add: live_def new_store_def fun_eq_iff)
    then show ?thesis using dict_table.indexes_empty by (simp add: new_store_def)
  qed
qed (simp add: new_store_def)

lemma new_store_empty: "value_of new_store = Map.empty"
  by (simp add: value_of_def live_def new_store_def fun_eq_iff)

lemma demo_cfg_ok: "settings_ok demo_cfg" "\<not> gzip demo_cfg"
  by (simp_all add: settings_ok_def demo_cfg_def text_codec_def)

lemma demo_write: "fst (f_write demo_cfg [97] (Plain (VBool True)) demo_args new_store) = Inr (Wrote True)"
  by (simp add: f_write_def write_new_def rejected_def demo_cfg_def demo_args_def new_store_def MAX_KEY_SIZE_def MAX_INDEX_SIZE_def
    table_get_both_def ttl_start_def MAX_TTL_DAYS_def day_args_def Let_def split: prod.split)

text \<open>
  C1: Whatever \<open>f_write\<close> returns, the invariant of the database is kept and the write is an
  update of the map from keys to contents: if it returns true the key holds the encoded
  value, otherwise (refused, equal, a link to follow, an error) no key has changed.
\<close>

theorem f_write_refines_update:
  assumes "db_ok s" "settings_ok cfg" "\<not> gzip cfg" "storable cfg (plain_bytes v)" "f_write cfg k v w s = (r, s')"
  shows "db_ok s' \<and>
     (if r = Inr (Wrote True)
      then \<exists>sl. encode_row (cod cfg) (plain_bytes v) = Inr sl \<and> value_of s' = (value_of s)(k \<mapsto> slot_content sl)
      else value_of s' = value_of s)"
  using f_write_updates [OF assms] unfolding updates_def .

theorem f_write_refines_update_witness:
  "value_of (snd (f_write demo_cfg [97] (Plain (VBool True)) demo_args new_store)) = [[97] \<mapsto> Fields 1 1 0]"
proof -
  have "storable demo_cfg (plain_bytes (Plain (VBool True)))" by (simp add: storable_def)
  from f_write_refines_update [OF new_store_ok demo_cfg_ok this surjective_pairing, of "[97]" demo_args]
  show ?thesis by (auto simp: demo_write new_store_empty)
qed

end
