(* ===== verification/Record_Delete.thy ===== *)
theory Record_Delete
  imports Record_Refine
begin

text \<open>
  Deleting records: \<open>f_delete\<close> of \<open>omni_json_db/jdb.py\<close>.  A deleted record stays in the
  file as a dead row until a writer takes it.
\<close>

section \<open>\<open>f_delete\<close>\<close>

datatype del_res = Locked | Deleted "jval option"

text \<open>The row that keeps the deleted version, and what moves there.\<close>

definition bury :: "settings \<Rightarrow> int \<Rightarrow> key \<Rightarrow> nat \<Rightarrow> krow \<Rightarrow> store \<Rightarrow> store" where
  "bury cfg fl k row x s =
     (let n = n_recs s; rec_t = n - 1; safe_t = min (max (safe s) n) (lines s) - 1;
          deep = (safe_t \<noteq> rec_t \<and> F_REVERT AND fl \<noteq> 0 \<and> k \<in> set (chg s));
          moved = (if row < rec_t then Some (kr_key (rows s ! rec_t), kr_flags (rows s ! rec_t)) else None);
          s = s\<lparr>n_recs := rec_t\<rparr>;
          s = (if row < rec_t then copy_k rec_t row (pop_key k s) else s);
          s = (if deep then copy_k safe_t rec_t s else s);
          s = write_k cfg (if deep then safe_t else rec_t) (x\<lparr>kr_key := k, kr_flags := kr_flags x AND USER_FLAG_MASK\<rparr>) None s;
          s = next_sync (s\<lparr>swap := (if row < rec_t then (swap s + 1) AND SYNC_MASK else swap s),
                           remv := (remv s + 1) AND SYNC_MASK\<rparr>);
          s = (case moved of None \<Rightarrow> s | Some (k', f') \<Rightarrow> set_key k' row f' s)
      in pop_key k s)"

text \<open>The value is read first when it is wanted, and always for a group.\<close>

definition delete_row :: "settings \<Rightarrow> key \<Rightarrow> bool \<Rightarrow> int \<Rightarrow> nat \<Rightarrow> krow \<Rightarrow> store \<Rightarrow> del_res res \<times> store" where
  "delete_row cfg k rd fl row x s =
     (let want = (rd \<or> k \<in> fst ` set (grps s) \<or> kr_flags x AND KF_GROUP \<noteq> 0)
      in case (if want then decode_value cfg k x False False s else (Inr (Plain VNone), s)) of
           (Inl e, s) \<Rightarrow> (Inl e, s)
         | (Inr v, s) \<Rightarrow>
             (Inr (Deleted (if want then Some v else None)), bury cfg fl k row x (s\<lparr>grps := assoc_del k (grps s)\<rparr>)))"

definition f_delete :: "settings \<Rightarrow> key \<Rightarrow> bool \<Rightarrow> nat option \<Rightarrow> int option \<Rightarrow> flags_arg \<Rightarrow> store \<Rightarrow> del_res res \<times> store" where
  "f_delete cfg k rd rw flags arg s =
     (let s = cache_pop k s;
          row = (if rw = None \<or> k \<noteq> [] then table_get k (-1) (ktab s) else int (the rw))
      in if row < 0 then (Inl JKeyError, s)
         else
           let (transient, _) = pop_transient_flags arg; (x, s) = read_k (nat row) s
           in if kr_flags x AND DELETE_LOCK_MASK \<noteq> 0 \<and> transient AND KF_UNLOCK = 0 then (Inr Locked, s)
              else if k \<noteq> [] \<and> kr_key x \<noteq> k then (Inl JKeyError, s)
              else delete_row cfg (kr_key x) rd (case flags of None \<Rightarrow> jflags cfg | Some fl \<Rightarrow> fl) (nat row) x s)"

section \<open>Deleting removes one key\<close>

lemma bury_rows:
  fixes cfg fl
  assumes db: "db_ok s" and k: "live s k = Some row"
  defines "x \<equiv> rows s ! row" and "s' \<equiv> bury cfg fl k row (rows s ! row) s" and "n \<equiv> n_recs s"
  shows "\<exists>t st. n - 1 \<le> t \<and> t < lines s \<and> (\<not> (F_REVERT AND fl \<noteq> 0 \<and> k \<in> set (chg s)) \<longrightarrow> t = n - 1) \<and>
      rows s' = rotated (rows s) t (n - 1) row (rows s ! t)
        (complete cfg st (x\<lparr>kr_key := k, kr_flags := kr_flags x AND USER_FLAG_MASK\<rparr>) None)"
    and "n_recs s' = n - 1" "vfiles s' = vfiles s" "ftab s' = ftab s" "fopen s' = fopen s" "dcache_ok s \<Longrightarrow> dcache_ok s'"
    and "ktab s' = snd (table_pop k (-1) (if row < n - 1 then
          table_set (kr_key (rows s ! (n - 1))) row (kr_flags (rows s ! (n - 1))) (snd (table_pop k (-1) (ktab s))) else ktab s))"
    and "lines0 s' = lines0 s"
proof -
  have row: "row < n" "n \<le> lines s" "row \<le> n - 1" "n - 1 < lines s"
    using live_sound [OF k] db_okD(2) [OF db] by (auto simp: n_def)
  define safe_t where "safe_t = min (max (safe s) n) (lines s) - 1"
  define deep where "deep \<longleftrightarrow> safe_t \<noteq> n - 1 \<and> F_REVERT AND fl \<noteq> 0 \<and> k \<in> set (chg s)"
  define t where "t = (if deep then safe_t else n - 1)"
  have st: "n - 1 \<le> safe_t" "safe_t < lines s" using row by (auto simp: safe_t_def)
  define s0 where "s0 = s\<lparr>n_recs := n - 1\<rparr>"
  define s1 where "s1 = (if row < n - 1 then copy_k (n - 1) row (pop_key k s0) else s0)"
  define s2 where "s2 = (if deep then copy_k safe_t (n - 1) s1 else s1)"
  define y where "y = x\<lparr>kr_key := k, kr_flags := kr_flags x AND USER_FLAG_MASK\<rparr>"
  define s3 where "s3 = write_k cfg t y None s2"
  define s4 where "s4 = next_sync (s3\<lparr>swap := (if row < n - 1 then (swap s3 + 1) AND SYNC_MASK else swap s3),
      remv := (remv s3 + 1) AND SYNC_MASK\<rparr>)"
  have s': "s' = pop_key k (if row < n - 1 then set_key (kr_key (rows s ! (n - 1))) row (kr_flags (rows s ! (n - 1))) s4 else s4)"
    unfolding s'_def bury_def Let_def n_def [symmetric] safe_t_def [symmetric] deep_def [symmetric] x_def [symmetric] y_def [symmetric]
      s0_def [symmetric] s1_def [symmetric] s2_def [symmetric] t_def [symmetric] s3_def [symmetric] s4_def [symmetric]
    by (cases "row < n - 1") simp_all
  have r1: "rows s1 = (rows s)[row := rows s ! (n - 1)]"
    using row by (auto simp: s1_def s0_def pop_key_def copy_k_def)
  have r2: "rows s2 = (rows s)[row := rows s ! (n - 1), n - 1 := rows s ! t]" if deep
    using that st row by (simp add: s2_def r1 t_def deep_def)
  have r3: "rows s3 = rotated (rows s) t (n - 1) row (rows s ! t) (complete cfg s2 y None)"
  proof (cases deep)
    case True
    then show ?thesis using r2 by (simp add: s3_def rotated_def)
  next
    case False
    then show ?thesis by (simp add: s3_def s2_def r1 t_def rotated_def)
  qed
  have rs: "rows s' = rows s3" by (simp add: s' s4_def pop_key_def set_key_def next_sync_def)
  have tb: "n - 1 \<le> t" "t < lines s" "\<not> (F_REVERT AND fl \<noteq> 0 \<and> k \<in> set (chg s)) \<longrightarrow> t = n - 1"
    using st row by (auto simp: t_def deep_def)
  show "\<exists>t st. n - 1 \<le> t \<and> t < lines s \<and> (\<not> (F_REVERT AND fl \<noteq> 0 \<and> k \<in> set (chg s)) \<longrightarrow> t = n - 1) \<and>
      rows s' = rotated (rows s) t (n - 1) row (rows s ! t)
        (complete cfg st (x\<lparr>kr_key := k, kr_flags := kr_flags x AND USER_FLAG_MASK\<rparr>) None)"
    using tb r3 unfolding rs y_def by blast
  note defs = s' s4_def s3_def s2_def s1_def s0_def pop_key_def set_key_def next_sync_def write_k_def copy_k_def Let_def
  show "n_recs s' = n - 1" "vfiles s' = vfiles s" "ftab s' = ftab s" "fopen s' = fopen s" "lines0 s' = lines0 s"
    by (simp_all add: defs)
  show "ktab s' = snd (table_pop k (-1) (if row < n - 1 then
          table_set (kr_key (rows s ! (n - 1))) row (kr_flags (rows s ! (n - 1))) (snd (table_pop k (-1) (ktab s))) else ktab s))"
    by (simp add: defs)
  show "dcache_ok s'" if "dcache_ok s"
  proof -
    have "dcache_ok s0" using that by (simp add: s0_def dcache_ok_def)
    moreover from this have "dcache_ok (pop_key k s0)" by (simp add: pop_key_def dcache_ok_def)
    ultimately have "dcache_ok s1" by (simp add: s1_def dcache_ok_copy_k)
    then have "dcache_ok s2" by (simp add: s2_def dcache_ok_copy_k)
    moreover have "lines s2 = lines s" by (simp add: s2_def r1)
    ultimately have "dcache_ok s3" using tb by (simp add: s3_def dcache_ok_write_k)
    then show ?thesis by (simp add: s' s4_def pop_key_def set_key_def next_sync_def dcache_ok_def)
  qed
qed

lemma bury_refines:
  fixes cfg fl
  assumes db: "db_ok s" and k: "live s k = Some row"
  defines "x \<equiv> rows s ! row" and "s' \<equiv> bury cfg fl k row (rows s ! row) s" and "n \<equiv> n_recs s"
  shows "db_ok s'" "value_of s' = (value_of s)(k := None)"
    and "\<exists>t. n - 1 \<le> t \<and> t < lines s' \<and> (\<not> (F_REVERT AND fl \<noteq> 0 \<and> k \<in> set (chg s)) \<longrightarrow> t = n - 1) \<and>
      kr_key (rows s' ! t) = k \<and> kr_rsz (rows s' ! t) = kr_rsz x \<and> content s' (rows s' ! t) = content s x"
proof -
  note br = bury_rows [OF db k, where cfg = cfg and fl = fl, folded s'_def n_def x_def]
  obtain t st where t: "n - 1 \<le> t" "t < lines s" "\<not> (F_REVERT AND fl \<noteq> 0 \<and> k \<in> set (chg s)) \<longrightarrow> t = n - 1"
    and rw0: "rows s' = rotated (rows s) t (n - 1) row (rows s ! t)
        (complete cfg st (x\<lparr>kr_key := k, kr_flags := kr_flags x AND USER_FLAG_MASK\<rparr>) None)"
    using br(1) by blast
  define y where "y = complete cfg st (x\<lparr>kr_key := k, kr_flags := kr_flags x AND USER_FLAG_MASK\<rparr>) None"
  have rw: "rows s' = rotated (rows s) t (n - 1) row (rows s ! t) y" using rw0 by (simp add: y_def)
  have y: "cells y = cells x" "\<And>u. row_ok u y = row_ok u x" "\<And>u. content u y = content u x" "kr_key y = k" "kr_rsz y = kr_rsz x"
    by (simp_all add: y_def cells_def row_ok_def content_def)
  have row: "row < n" "row \<le> n - 1" "n - 1 < lines s" "n \<le> lines s"
    using live_sound [OF k] db_okD(2) [OF db] by (auto simp: n_def)
  have kx: "kr_key x = k" using live_sound [OF k] by (simp add: x_def)
  have vf: "vfile s' = vfile s" using br(3) by (simp add: vfile_def fun_eq_iff)
  have cont: "content s' = content s" by (rule content_files [OF vf])
  have rok: "row_ok s' = row_ok s" using br(4) vf by (simp add: row_ok_def used_def fun_eq_iff)
  have so: "space_ok s" "files_ok s" "dcache_ok s" using db_okD(1) [OF db] by (simp_all add: store_ok_def)
  have "disjoint_rows ((rows s)[row := y])"
    using so(1) y(1) by (intro disjoint_update) (auto simp: space_ok_def x_def)
  then have "disjoint_rows (rows s')"
    unfolding rw using t row by (intro disjoint_rotated) auto
  moreover have "\<forall>z \<in> set (rows s'). row_ok s z"
    unfolding rw using set_rotated [OF row(3), of t row "rows s ! t" y] so(1) y(2) t row
    by (auto simp: space_ok_def x_def)
  ultimately have st': "store_ok s'"
    using br(2,6) so files_ok_cong [OF br(4,5)] row rok by (auto simp: store_ok_def space_ok_def rw)
  have nth: "rows s' ! i = (if i = row then rows s ! (n - 1) else rows s ! i)" if "i < n - 1" for i
    using that t row by (simp add: rw nth_rotated)
  have orig: "\<exists>j < n. j \<noteq> row \<and> rows s' ! i = rows s ! j \<and> (j = n - 1 \<and> i = row \<or> j = i \<and> i \<noteq> row)" if "i < n - 1" for i
    using nth [OF that] that row by (intro exI [of _ "if i = row then n - 1 else i"]) auto
  have inj: "i = j" if ij: "i < n_recs s'" "j < n_recs s'" "kr_key (rows s' ! i) = kr_key (rows s' ! j)" for i j
  proof -
    obtain a where a: "a < n" "rows s' ! i = rows s ! a" "a = n - 1 \<and> i = row \<or> a = i \<and> i \<noteq> row"
      using orig [of i] ij br(2) by auto
    obtain b where b: "b < n" "rows s' ! j = rows s ! b" "b = n - 1 \<and> j = row \<or> b = j \<and> j \<noteq> row"
      using orig [of j] ij br(2) by auto
    have "a = b" using db_okD(4) [OF db, of a b] a(1,2) b(1,2) ij(3) by (simp add: n_def)
    then show ?thesis using a(3) b(3) ij br(2) by auto
  qed
  define m where "m = ((if row < n - 1 then (live s)(k := None, kr_key (rows s ! (n - 1)) \<mapsto> row) else live s))(k := None)"
  have last: "kr_key (rows s ! (n - 1)) \<noteq> k" if "row < n - 1"
    using db_okD(4) [OF db, of row "n - 1"] that row kx by (auto simp: n_def x_def)
  have l: "live s' = m"
  proof (rule live_eqI [OF inj])
    fix r assume "r < n_recs s'"
    then have r: "r < n - 1" using br(2) by simp
    obtain j where j: "j < n" "j \<noteq> row" "rows s' ! r = rows s ! j" using orig [OF r] by blast
    then have nk: "kr_key (rows s' ! r) \<noteq> k"
      using db_okD(4) [OF db, of row j] row(1) kx unfolding n_def x_def by metis
    show "m (kr_key (rows s' ! r)) = Some r"
    proof (cases "r = row")
      case True
      then show ?thesis using r nk nth [OF r] by (simp add: m_def)
    next
      case False
      have "live s (kr_key (rows s ! r)) = Some r" using live_iff [OF db] r by (simp add: n_def)
      moreover have "kr_key (rows s ! r) \<noteq> kr_key (rows s ! (n - 1))"
        using db_okD(4) [OF db, of r "n - 1"] r row by (auto simp: n_def)
      ultimately show ?thesis using nk nth [OF r] False by (simp add: m_def)
    qed
  next
    fix j r assume m: "m j = Some r"
    then have j: "j \<noteq> k" by (auto simp: m_def)
    show "r < n_recs s' \<and> kr_key (rows s' ! r) = j"
    proof (cases "row < n - 1 \<and> j = kr_key (rows s ! (n - 1))")
      case True
      then have "r = row" using m j by (simp add: m_def)
      then show ?thesis using True nth [of row] br(2) by simp
    next
      case False
      then have "live s j = Some r" using m j by (auto simp: m_def split: if_splits)
      then have r: "r < n" "kr_key (rows s ! r) = j" using live_sound by (auto simp: n_def)
      then have "r \<noteq> row" using j kx by (auto simp: x_def)
      moreover have "r \<noteq> n - 1" using False r \<open>r \<noteq> row\<close> row by auto
      ultimately show ?thesis using nth [of r] r br(2) by simp
    qed
  qed
  have "dict_table.indexes (ktab s') m"
  proof (cases "row < n - 1")
    case True
    have "dict_table.indexes (snd (table_pop k (-1) (ktab s))) ((live s)(k := None))"
      by (rule dict_table.indexes_pop) (rule db_okD(3) [OF db])
    then have "dict_table.indexes (table_set (kr_key (rows s ! (n - 1))) row (kr_flags (rows s ! (n - 1)))
        (snd (table_pop k (-1) (ktab s)))) ((live s)(k := None, kr_key (rows s ! (n - 1)) \<mapsto> row))"
      by (rule dict_table.indexes_set)
    then show ?thesis unfolding br(7) m_def if_P [OF True] by (rule dict_table.indexes_pop)
  next
    case False
    show ?thesis unfolding br(7) m_def if_not_P [OF False] by (rule dict_table.indexes_pop) (rule db_okD(3) [OF db])
  qed
  then have ix: "dict_table.indexes (ktab s') (live s')" by (simp only: l)
  show db': "db_ok s'" by (rule db_okI [OF st' _ ix]) (erule (2) inj)
  show "value_of s' = (value_of s)(k := None)"
  proof
    fix j
    show "value_of s' j = ((value_of s)(k := None)) j"
    proof (cases "live s' j")
      case None
      then have "j = k \<or> live s j = None" by (auto simp: l m_def split: if_splits)
      then show ?thesis using None by (auto simp: value_of_def)
    next
      case (Some r)
      from live_sound [OF this] have r: "r < n - 1" "kr_key (rows s' ! r) = j" using br(2) by simp_all
      obtain i where i: "i < n" "i \<noteq> row" "rows s' ! r = rows s ! i" using orig [OF r(1)] by blast
      then have "live s j = Some i" using live_iff [OF db] r by (simp add: n_def)
      moreover have "j \<noteq> k" using Some by (auto simp: l m_def)
      ultimately show ?thesis using Some i cont by (simp add: value_of_def)
    qed
  qed
  have "rows s' ! t = y" using t by (simp add: rw nth_rotated)
  then show "\<exists>t. n - 1 \<le> t \<and> t < lines s' \<and> (\<not> (F_REVERT AND fl \<noteq> 0 \<and> k \<in> set (chg s)) \<longrightarrow> t = n - 1) \<and>
      kr_key (rows s' ! t) = k \<and> kr_rsz (rows s' ! t) = kr_rsz x \<and> content s' (rows s' ! t) = content s x"
    using t y cont by (intro exI [of _ t]) (simp add: rw)
qed

lemma quiet_grps [simp]: "quiet s (s\<lparr>grps := g\<rparr>)"
  by (rule quiet_fields) (simp_all add: dcache_ok_def)

lemma table_get_live:
  assumes "db_ok s"
  shows "table_get k (-1) (ktab s) < 0 \<longleftrightarrow> live s k = None"
    and "0 \<le> table_get k (-1) (ktab s) \<Longrightarrow> live s k = Some (nat (table_get k (-1) (ktab s)))"
    and "table_contains k (ktab s) \<longleftrightarrow> live s k \<noteq> None"
proof -
  obtain row fl where t: "table_get_both k (ktab s) = (row, fl)" by (metis surj_pair)
  have g: "table_get k (-1) (ktab s) = (if row < 0 then -1 else row)" using t by (simp add: table_get_eq)
  show "table_get k (-1) (ktab s) < 0 \<longleftrightarrow> live s k = None"
    and "0 \<le> table_get k (-1) (ktab s) \<Longrightarrow> live s k = Some (nat (table_get k (-1) (ktab s)))"
    and "table_contains k (ktab s) \<longleftrightarrow> live s k \<noteq> None"
    using table_live [OF assms t] g by (auto simp: table_contains_def split: if_splits)
qed

text \<open>The outcomes of \<open>f_delete\<close>.\<close>

lemma f_delete_cases:
  assumes db: "db_ok s" and k: "rw = None \<or> k \<noteq> []" and f: "f_delete cfg k rd rw flags arg s = (r, s')"
  obtains (kept) "quiet s s'" "\<And>v. r \<noteq> Inr (Deleted v)" "still s s'"
  | (gone) row s1 v where "r = Inr (Deleted v)" "quiet s s1" "live s k = Some row"
      "s' = bury cfg (case flags of None \<Rightarrow> jflags cfg | Some fl \<Rightarrow> fl) k row (rows s1 ! row) s1"
      "kr_flags (rows s ! row) AND DELETE_LOCK_MASK = 0 \<or> fst (pop_transient_flags arg) AND KF_UNLOCK \<noteq> 0"
      "still s s1"
proof -
  define s0 where "s0 = cache_pop k s"
  have q0: "quiet s s0" and st0: "still s s0" by (simp_all add: s0_def)
  note qd0 = quietD [OF q0]
  have db0: "db_ok s0" using qd0(7) [OF db] .
  define row where "row = table_get k (-1) (ktab s0)"
  have rw: "(if rw = None \<or> k \<noteq> [] then table_get k (-1) (ktab s0) else int (the rw)) = row"
    using k by (simp add: row_def)
  show thesis
  proof (cases "row < 0")
    case True
    then have "s' = s0" "r = Inl JKeyError" using f rw unfolding f_delete_def s0_def [symmetric] Let_def by simp_all
    then show thesis using kept q0 st0 by simp
  next
    case False
    then have l: "live s k = Some (nat row)" using table_get_live(2) [OF db0, of k] qd0(9) by (simp add: row_def)
    then have kk: "kr_key (rows s ! nat row) = k" using live_sound by blast
    obtain x s1 where rd1: "read_k (nat row) s0 = (x, s1)" by (metis surj_pair)
    have l0: "live s0 k = Some (nat row)" using l qd0(9) by simp
    note rl = read_live [OF db0 l0 rd1]
    have x: "x = rows s ! nat row" "kr_key x = k" using rl(1) qd0(1) kk by simp_all
    have q1: "quiet s s1" by (rule quiet_trans [OF q0 rl(2)])
    have st1: "still s s1" using still_trans [OF st0 still_small(9) [of s0 "nat row"]] rd1 by simp
    define locked where "locked \<longleftrightarrow> kr_flags x AND DELETE_LOCK_MASK \<noteq> 0 \<and> fst (pop_transient_flags arg) AND KF_UNLOCK = 0"
    define fl where "fl = (case flags of None \<Rightarrow> jflags cfg | Some fl \<Rightarrow> fl)"
    have x1: "x \<in> set (rows s1)" using rl(1,5) in_rows [OF db0 l0] by simp
    obtain tr a where tr: "pop_transient_flags arg = (tr, a)" by (metis surj_pair)
    have e: "(if locked then (Inr Locked, s1) else delete_row cfg k rd fl (nat row) x s1) = (r, s')"
      using f False rd1 x(2) unfolding f_delete_def s0_def [symmetric] Let_def rw locked_def fl_def tr
      by (simp cong: if_cong split del: if_split del: key_flag_bit.simps)
    show thesis
    proof (cases locked)
      case True
      then have "r = Inr Locked" "s' = s1" using e by simp_all
      then show thesis using q1 st1 by (intro kept) simp_all
    next
      case F: False
      define want where "want \<longleftrightarrow> rd \<or> k \<in> fst ` set (grps s1) \<or> kr_flags x AND KF_GROUP \<noteq> 0"
      obtain v s2 where d: "(if want then decode_value cfg k x False False s1 else (Inr (Plain VNone), s1)) = (v, s2)"
        by (metis surj_pair)
      have q2: "quiet s s2"
        using d q1 quiet_trans [OF q1 quiet_decode_value [OF rl(3) x1, of cfg k False False]] by (cases want) auto
      have st2: "still s s2"
        using d st1 still_trans [OF st1 still_decode_value [of s1 cfg k x False False]] by (cases want) auto
      show thesis
      proof (cases v)
        case (Inl e')
        then have "r = Inl e'" "s' = s2"
          using e F d unfolding delete_row_def want_def [symmetric] Let_def by simp_all
        then show thesis using kept q2 st2 by simp
      next
        case (Inr v')
        define s3 where "s3 = s2\<lparr>grps := assoc_del k (grps s2)\<rparr>"
        have q3: "quiet s s3" using quiet_trans [OF q2 quiet_grps] by (simp add: s3_def)
        have st3: "still s s3" using still_trans [OF st2 still_small(10)] by (simp add: s3_def)
        have "r = Inr (Deleted (if want then Some v' else None))" "s' = bury cfg fl k (nat row) (rows s3 ! nat row) s3"
          using e F d Inr x(1) quietD(1) [OF q3] unfolding delete_row_def want_def [symmetric] Let_def s3_def by simp_all
        moreover have "kr_flags (rows s ! nat row) AND DELETE_LOCK_MASK = 0 \<or> fst (pop_transient_flags arg) AND KF_UNLOCK \<noteq> 0"
          using F x(1) by (auto simp: locked_def)
        ultimately show thesis using gone q3 st3 l unfolding fl_def by blast
      qed
    qed
  qed
qed

text \<open>A database with one record.\<close>

definition one_store :: store where
  "one_store = new_store\<lparr>rows := [krow_of [97] (1, 1, 0) 0 20000 (PI 20000) (PI 0) 0], n_recs := 1,
     ktab := table_set [97] 0 0 [], lines0 := 1\<rparr>"

lemma one_store_live: "live one_store k = (if k = [97] then Some 0 else None)"
  by (simp add: live_def one_store_def)

lemma one_store_ok: "db_ok one_store"
proof (rule db_okI)
  show "store_ok one_store"
    by (simp add: store_ok_def space_ok_def files_ok_def dcache_ok_def disjoint_rows_def row_ok_def one_store_def new_store_def)
  have "live one_store = (Map.empty)([97] \<mapsto> 0)" by (simp add: one_store_live fun_eq_iff)
  then show "dict_table.indexes (ktab one_store) (live one_store)"
    using dict_table.indexes_set [OF dict_table.indexes_empty] by (simp add: one_store_def)
qed (simp add: one_store_def)

text \<open>
  C3: A delete removes exactly one key from the map, or, when it answers with the lock
  sentinel or an error, none; a record with a lock flag is only removed with \<open>UNLOCK\<close>.
\<close>

theorem f_delete_removes:
  assumes "db_ok s" "rw = None \<or> k \<noteq> []" "f_delete cfg k rd rw flags arg s = (r, s')"
  shows "db_ok s' \<and> (if \<exists>v. r = Inr (Deleted v)
    then value_of s' = (value_of s)(k := None) \<and>
      (\<exists>row. live s k = Some row \<and>
        (kr_flags (rows s ! row) AND DELETE_LOCK_MASK = 0 \<or> fst (pop_transient_flags arg) AND KF_UNLOCK \<noteq> 0))
    else value_of s' = value_of s)"
  using assms
proof (cases rule: f_delete_cases)
  case kept
  then show ?thesis using quietD(7,10) [OF kept(1)] assms(1) by auto
next
  case (gone row s1 v)
  note qd = quietD [OF gone(2)]
  have "live s1 k = Some row" using gone(3) qd(9) by simp
  from bury_refines(1,2) [OF qd(7) [OF assms(1)] this] show ?thesis using gone(1,3-5) qd(10) by auto
qed

theorem f_delete_removes_witness:
  "db_ok one_store \<and> fst (f_delete demo_cfg [97] False None None FNone one_store) = Inr (Deleted None) \<and>
     value_of (snd (f_delete demo_cfg [97] False None None FNone one_store)) = Map.empty"
proof -
  have r: "fst (f_delete demo_cfg [97] False None None FNone one_store) = Inr (Deleted None)"
    by (simp add: f_delete_def delete_row_def Let_def table_get_def table_set_def read_k_def one_store_def new_store_def cache_pop_def)
  have v: "value_of one_store = [[97] \<mapsto> Fields 1 1 0]"
    by (simp add: value_of_def one_store_live fun_eq_iff) (simp add: one_store_def)
  from f_delete_removes [OF one_store_ok _ surjective_pairing, where k = "[97]" and rw = None and cfg = demo_cfg and rd = False
      and flags = None and arg = FNone]
  show ?thesis using one_store_ok r v by simp
qed

end
