(* ===== verification/Record_Revert.thy ===== *)
theory Record_Revert
  imports Record_Delete
begin

text \<open>
  Going back: \<open>f_undelete\<close>, \<open>f_unwrite\<close> and \<open>f_rename\<close> of \<open>omni_json_db/jdb.py\<close>.  Both
  undo operations look for a dead row with the key; a deleted record returns to the end of the
  live rows, an older version changes places with the current one.
\<close>

section \<open>\<open>f_undelete\<close> and \<open>f_unwrite\<close>\<close>

text \<open>The first dead row with the key, among the rows of the last header.\<close>

definition find_version :: "key \<Rightarrow> store \<Rightarrow> nat option" where
  "find_version k s = find (\<lambda>i. kr_key (rows s ! i) = k) [n_recs s..<min (lines0 s) (lines s)]"

definition reattach :: "key \<Rightarrow> krow \<Rightarrow> store \<Rightarrow> store" where
  "reattach k x s =
     s\<lparr>grps := (if kr_file x = GROUP_TYPE \<and> kr_rsz x = 0 then assoc_set k (Some (Group True [])) (grps s)
                else assoc_del k (grps s))\<rparr>"

definition unbury :: "settings \<Rightarrow> int \<Rightarrow> key \<Rightarrow> nat \<Rightarrow> krow \<Rightarrow> store \<Rightarrow> store" where
  "unbury cfg fl k dead x s =
     (let n = n_recs s; revert = (F_REVERT AND fl \<noteq> 0);
          dead_h = (if revert then min (max (safe s) n) (lines s) else n);
          s = (if dead \<ge> dead_h then
                 let s = (if revert then s\<lparr>chg := (if k \<in> set (chg s) then chg s else k # chg s), safe := dead_h + 1\<rparr>
                          else s\<lparr>safe := n\<rparr>);
                     s = (if dead > dead_h then copy_k dead_h dead s else s)
                 in (if dead_h > n then copy_k n dead_h s else s)
               else
                 let s = s\<lparr>chg := removeAll k (chg s)\<rparr> in (if dead > n then copy_k n dead s else s));
          kfl = (kr_flags x AND USER_FLAG_MASK) OR (if kr_file x = GROUP_TYPE \<and> kr_rsz x = 0 then KF_GROUP else 0);
          s = reattach k x (cache_pop k s);
          s = write_k cfg n (x\<lparr>kr_key := k, kr_flags := kfl\<rparr>) None s
      in count_record True k kfl s)"

definition f_undelete :: "settings \<Rightarrow> key \<Rightarrow> nat option \<Rightarrow> int option \<Rightarrow> store \<Rightarrow> nat option \<times> store" where
  "f_undelete cfg k rw flags s =
     (if k = [] then (None, s)
      else
        let s = cache_pop k s
        in if table_contains k (ktab s) then (None, s)
           else
             let (found, x, s) = (case rw of
                   None \<Rightarrow> (case find_version k s of None \<Rightarrow> (None, blank, s) | Some r \<Rightarrow> (Some r, rows s ! r, s))
                 | Some r \<Rightarrow> (let (x, s) = read_k r s in (if kr_key x = k then Some r else None, x, s)))
             in case found of
                  None \<Rightarrow> (None, s)
                | Some r \<Rightarrow> (Some (n_recs s), unbury cfg (case flags of None \<Rightarrow> jflags cfg | Some fl \<Rightarrow> fl) k r x s))"

text \<open>The record and its dead version change places; preferences stay with the record.\<close>

definition swap_versions :: "settings \<Rightarrow> key \<Rightarrow> nat \<Rightarrow> nat \<Rightarrow> krow \<Rightarrow> krow \<Rightarrow> store \<Rightarrow> store" where
  "swap_versions cfg k row dead old x s =
     (let kfl = (kr_flags old AND USER_FLAG_MASK AND NOT PAYLOAD_FLAG_MASK) OR (kr_flags x AND PAYLOAD_FLAG_MASK) OR
                (if kr_file x = GROUP_TYPE \<and> kr_rsz x = 0 then KF_GROUP else 0);
          s = park cfg dead row (old\<lparr>kr_key := k\<rparr>) (x\<lparr>kr_key := k, kr_flags := kfl\<rparr>) (reattach k x s);
          s = set_key k row (if num_val (kr_ttl x) > 0 then kfl OR KF_EXPIRE else kfl AND NOT KF_EXPIRE) s
      in (next_sync s)\<lparr>chg := removeAll k (chg s)\<rparr>)"

definition f_unwrite :: "settings \<Rightarrow> key \<Rightarrow> nat option \<Rightarrow> store \<Rightarrow> nat option \<times> store" where
  "f_unwrite cfg k rw s =
     (if k = [] then (None, s)
      else
        let s = cache_pop k s
        in if \<not> table_contains k (ktab s) then (None, s)
           else
             let (found, x, s) = (case rw of
                   None \<Rightarrow> (case find_version k s of None \<Rightarrow> (None, blank, s) | Some r \<Rightarrow> (Some r, rows s ! r, s))
                 | Some r \<Rightarrow>
                     if r < n_recs s then (None, blank, s)
                     else (let (x, s) = read_k r s in (if kr_key x = k then Some r else None, x, s)))
             in case found of
                  None \<Rightarrow> (None, s)
                | Some dead \<Rightarrow>
                    let row = table_get k (-1) (ktab s)
                    in if \<not> (0 \<le> row \<and> row < int (n_recs s)) then (None, s)
                       else
                         let (old, s) = read_k (nat row) s
                         in if kr_key old \<noteq> k \<or> kr_flags old AND WRITE_LOCK_MASK \<noteq> 0 then (None, s)
                            else (Some (nat row), swap_versions cfg k (nat row) dead old x s))"

section \<open>\<open>f_rename\<close>\<close>

text \<open>
  The new name is written as it is; \<open>write_key\<close> of the code shortens a name whose row would exceed
  the largest row size (\<open>Row_Store\<close>), which no guard of \<open>f_rename\<close> excludes.
\<close>

definition f_rename :: "settings \<Rightarrow> key \<Rightarrow> key \<Rightarrow> store \<Rightarrow> bool res \<times> store" where
  "f_rename cfg k k' s =
     (if k = k' then (Inr False, s)
      else
        let s = cache_pop k s; row = table_get k (-1) (ktab s)
        in if table_contains k' (ktab s) then (Inl JKeyError, s)
           else if row < 0 then (Inl JKeyError, s)
           else
             let (x, s) = read_k (nat row) s;
                 s = next_sync (write_k cfg (nat row) (x\<lparr>kr_key := k'\<rparr>) None s);
                 s = s\<lparr>swap := (swap s + 1) AND SYNC_MASK\<rparr>
             in (Inr True, set_key k' (nat row) (kr_flags x) (pop_key k s)))"


section \<open>Restoring a record\<close>

lemma reattach_fields [simp]:
  "rows (reattach k x s) = rows s" "n_recs (reattach k x s) = n_recs s" "ktab (reattach k x s) = ktab s"
  "ftab (reattach k x s) = ftab s" "fopen (reattach k x s) = fopen s" "vfiles (reattach k x s) = vfiles s"
  "dcache (reattach k x s) = dcache s"
  by (simp_all add: reattach_def)

lemma quiet_reattach [simp]: "quiet s (reattach k x s)"
  by (simp add: reattach_def)

lemma write_k_small:
  "write_k cfg r y v (s\<lparr>vcache := c, grps := g\<rparr>) = (write_k cfg r y v s)\<lparr>vcache := c, grps := g\<rparr>"
proof -
  have c: "complete cfg (s\<lparr>vcache := c, grps := g\<rparr>) y v = complete cfg s y v"
    by (cases v) (simp_all add: complete_def)
  show ?thesis by (rule store.equality) (simp_all add: write_k_def c Let_def)
qed

lemma reattach_eq:
  assumes "grps t = grps s" "vcache t = vcache s"
  shows "reattach k x (cache_pop k t) = t\<lparr>vcache := vcache (cache_pop k s), grps := grps (reattach k x s)\<rparr>"
  by (rule store.equality) (simp_all add: reattach_def cache_pop_def assms)

text \<open>The dead row \<open>dead\<close> becomes the last live row, whichever rows have to move for it.\<close>

lemma unbury_refines:
  fixes cfg fl
  assumes db: "db_ok s" and k: "live s k = None" and dead: "n_recs s \<le> dead" "dead < lines s" "kr_key (rows s ! dead) = k"
  defines "x \<equiv> rows s ! dead" and "s' \<equiv> unbury cfg fl k dead (rows s ! dead) s"
  shows "db_ok s' \<and> value_of s' = (value_of s)(k \<mapsto> content s x) \<and> n_recs s' = n_recs s + 1"
proof -
  define n where "n = n_recs s"
  define dead_h where "dead_h = (if F_REVERT AND fl \<noteq> 0 then min (max (safe s) n) (lines s) else n)"
  define line where "line = (if dead \<ge> dead_h then dead_h else dead)"
  define s0 where "s0 = (if dead \<ge> dead_h then
      if F_REVERT AND fl \<noteq> 0 then s\<lparr>chg := (if k \<in> set (chg s) then chg s else k # chg s), safe := dead_h + 1\<rparr> else s\<lparr>safe := n\<rparr>
      else s\<lparr>chg := removeAll k (chg s)\<rparr>)"
  define s1 where "s1 = (if dead > dead_h then copy_k dead_h dead s0 else s0)"
  define kfl where "kfl = (kr_flags x AND USER_FLAG_MASK) OR (if kr_file x = GROUP_TYPE \<and> kr_rsz x = 0 then KF_GROUP else 0)"
  define new where "new = x\<lparr>kr_key := k, kr_flags := kfl\<rparr>"
  define g where "g = grps (reattach k x s)"
  define vc where "vc = vcache (cache_pop k s)"
  define s2 where "s2 = (insert_row cfg line new s1)\<lparr>vcache := vc, grps := g\<rparr>"
  have s0: "rows s0 = rows s" "n_recs s0 = n" "ktab s0 = ktab s" "grps s0 = grps s" "vcache s0 = vcache s" "dcache s0 = dcache s"
    "vfiles s0 = vfiles s" "ftab s0 = ftab s" "fopen s0 = fopen s" "sync s0 = sync s" "swap s0 = swap s" "remv s0 = remv s"
    "lines0 s0 = lines0 s" by (simp_all add: s0_def n_def)
  have s': "s' = count_record True k kfl s2"
  proof -
    define t where "t = (if line > n then copy_k n line s1 else s1)"
    have t: "grps t = grps s" "vcache t = vcache s" "n_recs s1 = n"
      by (simp_all add: t_def s1_def copy_k_def s0)
    have "s' = count_record True k kfl (write_k cfg n new None (reattach k x (cache_pop k t)))"
    proof (cases "dead \<ge> dead_h")
      case True
      then show ?thesis
        unfolding s'_def unbury_def Let_def n_def [symmetric] x_def [symmetric] dead_h_def [symmetric] kfl_def [symmetric] new_def [symmetric]
        by (simp add: t_def line_def s1_def s0_def)
    next
      case False
      then show ?thesis
        unfolding s'_def unbury_def Let_def n_def [symmetric] x_def [symmetric] dead_h_def [symmetric] kfl_def [symmetric] new_def [symmetric]
        by (simp add: t_def line_def s1_def s0_def)
    qed
    also have "write_k cfg n new None (reattach k x (cache_pop k t)) = s2"
      unfolding reattach_eq [OF t(1,2)] write_k_small by (simp add: s2_def insert_row_def t_def t(3) vc_def g_def)
    finally show ?thesis .
  qed
  have ok: "space_ok s" "files_ok s" "dcache_ok s" "n \<le> lines s"
    using db_okD(1) [OF db] by (simp_all add: store_ok_def n_def)
  have line: "n \<le> line" "line \<le> dead" "line \<le> lines s"
    using dead ok(4) by (auto simp: line_def dead_h_def n_def)
  have f1: "vfiles s1 = vfiles s" "ftab s1 = ftab s" "fopen s1 = fopen s"
    by (simp_all add: s1_def s0 copy_k_def)
  have v1: "vfile s1 = vfile s" "row_ok s1 = row_ok s"
    using f1 by (simp_all add: vfile_def row_ok_def used_def fun_eq_iff)
  have c1: "content s1 = content s" by (rule content_files [OF v1(1)])
  have dc: "dcache_ok s0" using ok(3) s0 dcache_ok_same [of s0 s] by simp
  have cl: "claimed s line (rows s) dead s1"
    using line dead ok(1) dc v1(2) dcache_ok_copy_k [OF dc] s0
    by (auto simp: claimed_def space_ok_def s1_def line_def n_def copy_k_def)
  have x: "x \<in> set (rows s)" using dead by (simp add: x_def)
  have "db_ok s' \<and> value_of s' = (value_of s)(k \<mapsto> content s1 new) \<and> n_recs s' = n_recs s + 1"
    unfolding s'
  proof (rule insert_refines [OF db k cl])
    show "disjoint_rows ((rows s)[dead := new])"
      using ok(1) by (intro disjoint_update) (simp_all add: space_ok_def new_def x_def cells_def)
    show "row_ok s1 new" using x ok(1) v1 by (auto simp: space_ok_def new_def row_ok_def)
    show "files_ok s1" using files_ok_cong [OF f1(2,3)] ok by simp
    show "quiet (insert_row cfg line new s1) s2"
      unfolding s2_def by (rule quiet_trans [OF quiet_vcache quiet_grps])
  qed (simp_all add: new_def c1 s2_def)
  moreover have "content s1 new = content s x" by (simp add: c1 new_def) (simp add: content_def)
  ultimately show ?thesis by simp
qed

lemma find_version_Some:
  "find_version k s = Some i \<Longrightarrow> n_recs s \<le> i \<and> i < lines s \<and> kr_key (rows s ! i) = k"
proof -
  assume "find_version k s = Some i"
  then obtain j where j: "j < length [n_recs s..<min (lines0 s) (lines s)]" "i = [n_recs s..<min (lines0 s) (lines s)] ! j"
      "kr_key (rows s ! i) = k" by (auto simp: find_version_def find_Some_iff)
  then have "i \<in> set [n_recs s..<min (lines0 s) (lines s)]" by (metis nth_mem)
  with j(3) show "n_recs s \<le> i \<and> i < lines s \<and> kr_key (rows s ! i) = k" by simp
qed

lemma dead_row_ge: "live s k = None \<Longrightarrow> kr_key (rows s ! i) = k \<Longrightarrow> n_recs s \<le> i"
  using live_None [of s k] by (metis not_le)

text \<open>The dead row an undo takes: the one given, or the first with the key.\<close>

definition version_at :: "key \<Rightarrow> nat option \<Rightarrow> store \<Rightarrow> nat \<Rightarrow> bool" where
  "version_at k rw s i \<longleftrightarrow> n_recs s \<le> i \<and> kr_key (rows s ! i) = k \<and>
     (case rw of None \<Rightarrow> find_version k s = Some i | Some r \<Rightarrow> i = r)"

lemma find_version_cong: "rows s' = rows s \<Longrightarrow> n_recs s' = n_recs s \<Longrightarrow> lines0 s' = lines0 s \<Longrightarrow> find_version k s' = find_version k s"
  by (simp add: find_version_def)

lemma f_undelete_cases:
  assumes db: "db_ok s" and rw: "\<forall>r. rw = Some r \<longrightarrow> r < lines s" and f: "f_undelete cfg k rw flags s = (res, s')"
  obtains (kept) "res = None" "quiet s s'" "live s k = None \<and> k \<noteq> [] \<and> rw = None \<longrightarrow> find_version k s = None"
      "still s s'"
  | (restored) i s1 where "res = Some (n_recs s)" "quiet s s1" "live s k = None" "version_at k rw s i" "i < lines s"
      "s' = unbury cfg (case flags of None \<Rightarrow> jflags cfg | Some fl \<Rightarrow> fl) k i (rows s1 ! i) s1"
      "still s s1"
proof -
  define s0 where "s0 = cache_pop k s"
  have q0: "quiet s s0" "still s s0" by (simp_all add: s0_def)
  note qd = quietD [OF q0(1)]
  have db0: "db_ok s0" using qd(7) [OF db] .
  have c: "table_contains k (ktab s0) \<longleftrightarrow> live s k \<noteq> None" using table_get_live(3) [OF db0, of k] qd(9) by simp
  note fv = find_version_cong [OF qd(1,2,6), of k]
  show thesis
  proof (cases "k = [] \<or> live s k \<noteq> None")
    case True
    then have "res = None" "s' = s \<or> s' = s0" using f c unfolding f_undelete_def s0_def [symmetric] Let_def by (auto split: if_splits)
    then show thesis using True q0 by (intro kept) auto
  next
    case False
    show thesis
    proof (cases rw)
      case None
      show thesis
      proof (cases "find_version k s")
        case n: None
        then have "res = None" "s' = s0" using f c False None fv unfolding f_undelete_def s0_def [symmetric] Let_def by simp_all
        then show thesis using n q0 by (intro kept) auto
      next
        case (Some i)
        then have "res = Some (n_recs s0)" "s' = unbury cfg (case flags of None \<Rightarrow> jflags cfg | Some fl \<Rightarrow> fl) k i (rows s0 ! i) s0"
          using f c False None fv unfolding f_undelete_def s0_def [symmetric] Let_def by simp_all
        then show thesis using False q0 find_version_Some [OF Some] None Some qd(2)
          by (intro restored [of s0 i]) (auto simp: version_at_def)
      qed
    next
      case (Some r)
      obtain x s1 where rd: "read_k r s0 = (x, s1)" by (metis surj_pair)
      have "r < lines s0" using rw [rule_format, OF Some] qd(1) by simp
      then have q1: "quiet s s1" using quiet_trans [OF q0(1) quiet_read_k] rd by (metis snd_conv)
      note q1d = quietD [OF q1]
      have st1: "still s s1" using still_trans [OF q0(2) still_small(9) [of s0 r]] rd by simp
      have x: "x = rows s1 ! r" using read_k_simps(1) [of r s0] rd q1d(1) qd(1) by simp
      show thesis
      proof (cases "kr_key x = k")
        case True
        then have "res = Some (n_recs s1)" "s' = unbury cfg (case flags of None \<Rightarrow> jflags cfg | Some fl \<Rightarrow> fl) k r x s1"
          using f c False Some rd unfolding f_undelete_def s0_def [symmetric] Let_def by simp_all
        moreover have "n_recs s \<le> r" using dead_row_ge [of s k r] False True x q1d(1) by simp
        ultimately show thesis using False q1 st1 Some rw [rule_format, OF Some] True x q1d(1,2)
          by (intro restored [of s1 r]) (auto simp: version_at_def)
      next
        case F: False
        then have "res = None" "s' = s1"
          using f c False Some rd unfolding f_undelete_def s0_def [symmetric] Let_def by simp_all
        then show thesis using q1 st1 Some by (intro kept) auto
      qed
    qed
  qed
qed


text \<open>
  An undelete inserts one record or changes nothing: it restores the content of the dead
  row with the key, the given one or the first, and never touches a key that is there.
\<close>

lemma f_undelete_restores:
  assumes "db_ok s" "\<forall>r. rw = Some r \<longrightarrow> r < lines s" "f_undelete cfg k rw flags s = (res, s')"
  shows "db_ok s' \<and> (case res of
      None \<Rightarrow> value_of s' = value_of s
    | Some row \<Rightarrow> row = n_recs s \<and> live s k = None \<and>
        (\<exists>i < lines s. version_at k rw s i \<and> value_of s' = (value_of s)(k \<mapsto> content s (rows s ! i))))"
  using assms
proof (cases rule: f_undelete_cases)
  case kept
  then show ?thesis using quietD(7,10) [OF kept(2)] assms(1) by simp
next
  case (restored i s1)
  note qd = quietD [OF restored(2)]
  have "kr_key (rows s ! i) = k" "n_recs s \<le> i" using restored(4) by (simp_all add: version_at_def)
  then have "db_ok s' \<and> value_of s' = (value_of s1)(k \<mapsto> content s1 (rows s1 ! i)) \<and> n_recs s' = n_recs s1 + 1"
    unfolding restored(6) using restored(3,5) qd by (intro unbury_refines qd(7) [OF assms(1)]) simp_all
  then show ?thesis using restored qd by auto
qed




section \<open>Reverting a record\<close>

lemma store_ok_chg [simp]: "db_ok (s\<lparr>chg := c\<rparr>) = db_ok s" "value_of (s\<lparr>chg := c\<rparr>) = value_of s" "content (s\<lparr>chg := c\<rparr>) = content s"
proof -
  have l: "live (s\<lparr>chg := c\<rparr>) = live s" by (rule live_cong) simp_all
  show ct: "content (s\<lparr>chg := c\<rparr>) = content s" by (rule content_files) (simp add: vfile_def fun_eq_iff)
  show "value_of (s\<lparr>chg := c\<rparr>) = value_of s" by (simp add: value_of_def l ct fun_eq_iff split: option.split)
  have "row_ok (s\<lparr>chg := c\<rparr>) = row_ok s" by (simp add: row_ok_def used_def vfile_def fun_eq_iff)
  then show "db_ok (s\<lparr>chg := c\<rparr>) = db_ok s"
    by (simp add: db_ok_def keys_ok_def store_ok_def space_ok_def files_ok_def dcache_ok_def l)
qed

lemma swap_versions_refines:
  fixes cfg
  assumes db: "db_ok s" and k: "live s k = Some row" and dead: "n_recs s \<le> i" "i < lines s" "kr_key (rows s ! i) = k"
  defines "s' \<equiv> swap_versions cfg k row i (rows s ! row) (rows s ! i) s"
  shows "db_ok s' \<and> value_of s' = (value_of s)(k \<mapsto> content s (rows s ! i)) \<and> n_recs s' = n_recs s \<and>
    lines s' = lines s \<and> kr_key (rows s' ! i) = k \<and> content s' (rows s' ! i) = content s (rows s ! row)"
proof -
  define x where "x = rows s ! i"
  define s1 where "s1 = reattach k x s"
  define kfl where "kfl = (kr_flags (rows s ! row) AND USER_FLAG_MASK AND NOT PAYLOAD_FLAG_MASK) OR (kr_flags x AND PAYLOAD_FLAG_MASK) OR
                (if kr_file x = GROUP_TYPE \<and> kr_rsz x = 0 then KF_GROUP else 0)"
  define new where "new = x\<lparr>kr_key := k, kr_flags := kfl\<rparr>"
  define s2 where "s2 = park cfg i row (rows s1 ! row) new s1"
  define f2 where "f2 = (if num_val (kr_ttl x) > 0 then kfl OR KF_EXPIRE else kfl AND NOT KF_EXPIRE)"
  have q: "quiet s s1" by (simp add: s1_def)
  note qd = quietD [OF q]
  have db1: "db_ok s1" "live s1 k = Some row" using qd db k by simp_all
  have row: "row < n_recs s" "kr_key (rows s ! row) = k" using live_sound [OF k] by simp_all
  then have "(rows s ! row)\<lparr>kr_key := k\<rparr> = rows s1 ! row" using qd(1) by simp
  then have s': "s' = (next_sync (set_key k row f2 s2))\<lparr>chg := removeAll k (chg s2)\<rparr>"
    unfolding s'_def swap_versions_def Let_def x_def [symmetric] kfl_def [symmetric] new_def [symmetric] s1_def [symmetric]
    by (simp add: s2_def f2_def set_key_def next_sync_def)
  have ok: "space_ok s1" "files_ok s1" "dcache_ok s1"
    using db_okD(1) [OF db1(1)] by (simp_all add: store_ok_def)
  have cl: "claimed s1 i (rows s1) i s1" using dead qd(1,2) ok by (auto simp: claimed_def space_ok_def)
  have xi: "x = rows s1 ! i" "i < lines s1" using qd(1) dead by (simp_all add: x_def)
  have dis: "disjoint_rows ((rows s1)[i := new])"
    using ok(1) xi by (intro disjoint_update) (simp_all add: space_ok_def new_def cells_def)
  have "row_ok s1 x" using ok(1) xi by (simp add: space_ok_def)
  then have rok: "row_ok s1 new" by (simp add: new_def row_ok_def)
  from park_refines [where cfg = cfg, OF db1 cl dis rok _ ok(2), folded s2_def]
  have p: "db_ok s2" "value_of s2 = (value_of s1)(k \<mapsto> content s1 new)" "parked s1 s2 i (rows s1 ! row)" "n_recs s2 = n_recs s1"
    by (simp_all add: new_def)
  have r1: "row < n_recs s1" using row qd(2) by simp
  have ps: "lines s2 = lines s1" "kr_key (rows s2 ! row) = k"
    using park_spec(6,7) [where cfg = cfg, OF cl r1 refl refl refl refl dis rok, folded s2_def] by (auto simp: new_def)
  have "live s2 k = Some row" using live_iff [OF p(1)] ps(2) p(4) qd(2) row(1) by simp
  then have q2: "quiet s2 (next_sync (set_key k row f2 s2))" using quiet_set_key quiet_trans by (metis quiet_small(4))
  note qd2 = quietD [OF q2]
  have "content s1 new = content s (rows s ! i)" using qd(8) by (simp add: new_def x_def) (simp add: content_def)
  then show ?thesis
    using p qd qd2 ps row(2) unfolding s' parked_def by simp
qed

text \<open>The outcomes of \<open>f_unwrite\<close>.\<close>

lemma f_unwrite_cases:
  assumes db: "db_ok s" and rw: "\<forall>r. rw = Some r \<longrightarrow> r < lines s" and f: "f_unwrite cfg k rw s = (res, s')"
  obtains (kept) "res = None" "quiet s s'" "still s s'"
  | (swapped) row i s1 where "res = Some row" "quiet s s1" "live s k = Some row" "version_at k rw s i" "i < lines s"
      "kr_flags (rows s ! row) AND WRITE_LOCK_MASK = 0" "s' = swap_versions cfg k row i (rows s1 ! row) (rows s1 ! i) s1"
      "still s s1"
proof -
  define s0 where "s0 = cache_pop k s"
  have q0: "quiet s s0" "still s s0" by (simp_all add: s0_def)
  note qd = quietD [OF q0(1)]
  have db0: "db_ok s0" using qd(7) [OF db] .
  note tl = table_get_live [OF db0, of k]
  note fv = find_version_cong [OF qd(1,2,6), of k]
  define look where "look = (case rw of
       None \<Rightarrow> (case find_version k s0 of None \<Rightarrow> (None, blank, s0) | Some r \<Rightarrow> (Some r, rows s0 ! r, s0))
     | Some r \<Rightarrow> if r < n_recs s0 then (None, blank, s0)
         else (let (x, s) = read_k r s0 in (if kr_key x = k then Some r else None, x, s)))"
  obtain found x s1 where l: "look = (found, x, s1)" by (metis surj_pair)
  have look: "(quiet s s1 \<and> still s s1) \<and> (\<forall>i. found = Some i \<longrightarrow> version_at k rw s i \<and> i < lines s \<and> x = rows s ! i)"
  proof (cases rw)
    case None
    then show ?thesis using l q0 fv qd(1) find_version_Some [of k s]
      by (auto simp: look_def version_at_def split: option.splits)
  next
    case (Some r)
    show ?thesis
    proof (cases "r < n_recs s0")
      case True
      then show ?thesis using l q0 Some by (auto simp: look_def)
    next
      case False
      obtain y s2 where rd: "read_k r s0 = (y, s2)" by (metis surj_pair)
      have "r < lines s0" using rw [rule_format, OF Some] qd(1) by simp
      then have "quiet s s2" using quiet_trans [OF q0(1) quiet_read_k] rd by (metis snd_conv)
      moreover have "still s s2" using still_trans [OF q0(2) still_small(9) [of s0 r]] rd by simp
      moreover have "y = rows s ! r" using read_k_simps(1) [of r s0] rd qd(1) by simp
      ultimately show ?thesis using l Some False rd rw [rule_format, OF Some] qd(2)
        by (auto simp: look_def version_at_def split: if_splits)
    qed
  qed
  note look1 = conjunct1 [OF look, THEN conjunct1] conjunct1 [OF look, THEN conjunct2]
  note q1 = quietD [OF look1(1)]
  have db1: "db_ok s1" using q1(7) [OF db] .
  note tl1 = table_get_live [OF db1, of k]
  have f': "(if k = [] then (None, s) else if live s k = None then (None, s0) else case found of
        None \<Rightarrow> (None, s1)
      | Some dead \<Rightarrow>
          (let row = table_get k (-1) (ktab s1)
           in if \<not> (0 \<le> row \<and> row < int (n_recs s1)) then (None, s1)
              else let (old, s) = read_k (nat row) s1
                   in if kr_key old \<noteq> k \<or> kr_flags old AND WRITE_LOCK_MASK \<noteq> 0 then (None, s)
                      else (Some (nat row), swap_versions cfg k (nat row) dead old x s))) = (res, s')"
    using f l tl(3) qd(9) unfolding f_unwrite_def s0_def [symmetric] Let_def look_def by (simp cong: if_cong)
  show thesis
  proof (cases "live s k")
    case None
    then show thesis using f' q0 by (intro kept) (auto split: if_splits)
  next
    case (Some row)
    have k1: "live s1 k = Some row" using Some q1(9) by simp
    have row: "table_get k (-1) (ktab s1) = int row" "row < n_recs s1"
      using tl1(1,2) k1 live_sound [OF k1] by auto
    obtain old s2 where rd: "read_k row s1 = (old, s2)" by (metis surj_pair)
    note rl = read_live [OF db1 k1 rd]
    have q2: "quiet s s2" by (rule quiet_trans [OF look1(1) rl(2)])
    note q2d = quietD [OF q2]
    have st2: "still s s2" using still_trans [OF look1(2) still_small(9) [of s1 row]] rd by simp
    have old: "old = rows s2 ! row" "kr_key old = k" "rows s2 = rows s"
      using rl(1,5) q1(1) live_sound [OF k1] by simp_all
    show thesis
    proof (cases "k = [] \<or> found = None \<or> kr_flags old AND WRITE_LOCK_MASK \<noteq> 0")
      case True
      then have "res = None \<and> (s' = s \<or> s' = s1 \<or> s' = s2)"
        using f' Some row rd by (cases found) (auto split: if_splits)
      then show thesis using look q2 st2 by (intro kept) auto
    next
      case False
      then obtain i where i: "found = Some i" by auto
      with False have "res = Some row" "s' = swap_versions cfg k row i old x s2"
        using f' Some row rd old(2) by simp_all
      moreover have "version_at k rw s i" "i < lines s" "x = rows s2 ! i" using look i old(3) by auto
      ultimately show thesis using False Some q2 st2 old by (intro swapped [of row s2 i]) simp_all
    qed
  qed
qed

text \<open>
  C5: An unwrite exchanges a record and one of its older versions, or changes nothing: the
  record gets the content of the dead row and the dead row keeps the content the record had;
  a record with a write lock is never reverted.
\<close>

theorem f_unwrite_swaps:
  assumes "db_ok s" "\<forall>r. rw = Some r \<longrightarrow> r < lines s" "f_unwrite cfg k rw s = (res, s')"
  shows "db_ok s' \<and> (case res of
      None \<Rightarrow> value_of s' = value_of s
    | Some row \<Rightarrow> live s k = Some row \<and> kr_flags (rows s ! row) AND WRITE_LOCK_MASK = 0 \<and>
        (\<exists>i < lines s. version_at k rw s i \<and> value_of s' = (value_of s)(k \<mapsto> content s (rows s ! i)) \<and>
           version_at k (Some i) s' i \<and> value_of s k = Some (content s' (rows s' ! i))))"
  using assms
proof (cases rule: f_unwrite_cases)
  case kept
  then show ?thesis using quietD(7,10) [OF kept(2)] assms(1) by simp
next
  case (swapped row i s1)
  note qd = quietD [OF swapped(2)]
  have i: "kr_key (rows s1 ! i) = k" "n_recs s1 \<le> i" "i < lines s1" using swapped(4,5) qd(1,2) by (simp_all add: version_at_def)
  have k1: "live s1 k = Some row" using swapped(3) qd(9) by simp
  note sw = swap_versions_refines [where cfg = cfg, OF qd(7) [OF assms(1)] k1 i(2,3,1), folded swapped(7)]
  have "version_at k (Some i) s' i" using sw i by (simp add: version_at_def)
  then show ?thesis using sw swapped(1,3-6) qd(1,2,8,10) value_of_live [OF swapped(3)] by auto
qed

section \<open>Renaming a record\<close>

lemma rename_refines:
  assumes db: "db_ok s" and k: "live s k = Some row" and k': "live s k' = None" and ok: "store_ok s'"
    and t: "ktab s' = table_set k' row fl (snd (table_pop k (-1) (ktab s)))" and n: "n_recs s' = n_recs s"
    and same: "\<And>i. i < n_recs s \<Longrightarrow> i \<noteq> row \<Longrightarrow> rows s' ! i = rows s ! i"
    and new: "kr_key (rows s' ! row) = k'" "content s' (rows s' ! row) = content s (rows s ! row)" and v: "content s' = content s"
  shows "db_ok s' \<and> value_of s' = (value_of s)(k := None, k' := value_of s k)"
proof -
  have row: "row < n_recs s" "kr_key (rows s ! row) = k" using live_sound [OF k] by simp_all
  have nk': "kr_key (rows s ! i) \<noteq> k'" if "i < n_recs s" for i using k' live_None [of s k'] that by blast
  then have kk: "k \<noteq> k'" using row by blast
  have key: "kr_key (rows s' ! i) = (if i = row then k' else kr_key (rows s ! i))" if "i < n_recs s" for i
    using same [OF that] new(1) by simp
  have inj: "i = j" if "i < n_recs s'" "j < n_recs s'" "kr_key (rows s' ! i) = kr_key (rows s' ! j)" for i j
    using that n key [of i] key [of j] nk' [of i] nk' [of j] db_okD(4) [OF db, of i j] by (auto split: if_splits)
  have l: "live s' = (live s)(k := None, k' \<mapsto> row)"
  proof (rule live_eqI [OF inj])
    fix r assume "r < n_recs s'"
    then have r: "r < n_recs s" using n by simp
    show "((live s)(k := None, k' \<mapsto> row)) (kr_key (rows s' ! r)) = Some r"
    proof (cases "r = row")
      case True
      then show ?thesis using new(1) by simp
    next
      case False
      then have "kr_key (rows s ! r) \<noteq> k" using db_okD(4) [OF db, of r row] r row by auto
      then show ?thesis using False key [OF r] nk' [OF r] live_iff [OF db, of "kr_key (rows s ! r)" r] r by simp
    qed
  next
    fix j r assume m: "((live s)(k := None, k' \<mapsto> row)) j = Some r"
    show "r < n_recs s' \<and> kr_key (rows s' ! r) = j"
    proof (cases "j = k'")
      case True
      then show ?thesis using m row(1) new(1) n by simp
    next
      case False
      then have "j \<noteq> k" "live s j = Some r" using m by (auto split: if_splits)
      moreover from live_sound [OF this(2)] have "r < n_recs s" "kr_key (rows s ! r) = j" by simp_all
      ultimately show ?thesis using key row n by auto
    qed
  qed
  have "dict_table.indexes (snd (table_pop k (-1) (ktab s))) ((live s)(k := None))"
    by (rule dict_table.indexes_pop) (rule db_okD(3) [OF db])
  then have "dict_table.indexes (ktab s') (live s')" unfolding t l by (rule dict_table.indexes_set)
  then have "db_ok s'" by (intro db_okI [OF ok]) (erule (2) inj)
  moreover have "value_of s' j = ((value_of s)(k := None, k' := value_of s k)) j" for j
  proof -
    consider "j = k'" | "j = k" "j \<noteq> k'" | "j \<noteq> k" "j \<noteq> k'" by blast
    then show ?thesis
    proof cases
      case 3
      have "rows s' ! a = rows s ! a" if "live s j = Some a" for a
        using live_sound [OF that] row 3 by (intro same) auto
      then show ?thesis using 3 by (auto simp: value_of_def l v split: option.split)
    qed (use new(2) k kk in \<open>simp_all add: value_of_def l\<close>)
  qed
  ultimately show ?thesis by (simp add: fun_eq_iff)
qed

text \<open>
  C6: A rename to a name that fits into a row (of at most 2029 characters in the message-pack layout, see \<open>row_size_bound\<close>) moves
  the value of one key to a key that was free and changes nothing else; it is refused with \<open>JKeyError\<close>
  when the new key exists or the old one does not, and does nothing when the two names are equal.
  For a longer name the code does not do this: \<open>f_rename\<close> has no guard, and \<open>write_key\<close> shortens the
  name in the row while the key table gets the whole one (\<open>oversized_key\<close>).
\<close>

theorem f_rename_moves:
  assumes "db_ok s" "f_rename cfg k k' s = (r, s')" "72 + 4 * length k' < MAX_INDEX_SIZE"
  shows "db_ok s' \<and> (\<forall>e. r = Inl e \<longrightarrow> e = JKeyError) \<and> (r = Inr False \<longleftrightarrow> k = k') \<and>
    (r = Inr True \<longleftrightarrow> k \<noteq> k' \<and> value_of s k \<noteq> None \<and> value_of s k' = None) \<and>
    value_of s' = (if r = Inr True then (value_of s)(k := None, k' := value_of s k) else value_of s)"
proof -
  define s0 where "s0 = cache_pop k s"
  have q0: "quiet s s0" by (simp add: s0_def)
  note qd = quietD [OF q0]
  have db0: "db_ok s0" using qd(7) [OF assms(1)] .
  note tl = table_get_live [OF db0]
  have c: "table_contains k' (ktab s0) \<longleftrightarrow> live s k' \<noteq> None" "table_get k (-1) (ktab s0) < 0 \<longleftrightarrow> live s k = None"
    using tl(1,3) qd(9) by simp_all
  have vo: "value_of s j = None \<longleftrightarrow> live s j = None" for j by (simp add: value_of_def split: option.split)
  show ?thesis
  proof (cases "k = k' \<or> live s k' \<noteq> None \<or> live s k = None")
    case True
    then have "(s' = s \<or> s' = s0) \<and> (r = Inr False \<and> k = k' \<or> r = Inl JKeyError \<and> k \<noteq> k')"
      using assms(2) c unfolding f_rename_def s0_def [symmetric] Let_def by (auto split: if_splits)
    then show ?thesis using True assms(1) qd(7,10) vo by auto
  next
    case False
    then obtain row where row: "live s0 k = Some row" using qd(9) by auto
    then have tg: "table_get k (-1) (ktab s0) = int row" using tl(1,2) [of k] by auto
    obtain x s1 where rd: "read_k row s0 = (x, s1)" by (metis surj_pair)
    note rl = read_live [OF db0 row rd]
    note q1 = quietD [OF rl(2)]
    define s2 where "s2 = write_k cfg row (x\<lparr>kr_key := k'\<rparr>) None s1"
    have e: "r = Inr True" "s' = set_key k' row (kr_flags x)
        (pop_key k ((next_sync s2)\<lparr>swap := (swap (next_sync s2) + 1) AND SYNC_MASK\<rparr>))"
      using assms(2) False c tg rd unfolding f_rename_def s0_def [symmetric] Let_def s2_def by simp_all
    have f: "rows s' = rows s2" "n_recs s' = n_recs s2" "vfiles s' = vfiles s2" "ftab s' = ftab s2" "fopen s' = fopen s2"
        "dcache s' = dcache s2" "ktab s' = table_set k' row (kr_flags x) (snd (table_pop k (-1) (ktab s2)))"
      by (simp_all add: e(2) set_key_def pop_key_def next_sync_def)
    note sd = same_dataD [OF write_k_same [of s1 cfg row "x\<lparr>kr_key := k'\<rparr>" None], folded s2_def]
    have x: "x = rows s1 ! row" "row < lines s1" "row < n_recs s1" "x \<in> set (rows s1)"
      using rl(1,5) in_rows [OF rl(3,4)] live_sound [OF rl(4)] by simp_all
    have ok: "space_ok s1" "files_ok s1" "dcache_ok s1" "n_recs s1 \<le> lines s1"
      using db_okD(1) [OF rl(3)] by (simp_all add: store_ok_def)
    have r2: "\<exists>st. rows s2 = (rows s1)[row := complete cfg st (x\<lparr>kr_key := k'\<rparr>) None]" by (auto simp: s2_def)
    then obtain st where r2: "rows s2 = (rows s1)[row := complete cfg st (x\<lparr>kr_key := k'\<rparr>) None]" by blast
    have "disjoint_rows (rows s2)" unfolding r2
      using ok(1) x by (intro disjoint_update) (auto simp: space_ok_def cells_def)
    moreover have "\<forall>y \<in> set (rows s2). row_ok s1 y"
    proof -
      have "row_ok s1 (complete cfg st (x\<lparr>kr_key := k'\<rparr>) None)" using ok(1) x(4) by (auto simp: space_ok_def row_ok_def)
      then show ?thesis unfolding r2 using ok(1)
        by (auto simp: space_ok_def dest!: set_update_subset_insert [THEN subsetD])
    qed
    ultimately have "space_ok s2" using sd(15) by (simp add: space_ok_def)
    moreover have "dcache_ok s2" unfolding s2_def using ok(3) x(2) by (intro dcache_ok_write_k)
    ultimately have "store_ok s2" using ok sd(1) files_ok_cong [OF sd(5,6)] by (simp add: store_ok_def r2)
    then have st': "store_ok s'" using f by (intro store_ok_cong [of s' s2]) (simp_all add: dcache_ok_def)
    have "vfile s' = vfile s2" using f(3) by (simp add: vfile_def fun_eq_iff)
    then have ct: "content s' = content s1" using content_files sd(16) by metis
    have "db_ok s' \<and> value_of s' = (value_of s1)(k := None, k' := value_of s1 k)"
    proof (rule rename_refines [OF rl(3,4) _ st'])
      show "live s1 k' = None" using False q1(9) qd(9) by simp
      show "content s' (rows s' ! row) = content s1 (rows s1 ! row)"
        using x ct by (simp add: f r2) (simp add: content_def)
    qed (use f sd x r2 ct in simp_all)
    then show ?thesis using e(1) False q1(10) qd(10) vo by auto
  qed
qed

text \<open>The witnesses: an older version below the record, and a free name.\<close>

definition two_store :: store where
  "two_store = one_store\<lparr>rows := rows one_store @ [krow_of [97] (3, 7, 0) 0 20000 (PI 20000) (PI 0) 0], lines0 := 2\<rparr>"

lemma two_store_live: "live two_store k = (if k = [97] then Some 0 else None)"
  by (simp add: live_def two_store_def one_store_def)

lemma two_store_ok: "db_ok two_store"
proof (rule db_okI)
  show "store_ok two_store"
    by (simp add: store_ok_def space_ok_def files_ok_def dcache_ok_def disjoint_rows_def row_ok_def two_store_def
        one_store_def new_store_def nth_Cons' less_Suc_eq cells_def)
  have "live two_store = live one_store" by (simp add: two_store_live one_store_live fun_eq_iff)
  then show "dict_table.indexes (ktab two_store) (live two_store)"
    using db_okD(3) [OF one_store_ok] by (simp add: two_store_def)
qed (simp add: two_store_def one_store_def)

theorem f_unwrite_swaps_witness:
  "value_of two_store = [[97] \<mapsto> Fields 1 1 0] \<and> fst (f_unwrite demo_cfg [97] None two_store) = Some 0 \<and>
     value_of (snd (f_unwrite demo_cfg [97] None two_store)) = [[97] \<mapsto> Fields 3 7 0]"
proof -
  have fv: "find_version [97] two_store = Some 1"
    by (simp add: find_version_def two_store_def one_store_def)
  have v: "value_of two_store = [[97] \<mapsto> Fields 1 1 0]"
    by (simp add: value_of_def two_store_live fun_eq_iff) (simp add: two_store_def one_store_def)
  have f: "fst (f_unwrite demo_cfg [97] None two_store) = Some 0"
    using fv by (simp add: f_unwrite_def Let_def table_contains_def table_get_def table_set_def read_k_def find_version_def
        two_store_def one_store_def new_store_def cache_pop_def WRITE_LOCK_MASK_def)
  from f_unwrite_swaps [OF two_store_ok _ surjective_pairing, where k = "[97]" and rw = None and cfg = demo_cfg] f v fv
  show ?thesis by (auto simp: version_at_def) (simp add: two_store_def one_store_def)
qed

theorem f_rename_moves_witness:
  "f_rename demo_cfg [97] [98] one_store = (Inr True, snd (f_rename demo_cfg [97] [98] one_store)) \<and>
     value_of (snd (f_rename demo_cfg [97] [98] one_store)) = [[98] \<mapsto> Fields 1 1 0]"
proof -
  have v: "value_of one_store = [[97] \<mapsto> Fields 1 1 0]"
    by (simp add: value_of_def one_store_live fun_eq_iff) (simp add: one_store_def)
  from f_rename_moves [OF one_store_ok surjective_pairing, where k = "[97]" and k' = "[98]" and cfg = demo_cfg]
  show ?thesis by (auto simp: v fun_eq_iff MAX_INDEX_SIZE_def intro!: prod_eqI)
qed

end
