(* ===== verification/Record_Append.thy ===== *)
theory Record_Append
  imports Record_Refine
begin

text \<open>
  Appending: \<open>f_append\<close> of \<open>omni_json_db/jdb.py\<close> puts a new record behind the live rows
  without a search for space, and forwards the write of an existing one.
\<close>

section \<open>Making room at the end\<close>

lemma pick_file_cong: "ftab s' = ftab s \<Longrightarrow> pick_file limit req step s' f = pick_file limit req step s f"
proof (induction limit req step s f rule: pick_file.induct)
  case (1 limit req step s f)
  then show ?case
    by (subst (1 2) pick_file.simps) (simp add: used_def)
qed

lemma close_extra_copy: "close_extra n fs (copy_k a b s) = copy_k a b (close_extra n fs s)"
proof (induction n fs s rule: close_extra.induct)
  case (1 n f fs s)
  have "(copy_k a b s)\<lparr>maxv := max (maxv (copy_k a b s)) (int f + 1),
      ftab := assoc_set f (max (used (copy_k a b s) f) (length (vfile (copy_k a b s) f))) (ftab (copy_k a b s)),
      fopen := removeAll f (fopen (copy_k a b s))\<rparr> =
    copy_k a b (s\<lparr>maxv := max (maxv s) (int f + 1), ftab := assoc_set f (max (used s f) (length (vfile s f))) (ftab s),
      fopen := removeAll f (fopen s)\<rparr>)"
    by (rule store.equality) (simp_all add: copy_k_def used_def vfile_def)
  with 1 show ?case by simp
qed simp_all

lemma get_val_fp_copy:
  "get_val_fp cfg None req (copy_k a b s) = (fst (get_val_fp cfg None req s), copy_k a b (snd (get_val_fp cfg None req s)))"
proof -
  have p: "pick_file limit req step (copy_k a b s) f = pick_file limit req step s f" for limit step f
    by (rule pick_file_cong) (simp add: copy_k_def)
  have c: "fopen (copy_k a b t) = fopen t" "vfiles (copy_k a b t) = vfiles t" "ftab (copy_k a b t) = ftab t" for t
    by (simp_all add: copy_k_def)
  have u: "(copy_k a b t)\<lparr>fopen := x\<rparr> = copy_k a b (t\<lparr>fopen := x\<rparr>)" "(copy_k a b t)\<lparr>vfiles := y, fopen := x\<rparr> = copy_k a b (t\<lparr>vfiles := y, fopen := x\<rparr>)"
      "(copy_k a b t)\<lparr>ftab := z\<rparr> = copy_k a b (t\<lparr>ftab := z\<rparr>)" for t x y z
    by (rule store.equality; simp add: copy_k_def)+
  show ?thesis
    unfolding get_val_fp_def Let_def p c close_extra_copy
    by (simp add: c u split: prod.split option.split)
qed

text \<open>The first dead row to a new last row, then the first row behind the records after it.\<close>

definition tail_row :: "store \<Rightarrow> nat" where
  "tail_row s = min (max (safe s) (n_recs s)) (lines s)"

definition freed :: "store \<Rightarrow> store" where
  "freed s = (if tail_row s < lines s then copy_k (tail_row s) (lines s) (add_line s) else add_line s)"

lemma n_recs_moves [simp]: "n_recs (copy_k a b s) = n_recs s" "n_recs (add_line s) = n_recs s"
  by (simp_all add: copy_k_def add_line_def)

lemma n_recs_freed [simp]: "n_recs (freed s) = n_recs s"
  by (simp add: freed_def)

lemma shift_rows_eq:
  "shift_rows s = (if tail_row s > n_recs s then copy_k (n_recs s) (tail_row s) (freed s) else freed s)"
  unfolding shift_rows_def Let_def tail_row_def [symmetric] freed_def by simp

lemma shift_rows_value:
  assumes "n_recs s \<le> lines s"
  shows "value_of (shift_rows s) = value_of s"
proof -
  have r: "n_recs (shift_rows s) = n_recs s" "vfiles (shift_rows s) = vfiles s"
    by (simp_all add: shift_rows_eq freed_def copy_k_def add_line_def)
  have i: "rows (shift_rows s) ! i = rows s ! i" if "i < n_recs s" for i
    using that assms by (auto simp: shift_rows_eq freed_def copy_k_def add_line_def nth_append nth_list_update tail_row_def)
  have c: "content (shift_rows s) = content s" by (rule content_files) (simp add: vfile_def r fun_eq_iff)
  have l: "live (shift_rows s) = live s" unfolding live_def r by (intro ext find_cong) (auto simp: i)
  show ?thesis
    using i live_sound [of s] by (auto simp: value_of_def l c fun_eq_iff split: option.split)
qed

lemma put_value_copy: "put_value f p d (copy_k a b s) = copy_k a b (put_value f p d s)"
  by (rule store.equality) (simp_all add: put_value_def copy_k_def vfile_def)

lemma append_files:
  assumes g: "get_val_fp cfg None n (add_line s) = ((f, p), s3)"
  shows "get_val_fp cfg None n (shift_rows s) = ((f, p),
      if tail_row s > n_recs s then copy_k (n_recs s) (tail_row s) (if tail_row s < lines s then copy_k (tail_row s) (lines s) s3 else s3)
      else (if tail_row s < lines s then copy_k (tail_row s) (lines s) s3 else s3))"
  by (simp add: shift_rows_eq freed_def get_val_fp_copy g)

lemma shift_attach: "shift_rows (attach_group k v s) = attach_group k v (shift_rows s)"
proof -
  have t: "tail_row (attach_group k v s) = tail_row s" by (simp add: tail_row_def attach_group_def)
  have c: "copy_k a b (attach_group k v u) = attach_group k v (copy_k a b u)"
    "add_line (attach_group k v u) = attach_group k v (add_line u)" for a b u
    by (rule store.equality; simp add: copy_k_def add_line_def attach_group_def)+
  show ?thesis by (simp add: shift_rows_eq freed_def t c) (simp add: attach_group_def)
qed

section \<open>\<open>f_append\<close>\<close>

lemma append_header_refines:
  fixes cfg kfl
  assumes db: "db_ok s" and k: "live s k = None" and new: "kr_rsz new = 0" "kr_key new = k"
  defines "s' \<equiv> count_record False k kfl (write_k cfg (n_recs s) new None (shift_rows s))"
  shows "db_ok s' \<and> value_of s' = (value_of s)(k \<mapsto> content s new)"
proof -
  have ok: "space_ok s" "files_ok s" "dcache_ok s" "n_recs s \<le> lines s"
    using db_okD(1) [OF db] by (simp_all add: store_ok_def)
  have t: "n_recs s \<le> tail_row s" "tail_row s \<le> lines s" using ok(4) by (simp_all add: tail_row_def)
  note m = moved_row [OF t(2), of "add_line s", folded freed_def]
  have sd: "same_data s (freed s)" using same_data_trans [OF add_line_same m(2)] .
  note sdd = same_dataD [OF sd]
  have so: "space_ok (add_line s)" "dcache_ok (freed s)"
    using space_ok_add_line [OF ok(1)] m(3) dcache_ok_add_line [OF ok(3)] by blast+
  have ra: "rows (add_line s) = rows s @ [blank]" by (simp add: add_line_def)
  have cl: "claimed s (tail_row s) (rows (add_line s)) (lines s) (freed s)"
    using t m(1) so sdd same_dataD(15) [OF m(2)] same_dataD(1-3,8-12) [OF m(2)]
    by (auto simp: claimed_def space_ok_def nth_append ra)
  have c: "content (freed s) = content s" using sdd(16) by (simp add: fun_eq_iff)
  have "db_ok s' \<and> value_of s' = (value_of s)(k \<mapsto> content (freed s) new) \<and> n_recs s' = n_recs s + 1"
    unfolding s'_def
  proof (rule insert_refines [where cfg = cfg, OF db k cl])
    show "disjoint_rows ((rows (add_line s))[lines s := new])"
      using so(1) new(1) by (intro disjoint_update) (simp_all add: space_ok_def)
    show "files_ok (freed s)" using files_ok_cong [OF sdd(5,6)] ok(2) by simp
    have "write_k cfg (n_recs s) new None (shift_rows s) = insert_row cfg (tail_row s) new (freed s)"
      by (simp add: insert_row_def shift_rows_eq)
    then show "quiet (insert_row cfg (tail_row s) new (freed s)) (write_k cfg (n_recs s) new None (shift_rows s))"
      "ktab (write_k cfg (n_recs s) new None (shift_rows s)) = ktab (freed s)"
      "ftab (write_k cfg (n_recs s) new None (shift_rows s)) = ftab (freed s)"
      "fopen (write_k cfg (n_recs s) new None (shift_rows s)) = fopen (freed s)"
      "vfiles (write_k cfg (n_recs s) new None (shift_rows s)) = vfiles (freed s)"
      "dcache (write_k cfg (n_recs s) new None (shift_rows s)) = dcache (insert_row cfg (tail_row s) new (freed s))"
      by simp_all
  qed (use new c in \<open>simp_all add: row_ok_def\<close>)
  then show ?thesis using c by simp
qed

lemma append_value_refines:
  fixes cfg kfl cd md t c
  assumes db: "db_ok s" and k: "live s k = None" and data: "data \<noteq> []"
    and g: "get_val_fp cfg None (length (pad_value c 0 False data)) (shift_rows s) = ((f, p), s3)"
  defines "new \<equiv> krow_of k (f, p, length (pad_value c 0 False data)) (length data) cd md t kfl"
  defines "s' \<equiv> count_record False k kfl (note_used f (p + length (pad_value c 0 False data))
      (write_k cfg (n_recs s) new None (put_value f p (pad_value c 0 False data) s3)))"
  shows "db_ok s' \<and> value_of s' = (value_of s)(k \<mapsto> Data data)"
proof -
  define dd where "dd = pad_value c 0 False data"
  define z where "z = length dd"
  have ok: "space_ok s" "files_ok s" "dcache_ok s" "n_recs s \<le> lines s"
    using db_okD(1) [OF db] by (simp_all add: store_ok_def)
  have t: "n_recs s \<le> tail_row s" "tail_row s \<le> lines s" using ok(4) by (simp_all add: tail_row_def)
  obtain f0 p0 t3 where g0: "get_val_fp cfg None z (add_line s) = ((f0, p0), t3)" by (metis surj_pair)
  from append_files [OF g0] g have fp: "f0 = f" "p0 = p"
    and s3: "s3 = (if tail_row s > n_recs s then copy_k (n_recs s) (tail_row s) (if tail_row s < lines s then copy_k (tail_row s) (lines s) t3 else t3)
      else (if tail_row s < lines s then copy_k (tail_row s) (lines s) t3 else t3))"
    by (simp_all add: z_def dd_def)
  note g0 = g0 [unfolded fp z_def dd_def]
  have r: "readied s (tail_row s) data (f, p, z) (add_line s) t3 (lines s) dd"
    unfolding z_def dd_def by (rule readied_fresh [OF g0]) (use ok t in simp_all)
  define s1 where "s1 = (if tail_row s < lines s then copy_k (tail_row s) (lines s) (put_value f p dd t3) else put_value f p dd t3)"
  have "n_recs s \<le> tail_row s \<and> tail_row s \<le> lines s" using t by simp
  from claim_finish [OF r this, folded s1_def]
  have cf: "claimed s (tail_row s) (rows (add_line s)) (lines s) s1" "length data \<le> z"
      "\<forall>y. cells y \<subseteq> {f} \<times> {p ..< p + z} \<longrightarrow> disjoint_rows ((rows (add_line s))[lines s := y])"
      "take (length data) (drop p (vfile s1 f)) = data" "p + z \<le> length (vfile s1 f)" "files_ok (note_used f (p + z) s1)"
      "\<forall>i < lines (add_line s). i \<noteq> lines s \<longrightarrow> content s1 (rows (add_line s) ! i) = content s (rows (add_line s) ! i)"
    by blast+
  define u where "u = note_used f (p + z) s1"
  define new' where "new' = krow_of k (f, p, z) (length data) cd md t kfl"
  note vr = value_ready [OF cf(1,2) data cf(3-7), of k cd md t kfl, folded u_def new'_def]
  have n1: "n_recs s1 = n_recs s" using cf(1) by (simp add: claimed_def)
  have e: "note_used f (p + z) (write_k cfg (n_recs s) new' None (put_value f p dd s3)) = insert_row cfg (tail_row s) new' u"
  proof -
    have "put_value f p dd s3 = (if tail_row s > n_recs s then copy_k (n_recs s) (tail_row s) s1 else s1)"
      by (simp add: s3 s1_def put_value_copy)
    then have "write_k cfg (n_recs s) new' None (put_value f p dd s3) = insert_row cfg (tail_row s) new' s1"
      by (simp add: insert_row_def n1)
    then show ?thesis by (simp add: u_def note_insert)
  qed
  have s': "s' = count_record False k kfl (insert_row cfg (tail_row s) new' u)"
    unfolding s'_def e [symmetric] by (simp add: new_def new'_def z_def dd_def)
  have "db_ok s' \<and> value_of s' = (value_of s)(k \<mapsto> content u new') \<and> n_recs s' = n_recs s + 1"
    unfolding s'
    by (rule insert_refines [where cfg = cfg, OF db k conjunct1 [OF vr]]) (use vr in \<open>simp_all add: new'_def\<close>)
  then show ?thesis using vr by simp
qed

lemma append_new_updates:
  assumes db: "db_ok s" and k: "live s k = None" and v: "storable cfg v" and f: "append_new cfg k v ta arg s = (r, s')"
  shows "(r = Inr (Wrote True) \<and> updates cfg s k v r s') \<or> ((\<exists>e. r = Inl e) \<and> s' = shift_rows s)"
proof (cases "encode_row (cod cfg) v")
  case (Inl e)
  then show ?thesis using f by (auto simp: append_new_def)
next
  case sl: (Inr sl)
  show ?thesis
  proof (cases "ttl_start ta")
    case (Inl e)
    then show ?thesis using f sl by (auto simp: append_new_def)
  next
    case (Inr t)
    define kfl where "kfl = new_flags 0 arg 0 t v"
    define s1 where "s1 = attach_group k v s"
    have q: "quiet s s1" by (simp add: s1_def)
    note qd = quietD [OF q]
    have db1: "db_ok s1" "live s1 k = None" using qd db k by simp_all
    have sh: "attach_group k v (shift_rows s) = shift_rows s1" by (simp add: s1_def shift_attach)
    have n: "n_recs (shift_rows s1) = n_recs s1" by (simp add: shift_rows_eq)
    have "\<exists>c. slot_content sl = c \<and> r = Inr (Wrote True) \<and> db_ok s' \<and> value_of s' = (value_of s1)(k \<mapsto> c)"
    proof (cases sl)
      case (Inline tid p m)
      from append_header_refines [OF db1, where new = "krow_of k (tid, p, 0) m (-1) (PI (-1)) t kfl" and cfg = cfg and kfl = kfl]
      show ?thesis using f sl Inr Inline n
        unfolding append_new_def Let_def sh kfl_def [symmetric] by (auto simp: sh kfl_def)
    next
      case (InFile data m)
      obtain f' p s3 where g: "get_val_fp cfg None (length (pad_value (cod cfg) 0 False data)) (shift_rows s1) = ((f', p), s3)"
        by (metis surj_pair)
      have d: "data \<noteq> []" using storableD [OF v] sl InFile by simp
      have "n_recs (put_value f' p (pad_value (cod cfg) 0 False data) s3) = n_recs s1"
      proof -
        have "ftab (shift_rows s1) = ftab s1" "fopen (shift_rows s1) = fopen s1"
          by (simp_all add: shift_rows_eq freed_def copy_k_def add_line_def)
        then have "files_ok (shift_rows s1)" using db_okD(1) [OF db1(1)] files_ok_cong [of "shift_rows s1" s1] by (simp add: store_ok_def)
        from get_val_fp_spec [OF g this] have "n_recs s3 = n_recs (shift_rows s1)" by (simp add: same_recs_def)
        then show ?thesis using n by (simp add: put_value_def)
      qed
      then show ?thesis
        using append_value_refines [where cfg = cfg and cd = "-1" and md = "PI (-1)" and t = t and kfl = kfl, OF db1 d g] f sl Inr InFile g
        unfolding append_new_def Let_def by (auto simp: sh kfl_def)
    qed
    then show ?thesis using sl qd(10) by (auto simp: updates_def)
  qed
qed

text \<open>
  C7: An append that returns true is an update of one key, of an existing record or of a new
  one; otherwise no key changes.  The invariant is kept unless the append of a new key ends
  in an error.
\<close>

theorem f_append_refines:
  assumes "db_ok s" "settings_ok cfg" "\<not> gzip cfg" "storable cfg v" "storable cfg (plain_bytes v)"
    "f_append cfg k v ta arg s = (r, s')"
  shows "if r = Inr (Wrote True)
    then db_ok s' \<and> (\<exists>v' sl. v' \<in> {v, plain_bytes v} \<and> encode_row (cod cfg) v' = Inr sl \<and>
           value_of s' = (value_of s)(k \<mapsto> slot_content sl))
    else value_of s' = value_of s \<and> (db_ok s' \<or> live s k = None \<and> (\<exists>e. r = Inl e))"
proof -
  obtain row old where t: "table_get_both k (ktab s) = (row, old)" by (metis surj_pair)
  obtain tr a where p: "pop_transient_flags arg = (tr, a)" by (metis surj_pair)
  note tl = table_live [OF assms(1) t]
  have n: "n_recs s \<le> lines s" using db_okD(2) [OF assms(1)] .
  show ?thesis
  proof (cases "rejected cfg k v \<or> MAX_KEY_SIZE < length k")
    case True
    then have "s' = s" "r \<noteq> Inr (Wrote True)" using assms(6) by (auto simp: f_append_def split: if_splits)
    then show ?thesis using assms(1) by simp
  next
    case False
    show ?thesis
    proof (cases "row \<ge> 0")
      case True
      show ?thesis
      proof (cases "tr AND KF_EXCL \<noteq> 0 \<or> old AND KF_READ_ONLY \<noteq> 0 \<and> tr AND KF_UNLOCK = 0")
        case T: True
        then have "s' = s" "r = Inr (Wrote False)" using assms(6) False True t p by (auto simp: f_append_def)
        then show ?thesis using assms(1) by simp
      next
        case F: False
        have "\<exists>w. f_write cfg k v w s = (r, s')"
          using assms(6) False True t p F by (auto simp: f_append_def)
        then have "updates cfg s k (plain_bytes v) r s'" using f_write_updates [OF assms(1-3,5)] by blast
        then show ?thesis unfolding updates_def by (auto split: if_splits)
      qed
    next
      case new: False
      then have k: "live s k = None" using tl(1) by simp
      have "append_new cfg k v ta arg s = (r, s')" using assms(6) False new t by (simp add: f_append_def)
      from append_new_updates [OF assms(1) k assms(4) this] show ?thesis
        using shift_rows_value [OF n] k by (auto simp: updates_def)
    qed
  qed
qed

theorem f_append_refines_witness:
  "value_of (snd (f_append demo_cfg [97] (Plain (VBool True)) (TTL_Num (PI (-1))) FNone new_store)) = [[97] \<mapsto> Fields 1 1 0]"
proof -
  have s: "storable demo_cfg (Plain (VBool True))" "storable demo_cfg (plain_bytes (Plain (VBool True)))"
    by (simp_all add: storable_def)
  have r: "fst (f_append demo_cfg [97] (Plain (VBool True)) (TTL_Num (PI (-1))) FNone new_store) = Inr (Wrote True)"
    by (simp add: f_append_def append_new_def rejected_def demo_cfg_def new_store_def MAX_KEY_SIZE_def MAX_INDEX_SIZE_def
      table_get_both_def ttl_start_def Let_def)
  from f_append_refines [OF new_store_ok demo_cfg_ok s surjective_pairing, of "[97]" "TTL_Num (PI (-1))" FNone] r
  show ?thesis by (auto simp: new_store_empty)
qed

text \<open>
  C8: The rows are moved before the value is encoded: when the encoding fails and the first
  dead row has bytes, the call leaves two dead rows that own them, so that two later writes
  can be given the same space.
\<close>

theorem append_error_shares_space:
  assumes "db_ok s" "live s k = None" "\<not> rejected cfg k v" "length k \<le> MAX_KEY_SIZE" "encode_row (cod cfg) v = Inl e"
    and "n_recs s < lines s" "kr_rsz (rows s ! n_recs s) > 0"
  shows "\<exists>s' j. f_append cfg k v ta arg s = (Inl e, s') \<and> n_recs s' = n_recs s \<and> n_recs s < j \<and> j < lines s' \<and>
    rows s' ! n_recs s = rows s ! n_recs s \<and> rows s' ! j = rows s ! n_recs s \<and> \<not> space_ok s'"
proof -
  obtain row old where t: "table_get_both k (ktab s) = (row, old)" by (metis surj_pair)
  have "\<not> row \<ge> 0" using table_live(1) [OF assms(1) t] assms(2) by simp
  then have f: "f_append cfg k v ta arg s = (Inl e, shift_rows s)"
    using assms(3-5) t by (simp add: f_append_def append_new_def)
  let ?n = "n_recs s"
  define j where "j = (if tail_row s > ?n then tail_row s else lines s)"
  have tl: "?n \<le> tail_row s" "tail_row s \<le> lines s" using assms(6) by (simp_all add: tail_row_def)
  have ra: "rows (add_line s) = rows s @ [blank]" by (simp add: add_line_def)
  have j: "?n < j" "j < lines (shift_rows s)" using tl assms(6) by (auto simp: j_def shift_rows_eq freed_def ra)
  have r: "rows (shift_rows s) ! ?n = rows s ! ?n" "rows (shift_rows s) ! j = rows s ! ?n"
    using tl assms(6) by (auto simp: j_def shift_rows_eq freed_def ra nth_append nth_list_update)
  have "cells (rows s ! ?n) \<noteq> {}" using assms(7) by (simp add: cells_def)
  then have "\<not> space_ok (shift_rows s)"
    using disjoint_rowsD [of "rows (shift_rows s)" ?n j] j r by (auto simp: space_ok_def)
  with f j r show ?thesis by (intro exI [of _ "shift_rows s"] exI [of _ j]) (simp add: shift_rows_eq)
qed

text \<open>A deleted value of sixteen bytes, and an integer that does not fit into a row.\<close>

definition dead_store :: store where
  "dead_store = new_store\<lparr>rows := [krow_of [98] (0, 0, 16) 16 20000 (PI 20000) (PI 0) 0], lines0 := 1,
     vfiles := [(0, replicate 16 0)], ftab := [(0, 16)]\<rparr>"

lemma dead_store_ok: "db_ok dead_store"
proof (rule db_okI)
  show "store_ok dead_store"
    by (auto simp: store_ok_def space_ok_def files_ok_def dcache_ok_def disjoint_rows_def row_ok_def used_def vfile_def
        dead_store_def new_store_def)
  have "live dead_store = Map.empty" by (simp add: live_def dead_store_def new_store_def fun_eq_iff)
  then show "dict_table.indexes (ktab dead_store) (live dead_store)"
    using dict_table.indexes_empty by (simp add: dead_store_def new_store_def)
qed (simp add: dead_store_def new_store_def)

theorem append_error_shares_space_witness:
  "db_ok dead_store \<and>
   (\<exists>s'. f_append demo_cfg [97] (Plain (VInt (- (2 ^ 64)))) (TTL_Num (PI (-1))) FNone dead_store = (Inl StructError, s') \<and> \<not> space_ok s')"
proof -
  have "live dead_store [97] = None" by (simp add: live_def dead_store_def new_store_def)
  moreover have "\<not> rejected demo_cfg [97] (Plain (VInt (- (2 ^ 64))))" by (simp add: rejected_def demo_cfg_def)
  moreover have "length [97::nat] \<le> MAX_KEY_SIZE" by (simp add: MAX_KEY_SIZE_def MAX_INDEX_SIZE_def)
  moreover have "encode_row (cod demo_cfg) (Plain (VInt (- (2 ^ 64)))) = Inl StructError" by simp
  moreover have "n_recs dead_store < lines dead_store" "kr_rsz (rows dead_store ! n_recs dead_store) > 0"
    by (simp_all add: dead_store_def new_store_def)
  ultimately show ?thesis using append_error_shares_space [OF dead_store_ok] dead_store_ok by blast
qed

end
