(* ===== verification/Record_Read.thy ===== *)
theory Record_Read
  imports Record_Refine
begin

text \<open>
  Reading: what \<open>f_read\<close> of \<open>omni_json_db/jdb_lite.py\<close> returns is what the codec makes of the
  bytes that were stored, whether they lie in the key row or in a value file.
\<close>

lemma encode_in_file:
  assumes "encode_row c (Plain p) = Inr (InFile data n)" "\<not> zipped c"
  shows "\<not> packed (Plain p)" "VAL_dumps c p = Inr data"
proof -
  have e: "\<not> packed (Plain p) \<and> encode_bytes c p = Inr (InFile data n)"
    using assms(1) by (cases p) (auto split: option.splits if_splits)
  then show "\<not> packed (Plain p)" by blast
  show "VAL_dumps c p = Inr data"
    using e assms(2) by (cases "VAL_dumps c p") (auto simp: encode_bytes_def Let_def split: if_splits)
qed

lemma row_value_stored:
  assumes ok: "store_ok s" and x: "x \<in> set (rows s)" and c: "content s x = slot_content sl"
    and e: "encode_row (cod cfg) v = Inr sl" and v: "storable cfg v" and z: "\<not> zipped (cod cfg)" and g: "\<not> is_group v"
    and codec: "\<And>p b. v = Plain p \<Longrightarrow> VAL_dumps (cod cfg) p = Inr b \<Longrightarrow> b \<noteq> [] \<and> (\<exists>u. VAL_loads (cod cfg) b = Inr u)"
  shows "\<exists>w s'. row_value cfg x s = (Inr w, s') \<and> reads_back (cod cfg) v w \<and> quiet s s'"
proof (cases sl)
  case (Inline t p n)
  then have "kr_rsz x = 0 \<and> kr_file x = t \<and> kr_off x = p \<and> kr_vsz x = n"
    using c by (auto simp: content_def split: if_splits)
  moreover have "\<exists>w. decode_row (cod cfg) t p n = Inr w \<and> reads_back (cod cfg) v w"
    using inline_decodes [OF e [unfolded Inline]] codec by blast
  ultimately show ?thesis by (auto simp: row_value_def)
next
  case (InFile data n)
  have data: "data \<noteq> []" using storableD [OF v] e InFile by simp
  have x': "kr_rsz x \<noteq> 0" "take (kr_vsz x) (drop (kr_off x) (vfile s (kr_file x))) = data"
    using c InFile by (auto simp: content_def split: if_splits)
  then have vs: "0 < kr_vsz x" using data by (cases "kr_vsz x") auto
  obtain q s' where gv: "get_val_fp cfg (Some (kr_file x)) (min_value_size (cod cfg)) s = (q, s')" by (metis surj_pair)
  have qs: "quiet s s'" using quiet_get_val_fp(1) [OF ok x x'(1), of cfg "min_value_size (cod cfg)"] gv by simp
  obtain p where p: "v = Plain p" using e g unfolding InFile by (cases v) auto
  have d: "\<not> packed v" "VAL_dumps (cod cfg) p = Inr data"
    using encode_in_file [OF e [unfolded InFile p] z] p by simp_all
  obtain u where u: "VAL_loads (cod cfg) data = Inr u" using codec [OF p d(2)] by blast
  have "read_value (cod cfg) (vfile s' (kr_file x)) (kr_off x) (kr_rsz x) (kr_vsz x) = Inr (Plain u)"
    using vs z x'(2) u quietD(3) [OF qs] by (simp add: read_value_def loads_with_unzip_def)
  then have "row_value cfg x s = (Inr (Plain u), s')" using gv x'(1) by (simp add: row_value_def)
  then show ?thesis using qs d u p by auto
qed

section \<open>The cache after a write\<close>

lemma vcache_same [simp]:
  "vcache (next_sync s) = vcache s" "vcache (set_key k r f s) = vcache s" "vcache (write_k cfg r x v s) = vcache s"
  "vcache (count_record b k f s) = vcache s"
  using same_dataD(12) [OF write_k_same [of s cfg r x v]]
  by (simp_all add: next_sync_def set_key_def count_record_def)

lemma cache_get_pop [simp]: "cache_get k (cache_pop k s) = None"
  by (simp add: cache_get_def cache_pop_def)

lemma cache_get_cong: "vcache s = vcache t \<Longrightarrow> cache_get k s = cache_get k t"
  by (simp add: cache_get_def)

text \<open>After a write the cache has nothing or a copy of the value.\<close>

definition caches :: "key \<Rightarrow> jval \<Rightarrow> store \<Rightarrow> bool" where
  "caches k v s \<longleftrightarrow> cache_get k s = None \<or> cache_get k s = Some (jval_copy v)"

lemma caches_new: "cache_limit cfg \<noteq> 0 \<Longrightarrow> caches k v (cache_new cfg k v fl s)"
  by (auto simp: caches_def cache_new_def update_cache_def cache_pop_def cache_get_def Let_def map_add_def)

lemma caches_flags:
  assumes "f_write_key_flags cfg k arg t md s = (r, s')" "caches k v s"
  shows "caches k v s'"
proof -
  obtain x s1 where r: "read_k (nat (table_get k (-1) (ktab s))) s = (x, s1)" by (metis surj_pair)
  have v: "vcache s1 = vcache s" using r by (auto simp: read_k_def Let_def split: option.splits if_splits)
  have c: "caches k v (cache_pop k t)" for t by (simp add: caches_def)
  have "cache_get k s' = None \<or> vcache s' = vcache s"
    using assms(1) r v
    by (auto simp: f_write_key_flags_def Let_def cache_get_def set_key_def cache_pop_def split: if_splits option.splits sum.splits)
  then show ?thesis using assms(2) cache_get_cong [of s' s k] by (auto simp: caches_def)
qed

lemma caches_version:
  assumes "store_version cfg k v fl ws checked row x sl rv cd md t kfl s = (Inr (Wrote True), s')" "cache_limit cfg \<noteq> 0"
  shows "caches k v s'"
proof -
  obtain same s1 where u: "(if checked then (False, s) else unchanged cfg x sl s) = (same, s1)" by (metis surj_pair)
  show ?thesis
  proof (cases same)
    case True
    obtain q t1 where f: "f_write_key_flags cfg k (FInt kfl) (Some (TTL_Num t)) md (cache_new cfg k v kfl s1) = (q, t1)"
      by (metis surj_pair)
    show ?thesis
      using assms(1) u True f caches_flags [OF f caches_new [OF assms(2)]]
      by (auto simp: store_version_def Let_def split: if_splits)
  next
    case False
    then show ?thesis using assms(1) u caches_new [OF assms(2)] by (auto simp: store_version_def Let_def)
  qed
qed

lemma caches_over:
  assumes "write_over cfg k v w tr arg checked row x s = (Inr (Wrote True), s')" "cache_limit cfg \<noteq> 0"
  shows "caches k v s'"
  using assms by (auto simp: write_over_def Let_def split: sum.splits prod.splits elim!: caches_version)

lemma caches_found:
  assumes "write_found cfg k v w tr arg row old s = (Inr (Wrote True), s')" "cache_limit cfg \<noteq> 0"
  shows "caches k v s'"
proof -
  obtain x s1 where r: "read_k row s = (x, s1)" by (metis surj_pair)
  obtain o' s2 where d: "decode_value cfg k x False False s1 = (o', s2)" by (metis surj_pair)
  obtain t s3 where rv: "row_value cfg x s1 = (t, s3)" by (metis surj_pair)
  have "\<exists>checked s0. write_over cfg k v w tr arg checked row x s0 = (Inr (Wrote True), s')"
    using assms(1) unfolding write_found_def Let_def r d rv prod.case
    by (auto split: if_splits sum.splits simp: map_sum_def simp del: key_flag_bit.simps)
  then show ?thesis using caches_over assms(2) by blast
qed

lemma caches_fresh:
  assumes "write_new cfg k v w tr arg s = (Inr (Wrote True), s')" "cache_limit cfg \<noteq> 0"
  shows "caches k v s'"
proof -
  have "\<exists>b f t. s' = count_record b k f (cache_new cfg k v f t)"
    using assms(1) unfolding write_new_def
    by (auto simp: Let_def split: if_splits sum.splits prod.splits simp del: key_flag_bit.simps)
  then obtain b f t where s': "s' = count_record b k f (cache_new cfg k v f t)" by blast
  have "cache_get k s' = cache_get k (cache_new cfg k v f t)" by (rule cache_get_cong) (simp add: s')
  then show ?thesis using caches_new [OF assms(2)] by (simp add: caches_def)
qed

lemma f_write_caches:
  assumes "f_write cfg k v w s = (Inr (Wrote True), s')" "cache_limit cfg \<noteq> 0"
  shows "caches k (plain_bytes v) s'"
  using assms unfolding f_write_def
  by (auto simp: Let_def split: if_splits prod.splits elim!: caches_found caches_fresh)

section \<open>Reading it back\<close>

text \<open>A value that is no link, no group and not expired comes from the cache or from its row.\<close>

lemma f_read_value:
  assumes db: "db_ok s" and k: "live s k = Some row"
    and x: "kr_flags (rows s ! row) AND KF_LINK = 0" "kr_flags (rows s ! row) AND KF_GROUP = 0" "\<not> is_expired cfg (rows s ! row)"
  obtains (cached) c where "cache_get k s = Some c"
      "fst (f_read cfg k copy arg s) = Inr (Value c) \<or> fst (f_read cfg k copy arg s) = Inr (Value (jval_copy c))"
  | (row) s1 b where "quiet s s1" "quiet s1 (snd (row_value cfg (rows s ! row) s1))" "b \<longrightarrow> cache_limit cfg \<noteq> 0"
      "fst (f_read cfg k copy arg s) =
        map_sum id (\<lambda>v. Value (if b then jval_copy v else v))
          (case fst (row_value cfg (rows s ! row) s1) of Inl e \<Rightarrow> Inl JTypeError | Inr v \<Rightarrow> Inr v)"
proof -
  obtain tr a where p: "pop_transient_flags arg = (tr, a)" by (metis surj_pair)
  obtain r fl where t: "table_get_both k (ktab s) = (r, fl)" by (metis surj_pair)
  define hit where "hit = (if fl AND KF_EXPIRE = 0 \<and> tr AND key_flag_bit NO_FOLLOW = 0 then cache_get k s else None)"
  note tl = table_live [OF db t]
  have r: "r = int row" using tl k by auto
  have rw: "row < n_recs s" "kr_key (rows s ! row) = k" using live_sound [OF k] by simp_all
  show thesis
  proof (cases hit)
    case (Some c)
    then have "cache_get k s = Some c" by (auto simp: hit_def split: if_splits)
    moreover have "fst (f_read cfg k copy arg s) = Inr (Value (if copy then jval_copy c else c))"
      using p t Some by (simp add: f_read_def hit_def Let_def del: key_flag_bit.simps)
    ultimately show thesis by (intro cached) (auto split: if_splits)
  next
    case None
    obtain y s1 where rd: "read_k row s = (y, s1)" by (metis surj_pair)
    note rl = read_live [OF db k rd]
    obtain dv s4 where d: "decode_value cfg k (rows s ! row) True copy s1 = (dv, s4)" by (metis surj_pair)
    have f: "fst (f_read cfg k copy arg s) = map_sum id Value dv"
      using p t r rw None rd rl(1) x(1,3) d unfolding hit_def
      by (simp add: f_read_def Let_def del: key_flag_bit.simps split: prod.split)
    define nc where "nc \<longleftrightarrow> kr_flags (rows s ! row) AND (KF_LINK OR KF_NO_CACHE) \<noteq> 0"
    define s2 where "s2 = (if nc then cache_pop k s1 else s1)"
    define wc where "wc \<longleftrightarrow> \<not> nc \<and> cache_limit cfg \<noteq> 0"
    have q: "quiet s s2" using quiet_trans [OF rl(2) quiet_small(1)] rl(2) by (simp add: s2_def)
    have "rows s ! row \<in> set (rows s2)" using in_rows [OF db k] quietD(1) [OF q] by simp
    then have q2: "quiet s2 (snd (row_value cfg (rows s ! row) s2))"
      using quiet_row_value db_okD(1) [OF quietD(7) [OF q db]] by blast
    show thesis
    proof (cases "wc \<and> cache_get k s2 \<noteq> None")
      case True
      then obtain c where c: "cache_get k s2 = Some c" by blast
      have "dv = Inr (if copy \<and> wc then jval_copy c else c)"
        using d True c unfolding decode_value_def Let_def s2_def [symmetric] nc_def [symmetric] wc_def [symmetric]
        by (auto split: if_splits)
      moreover have "vcache s1 = vcache s" using rd by (auto simp: read_k_def Let_def split: option.splits if_splits)
      then have "cache_get k s = Some c" using True c by (auto simp: s2_def wc_def cache_get_def)
      ultimately show thesis using f by (intro cached) (auto split: if_splits)
    next
      case False
      obtain v s3 where rv: "row_value cfg (rows s ! row) s2 = (v, s3)" by (metis surj_pair)
      have "dv = (case v of Inl e \<Rightarrow> Inl JTypeError | Inr v \<Rightarrow> Inr (if copy \<and> wc then jval_copy v else v))"
        using d False x(2) rv unfolding decode_value_def Let_def s2_def [symmetric] nc_def [symmetric] wc_def [symmetric]
        by (cases v) (auto split: if_splits option.splits)
      then have "fst (f_read cfg k copy arg s) = map_sum id (\<lambda>v. Value (if copy \<and> wc then jval_copy v else v))
          (case fst (row_value cfg (rows s ! row) s2) of Inl e \<Rightarrow> Inl JTypeError | Inr v \<Rightarrow> Inr v)"
        using f rv by (cases v) simp_all
      then show thesis using row [OF q q2, of "copy \<and> wc"] wc_def by blast
    qed
  qed
qed

lemma deepcopy_again [simp]: "deepcopy (deepcopy v) = deepcopy v"
proof -
  have "no_bytearray (deepcopy v)"
    by (induction v rule: deepcopy.induct) (auto simp: list_all_iff)
  then show ?thesis by (simp add: deepcopy_preserves_iff)
qed

text \<open>
  C2: what \<open>f_write\<close> stores, \<open>f_read\<close> returns, for a plain value in a database without compression, when
  the record is no link, no group and not expired, and the codec reads what it writes.  If the
  write answered true, the key holds the value as the codec reads it from its bytes, or, when
  the cache is used, a deep copy of the value; \<open>deepcopy\<close> changes values with byte arrays only, so a value
  without byte arrays that the codec reads back unchanged is read as it was written.  Every other
  key keeps its content.  (With the cache switched off it holds nothing under the key.)
\<close>

theorem read_after_write:
  assumes "db_ok s" "settings_ok cfg" "\<not> gzip cfg" "\<not> zipped (cod cfg)"
    and "plain_bytes v = Plain p" "storable cfg (Plain p)"
    and "\<And>b. VAL_dumps (cod cfg) p = Inr b \<Longrightarrow> b \<noteq> [] \<and> (\<exists>u. VAL_loads (cod cfg) b = Inr u)"
    and "f_write cfg k v w s = (Inr (Wrote True), s')" "live s' k = Some row" "cache_limit cfg = 0 \<Longrightarrow> cache_get k s' = None"
    and "kr_flags (rows s' ! row) AND KF_LINK = 0" "kr_flags (rows s' ! row) AND KF_GROUP = 0" "\<not> is_expired cfg (rows s' ! row)"
  shows "\<exists>r. fst (f_read cfg k copy arg s') = Inr (Value r) \<and>
    (cache_limit cfg \<noteq> 0 \<and> cache_get k s' \<noteq> None \<and> r = Plain (deepcopy p) \<or>
      (\<exists>u. reads_back (cod cfg) (Plain p) u \<and> (r = u \<or> cache_limit cfg \<noteq> 0 \<and> r = jval_copy u))) \<and>
    (no_bytearray p \<and> (\<forall>b. VAL_dumps (cod cfg) p = Inr b \<longrightarrow> VAL_loads (cod cfg) b = Inr p) \<longrightarrow> r = Plain p) \<and>
    (\<forall>k'. k' \<noteq> k \<longrightarrow> value_of s' k' = value_of s k')"
proof -
  have "storable cfg (plain_bytes v)" using assms(5,6) by simp
  from f_write_updates [OF assms(1-3) this assms(8)]
  obtain sl where db': "db_ok s'" and e: "encode_row (cod cfg) (Plain p) = Inr sl" and vo: "value_of s' = (value_of s)(k \<mapsto> slot_content sl)"
    using assms(5) by (auto simp: updates_def)
  have others: "\<forall>k'. k' \<noteq> k \<longrightarrow> value_of s' k' = value_of s k'" using vo by simp
  have same: "deepcopy p = p" if "no_bytearray p" using that by (simp add: deepcopy_preserves_iff)
  from db' assms(9,11-13) show ?thesis
  proof (cases rule: f_read_value [where copy = copy and arg = arg])
    case (cached c)
    then have l: "cache_limit cfg \<noteq> 0" using assms(10) by auto
    then have c: "c = Plain (deepcopy p)" using f_write_caches [OF assms(8)] cached(1) assms(5) by (simp add: caches_def)
    then have "fst (f_read cfg k copy arg s') = Inr (Value (Plain (deepcopy p)))" using cached(2) by auto
    then show ?thesis using l cached(1) same others by auto
  next
    case (row s1 b)
    note qd = quietD [OF row(1)]
    have c: "content s1 (rows s' ! row) = slot_content sl"
      using vo value_of_live [OF assms(9)] qd(8) by simp
    have m: "rows s' ! row \<in> set (rows s1)" using in_rows [OF db' assms(9)] qd(1) by simp
    have "\<not> is_group (Plain p)" by simp
    from row_value_stored [OF db_okD(1) [OF qd(7) [OF db']] m c e assms(6,4) this] assms(7)
    obtain u t where u: "row_value cfg (rows s' ! row) s1 = (Inr u, t)" "reads_back (cod cfg) (Plain p) u" by blast
    have f: "fst (f_read cfg k copy arg s') = Inr (Value (if b then jval_copy u else u))" using row(4) u(1) by simp
    have exact: "u = Plain p" if "\<forall>b. VAL_dumps (cod cfg) p = Inr b \<longrightarrow> VAL_loads (cod cfg) b = Inr p"
      using u(2) that by (auto split: if_splits)
    show ?thesis
    proof (intro exI conjI)
      show "cache_limit cfg \<noteq> 0 \<and> cache_get k s' \<noteq> None \<and> (if b then jval_copy u else u) = Plain (deepcopy p) \<or>
          (\<exists>w. reads_back (cod cfg) (Plain p) w \<and>
            ((if b then jval_copy u else u) = w \<or> cache_limit cfg \<noteq> 0 \<and> (if b then jval_copy u else u) = jval_copy w))"
        using u(2) row(3) by (auto simp del: reads_back.simps)
      show "no_bytearray p \<and> (\<forall>b. VAL_dumps (cod cfg) p = Inr b \<longrightarrow> VAL_loads (cod cfg) b = Inr p) \<longrightarrow>
          (if b then jval_copy u else u) = Plain p"
        using exact same by auto
    qed (use f others in auto)
  qed
qed

lemma demo_written:
  "let t = snd (f_write demo_cfg [97] (Plain (VBool True)) demo_args new_store)
   in rows t = [krow_of [97] (1, 1, 0) 0 20000 (PI 20000) (PI 0) 0] \<and> n_recs t = 1 \<and> vcache t = []"
  by (simp add: f_write_def write_new_def rejected_def demo_cfg_def demo_args_def new_store_def MAX_KEY_SIZE_def MAX_INDEX_SIZE_def
    table_get_both_def ttl_start_def MAX_TTL_DAYS_def day_args_def Let_def new_flags_def
    expire_bit_def count_record_def cache_new_def claim_header_def insert_row_def attach_group_def find_dead_def dead_region_def
    add_line_def write_k_def complete_def write_key_row_def krow_of_def set_key_def next_sync_def)

theorem read_after_write_witness:
  "fst (f_read demo_cfg [97] True FNone (snd (f_write demo_cfg [97] (Plain (VBool True)) demo_args new_store))) =
     Inr (Value (Plain (VBool True)))"
proof -
  define t where "t = snd (f_write demo_cfg [97] (Plain (VBool True)) demo_args new_store)"
  have t: "rows t = [krow_of [97] (1, 1, 0) 0 20000 (PI 20000) (PI 0) 0]" "n_recs t = 1" "vcache t = []"
    using demo_written by (simp_all add: t_def Let_def)
  have w: "f_write demo_cfg [97] (Plain (VBool True)) demo_args new_store = (Inr (Wrote True), t)"
    unfolding t_def by (rule prod_eqI) (simp_all add: demo_write)
  have c: "\<not> zipped (cod demo_cfg)" by (simp add: demo_cfg_def text_codec_def)
  have st: "storable demo_cfg (Plain (VBool True))" by (simp add: storable_def)
  have l: "VAL_loads (cod demo_cfg) b = Inr (VBool True) \<and> b \<noteq> []" if "VAL_dumps (cod demo_cfg) (VBool True) = Inr b" for b
  proof -
    have b': "b = [195]" using that by (simp add: demo_cfg_def text_codec_def JIoVAL_S_dumps_def msg_dumps_enc)
    have "msg_loads [195] = Inr (VBool True)"
      using msg_roundtrip_view [of "VBool True" "[195]" "[]"] by (simp add: msg_dumps_enc)
    with b' show ?thesis by (simp add: demo_cfg_def text_codec_def JIoVAL_S_loads_def numeral_eq_Suc)
  qed
  then have d: "VAL_dumps (cod demo_cfg) (VBool True) = Inr b \<Longrightarrow> b \<noteq> [] \<and> (\<exists>u. VAL_loads (cod demo_cfg) b = Inr u)" for b
    by blast
  have lv: "live t [97] = Some 0" "cache_get [97] t = None" using t by (simp_all add: live_def cache_get_def)
  have x: "kr_flags (rows t ! 0) AND KF_LINK = 0" "kr_flags (rows t ! 0) AND KF_GROUP = 0" "\<not> is_expired demo_cfg (rows t ! 0)"
    using t by (simp_all add: is_expired_def krow_of_def)
  have p: "plain_bytes (Plain (VBool True)) = Plain (VBool True)" by simp
  from read_after_write [OF new_store_ok demo_cfg_ok c p st d w lv x, of True FNone] l show ?thesis
    by (auto simp: t_def)
qed

end
