(* ===== verification/Mem_Files.thy ===== *)
theory Mem_Files
  imports Byte_Stream "HOL-Library.Multiset"
begin

text \<open>
  \<open>omni_json_db/jdb_file.py\<close>, class \<open>JMemFiles\<close>: the storage driver in memory.  The VAL
  files are a table of byte buffers, the groups a registry of object references shared
  by all copies, and the read/write lock seventeen bytes that all copies share: a
  reader count, the writer's object id, its re-entrance count and the remove flag.
  A lock call runs under a mutex, so it is one step on those bytes; where it would wait
  on the condition variable the step says so.
\<close>

section \<open>KEY and VAL files\<close>

record mem_files =
  KEY_file :: bytes
  VAL_table :: "(int \<times> bytes) list"
  name :: string
  group_table :: "(string \<times> nat) list"

text \<open>The constructor's \<open>VAL_table\<close> and what it does to a lock area of another length.\<close>

definition new_mem_files :: "string \<Rightarrow> mem_files" where
  "new_mem_files n = \<lparr>KEY_file = [], VAL_table = [(0, [])], name = n, group_table = []\<rparr>"

definition init_lck :: "bytes \<Rightarrow> bytes" where
  "init_lck b = (if length b \<noteq> 17 then replicate 17 0 else b)"

definition get_KEY :: "mem_files \<Rightarrow> string" where
  "get_KEY f = (if name f = [] then ''<MEM>'' else ''<MEM.'' @ name f @ ''>'')"

definition mem_is_group :: "string \<Rightarrow> bool res" where
  "mem_is_group key_file =
     (if take 5 key_file = ''<MEM.'' then Inr (last key_file = CHR ''>'') else Inr False)"

definition VAL_open :: "int \<Rightarrow> mem_files \<Rightarrow> jbytesio \<times> mem_files" where
  "VAL_open fid f =
     (case map_of (VAL_table f) fid of
        None \<Rightarrow> (new_stream [], f\<lparr>VAL_table := assoc_set fid [] (VAL_table f)\<rparr>)
      | Some b \<Rightarrow> (new_stream b, f))"

text \<open>The stream is a view of the buffer: what it writes is in the table.\<close>

definition VAL_view :: "int \<Rightarrow> jbytesio \<Rightarrow> mem_files \<Rightarrow> mem_files" where
  "VAL_view fid s f = f\<lparr>VAL_table := assoc_set fid (buf s) (VAL_table f)\<rparr>"

definition VAL_remove :: "int \<Rightarrow> mem_files \<Rightarrow> bool \<times> mem_files" where
  "VAL_remove fid f =
     (map_of (VAL_table f) fid \<noteq> None, f\<lparr>VAL_table := assoc_del fid (VAL_table f)\<rparr>)"

definition VAL_exist :: "int \<Rightarrow> mem_files \<Rightarrow> bool" where
  "VAL_exist fid f = (map_of (VAL_table f) fid \<noteq> None)"

definition VAL_size :: "int \<Rightarrow> mem_files \<Rightarrow> int" where
  "VAL_size fid f = (case map_of (VAL_table f) fid of None \<Rightarrow> -1 | Some b \<Rightarrow> int (length b))"

definition KEY_open :: "string \<Rightarrow> mem_files \<Rightarrow> jbytesio res" where
  "KEY_open md f =
     (if KEY_file f = [] \<and> take 1 md = ''r'' then Inl FileNotFoundError
      else Inr (new_stream (KEY_file f)))"

definition KEY_size :: "mem_files \<Rightarrow> nat" where
  "KEY_size f = length (KEY_file f)"

section \<open>Groups\<close>

text \<open>Objects are references; \<open>fresh\<close> is the reference of the object created here.\<close>

definition group_name_ok :: "string \<Rightarrow> bool" where
  "group_name_ok n =
     (n \<noteq> [] \<and> list_all (\<lambda>c. let k = of_char c :: nat in
        (48 \<le> k \<and> k \<le> 57) \<or> (65 \<le> k \<and> k \<le> 90) \<or> (97 \<le> k \<and> k \<le> 122) \<or> k = 95
        \<or> k \<in> {170, 178, 179, 181, 185, 186, 188, 189, 190} \<or> (192 \<le> k \<and> k \<noteq> 215 \<and> k \<noteq> 247))
      (if last n = CHR 0x0A then butlast n else n))"

definition add_group :: "nat \<Rightarrow> string \<Rightarrow> mem_files \<Rightarrow> nat \<times> mem_files" where
  "add_group fresh n f =
     (case map_of (group_table f) n of
        Some g \<Rightarrow> (g, f)
      | None \<Rightarrow> (fresh, f\<lparr>group_table := assoc_set n fresh (group_table f)\<rparr>))"

definition group_full_name :: "string \<Rightarrow> mem_files \<Rightarrow> string" where
  "group_full_name n f = (if name f = [] then n else name f @ ''.'' @ n)"

definition link_group :: "string \<Rightarrow> nat \<Rightarrow> mem_files \<Rightarrow> (nat \<times> mem_files) res" where
  "link_group n g f =
     (if \<not> group_name_ok n then Inl KeyError
      else Inr (g, f\<lparr>group_table := assoc_set n g (group_table f)\<rparr>))"

definition unlink_group :: "string option \<Rightarrow> mem_files \<Rightarrow> bool \<times> mem_files" where
  "unlink_group n f =
     (case n of
        None \<Rightarrow> (group_table f \<noteq> [], f\<lparr>group_table := []\<rparr>)
      | Some n \<Rightarrow> (map_of (group_table f) n \<noteq> None, f\<lparr>group_table := assoc_del n (group_table f)\<rparr>))"

section \<open>The lock bytes\<close>

definition get_field :: "nat \<Rightarrow> nat \<Rightarrow> bytes \<Rightarrow> nat" where
  "get_field i k b = be_val (take k (drop i b))"

definition put_field :: "nat \<Rightarrow> nat \<Rightarrow> nat \<Rightarrow> bytes \<Rightarrow> bytes" where
  "put_field i k n b = take i b @ be_bytes k n @ drop (i + k) b"

abbreviation read_cnt :: "bytes \<Rightarrow> nat" where "read_cnt b \<equiv> get_field 0 4 b"
abbreviation write_id :: "bytes \<Rightarrow> nat" where "write_id b \<equiv> get_field 4 8 b"
abbreviation write_cnt :: "bytes \<Rightarrow> nat" where "write_cnt b \<equiv> get_field 12 4 b"
abbreviation lck_removed :: "bytes \<Rightarrow> bool" where "lck_removed b \<equiv> b ! 16 \<noteq> 0"

text \<open>A lock step is done, waits on the condition variable, or raises.\<close>

datatype 'a step_res = Done 'a | Wait | Raise py_error

definition LCK_rlock :: "nat \<Rightarrow> bool \<Rightarrow> bytes \<Rightarrow> bytes step_res" where
  "LCK_rlock current_id block b =
     (if lck_removed b then Raise RuntimeError
      else if write_id b = 0 \<or> write_id b = current_id then
        (if read_cnt b + 1 < 2 ^ 32 then Done (put_field 0 4 (read_cnt b + 1) b)
         else Raise OverflowError)
      else if \<not> block then Raise BlockingIOError else Wait)"

definition LCK_wlock :: "nat \<Rightarrow> bool \<Rightarrow> bytes \<Rightarrow> bytes step_res" where
  "LCK_wlock current_id block b =
     (if lck_removed b then Raise RuntimeError
      else if write_id b = current_id then
        (if write_cnt b + 1 < 2 ^ 32 then Done (put_field 12 4 (write_cnt b + 1) b)
         else Raise OverflowError)
      else if read_cnt b = 0 \<and> write_id b = 0 then
        Done (put_field 12 4 1 (put_field 4 8 current_id b))
      else if \<not> block then Raise BlockingIOError else Wait)"

definition LCK_unlock :: "nat \<Rightarrow> bytes \<Rightarrow> bytes" where
  "LCK_unlock current_id b =
     (if write_id b = current_id then
        (let n = write_cnt b - 1; b' = put_field 12 4 n b
         in if n = 0 then put_field 4 8 0 b' else b')
      else put_field 0 4 (read_cnt b - 1) b)"

text \<open>\<open>LCK_remove\<close> sets the flag and waits until the counters are zero, then resets.\<close>

definition LCK_remove :: "bytes \<Rightarrow> bytes \<times> bool" where
  "LCK_remove b =
     (let b = b[16 := 1]
      in if list_all (\<lambda>x. x = 0) (take 16 b) then (replicate 17 0, True) else (b, False))"

lemma length_put_field [simp]: "i + k \<le> length b \<Longrightarrow> length (put_field i k n b) = length b"
  by (simp add: put_field_def)

lemma get_put_same [lock_simps]:
  "i + k \<le> length b \<Longrightarrow> n < 256 ^ k \<Longrightarrow> get_field i k (put_field i k n b) = n"
  by (simp add: get_field_def put_field_def)

lemma get_put_other [lock_simps]:
  assumes "i + k \<le> length b" "j + l \<le> i \<or> i + k \<le> j"
  shows "get_field j l (put_field i k n b) = get_field j l b"
proof -
  have "take l (drop j (take i b @ be_bytes k n @ drop (i + k) b)) = take l (drop j b)"
    using assms by (intro nth_equalityI) (auto simp: nth_append)
  then show ?thesis by (simp add: get_field_def put_field_def)
qed

lemma removed_put [lock_simps]: "i + k \<le> 16 \<Longrightarrow> length b = 17 \<Longrightarrow> put_field i k n b ! 16 = b ! 16"
  by (auto simp: put_field_def nth_append)

section \<open>Grants of the shared lock\<close>

text \<open>
  The seventeen bytes record numbers, not holders.  To say what they mean, a ghost
  state carries beside them the multiset of objects that were granted a read lock and
  of those that were granted a write lock; the calls update it when they succeed.
\<close>

record mem_os =
  lck :: bytes
  readers :: "nat multiset"
  writers :: "nat multiset"

definition mem_os_init :: "bytes \<Rightarrow> mem_os" where
  "mem_os_init b = \<lparr>lck = init_lck b, readers = {#}, writers = {#}\<rparr>"

definition mem_rlock :: "nat \<Rightarrow> bool \<Rightarrow> mem_os \<Rightarrow> mem_os step_res" where
  "mem_rlock cid block s =
     (case LCK_rlock cid block (lck s) of
        Done b \<Rightarrow> Done (s\<lparr>lck := b, readers := add_mset cid (readers s)\<rparr>)
      | Wait \<Rightarrow> Wait | Raise e \<Rightarrow> Raise e)"

definition mem_wlock :: "nat \<Rightarrow> bool \<Rightarrow> mem_os \<Rightarrow> mem_os step_res" where
  "mem_wlock cid block s =
     (case LCK_wlock cid block (lck s) of
        Done b \<Rightarrow> Done (s\<lparr>lck := b, writers := add_mset cid (writers s)\<rparr>)
      | Wait \<Rightarrow> Wait | Raise e \<Rightarrow> Raise e)"

definition mem_unlock :: "nat \<Rightarrow> mem_os \<Rightarrow> mem_os" where
  "mem_unlock cid s =
     (if write_id (lck s) = cid
      then s\<lparr>lck := LCK_unlock cid (lck s), writers := writers s - {#cid#}\<rparr>
      else s\<lparr>lck := LCK_unlock cid (lck s), readers := readers s - {#cid#}\<rparr>)"

definition mem_remove :: "mem_os \<Rightarrow> mem_os" where
  "mem_remove s = s\<lparr>lck := fst (LCK_remove (lck s))\<rparr>"

text \<open>Object ids are addresses: positive and at most eight bytes long.\<close>

inductive mem_step :: "nat \<Rightarrow> mem_os \<Rightarrow> mem_os \<Rightarrow> bool" where
  rlock: "0 < cid \<Longrightarrow> cid < 2 ^ 64 \<Longrightarrow> mem_rlock cid block s = Done s' \<Longrightarrow> mem_step cid s s'"
| wlock: "0 < cid \<Longrightarrow> cid < 2 ^ 64 \<Longrightarrow> mem_wlock cid block s = Done s' \<Longrightarrow> mem_step cid s s'"
| unlock: "0 < cid \<Longrightarrow> cid \<in># readers s + writers s \<Longrightarrow> mem_step cid s (mem_unlock cid s)"
| remove: "mem_step cid s (mem_remove s)"

text \<open>A step of any of the objects that share the bytes, and one of the others.\<close>

definition mem_any :: "mem_os \<Rightarrow> mem_os \<Rightarrow> bool" where
  "mem_any s s' \<longleftrightarrow> (\<exists>c. mem_step c s s')"

definition mem_other :: "nat \<Rightarrow> mem_os \<Rightarrow> mem_os \<Rightarrow> bool" where
  "mem_other cid s s' \<longleftrightarrow> (\<exists>c. c \<noteq> cid \<and> mem_step c s s')"

definition mem_inv :: "mem_os \<Rightarrow> bool" where
  "mem_inv s =
     (length (lck s) = 17 \<and> read_cnt (lck s) = size (readers s) \<and>
      write_cnt (lck s) = size (writers s) \<and> (write_id (lck s) = 0 \<longleftrightarrow> writers s = {#}) \<and>
      (\<forall>x\<in>#writers s. x = write_id (lck s)) \<and>
      (writers s \<noteq> {#} \<longrightarrow> (\<forall>x\<in>#readers s. x = write_id (lck s))))"

lemma get_field_less: "length b = 17 \<Longrightarrow> get_field i k b < 256 ^ k"
  unfolding get_field_def
  by (rule order_less_le_trans [OF be_val_bound]) (simp add: power_increasing)

lemma get_field_zero: "list_all (\<lambda>x. x = 0) (take 16 b) \<Longrightarrow> i + k \<le> 16 \<Longrightarrow> get_field i k b = 0"
proof -
  have z: "list_all (\<lambda>x. x = 0) xs \<Longrightarrow> be_val xs = 0" for xs
    by (induction xs rule: rev_induct) auto
  assume a: "list_all (\<lambda>x. x = 0) (take 16 b)" "i + k \<le> 16"
  have "take k (drop i b) = take k (drop i (take 16 b))"
    using a(2) by (simp add: drop_take min_def)
  also have "list_all (\<lambda>x. x = 0) \<dots>"
    using a(1) unfolding list_all_iff by (meson in_set_takeD in_set_dropD)
  finally show ?thesis by (simp add: get_field_def z)
qed

lemma pow_256: "(2::nat) ^ 32 = 256 ^ 4" "(2::nat) ^ 64 = 256 ^ 8" by simp_all

lemma LCK_rlock_Done:
  assumes "LCK_rlock cid block b = Done b'" "length b = 17"
  shows "length b' = 17 \<and> (write_id b = 0 \<or> write_id b = cid) \<and> read_cnt b' = read_cnt b + 1
    \<and> write_id b' = write_id b \<and> write_cnt b' = write_cnt b"
proof -
  from assms have w: "write_id b = 0 \<or> write_id b = cid" and n: "read_cnt b + 1 < 256 ^ 4"
    and b': "b' = put_field 0 4 (read_cnt b + 1) b"
    by (auto simp: LCK_rlock_def pow_256 split: if_splits)
  from assms(2) w n show ?thesis unfolding b' by (simp add: lock_simps)
qed

lemma LCK_wlock_Done:
  assumes "LCK_wlock cid block b = Done b'" "length b = 17" "cid < 256 ^ 8"
  shows "length b' = 17 \<and> read_cnt b' = read_cnt b \<and> write_id b' = cid \<and>
    (if write_id b = cid then write_cnt b' = write_cnt b + 1
     else read_cnt b = 0 \<and> write_id b = 0 \<and> write_cnt b' = 1)"
proof (cases "write_id b = cid")
  case True
  with assms have n: "write_cnt b + 1 < 256 ^ 4" and b': "b' = put_field 12 4 (write_cnt b + 1) b"
    by (auto simp: LCK_wlock_def pow_256 split: if_splits)
  from assms(2) n True show ?thesis unfolding b' by (simp add: lock_simps)
next
  case False
  with assms have n: "read_cnt b = 0 \<and> write_id b = 0"
    and b': "b' = put_field 12 4 1 (put_field 4 8 cid b)"
    by (auto simp: LCK_wlock_def split: if_splits)
  from assms(2,3) n False show ?thesis unfolding b' by (simp add: lock_simps)
qed

lemma LCK_unlock_fields:
  assumes "length b = 17"
  shows "length (LCK_unlock cid b) = 17"
    and "write_id b = cid \<Longrightarrow> read_cnt (LCK_unlock cid b) = read_cnt b"
    and "write_id b = cid \<Longrightarrow> write_cnt (LCK_unlock cid b) = write_cnt b - 1"
    and "write_id b = cid \<Longrightarrow> write_id (LCK_unlock cid b) = (if write_cnt b \<le> 1 then 0 else cid)"
    and "write_id b \<noteq> cid \<Longrightarrow> read_cnt (LCK_unlock cid b) = read_cnt b - 1"
    and "write_id b \<noteq> cid \<Longrightarrow> write_cnt (LCK_unlock cid b) = write_cnt b"
    and "write_id b \<noteq> cid \<Longrightarrow> write_id (LCK_unlock cid b) = write_id b"
proof -
  have a: "write_cnt b - 1 < 256 ^ 4" "read_cnt b - 1 < 256 ^ 4"
    using get_field_less [OF assms, of 12 4] get_field_less [OF assms, of 0 4] by auto
  show "length (LCK_unlock cid b) = 17"
    "write_id b = cid \<Longrightarrow> read_cnt (LCK_unlock cid b) = read_cnt b"
    "write_id b = cid \<Longrightarrow> write_cnt (LCK_unlock cid b) = write_cnt b - 1"
    "write_id b = cid \<Longrightarrow> write_id (LCK_unlock cid b) = (if write_cnt b \<le> 1 then 0 else cid)"
    "write_id b \<noteq> cid \<Longrightarrow> read_cnt (LCK_unlock cid b) = read_cnt b - 1"
    "write_id b \<noteq> cid \<Longrightarrow> write_cnt (LCK_unlock cid b) = write_cnt b"
    "write_id b \<noteq> cid \<Longrightarrow> write_id (LCK_unlock cid b) = write_id b"
    using assms a by (auto simp: LCK_unlock_def Let_def lock_simps)
qed

lemma mem_rlock_inv:
  assumes "mem_inv s" "mem_rlock cid block s = Done s'"
  shows "mem_inv s' \<and> readers s' = add_mset cid (readers s) \<and> writers s' = writers s"
proof -
  obtain b where b: "LCK_rlock cid block (lck s) = Done b"
    and s': "s' = s\<lparr>lck := b, readers := add_mset cid (readers s)\<rparr>"
    using assms(2) by (auto simp: mem_rlock_def split: step_res.splits)
  from assms(1) LCK_rlock_Done [OF b] show ?thesis
    unfolding mem_inv_def s' by auto
qed

lemma mem_wlock_inv:
  assumes "mem_inv s" "mem_wlock cid block s = Done s'" "0 < cid" "cid < 2 ^ 64"
  shows "mem_inv s' \<and> readers s' = readers s \<and> writers s' = add_mset cid (writers s)"
proof -
  obtain b where b: "LCK_wlock cid block (lck s) = Done b"
    and s': "s' = s\<lparr>lck := b, writers := add_mset cid (writers s)\<rparr>"
    using assms(2) by (auto simp: mem_wlock_def split: step_res.splits)
  note d = LCK_wlock_Done [OF b, unfolded pow_256 [symmetric], OF _ assms(4)]
  from assms(1,3) d show ?thesis
    unfolding mem_inv_def s' by (auto split: if_splits)
qed

lemma mem_unlock_inv:
  assumes "mem_inv s" "cid \<in># readers s + writers s" "0 < cid"
  shows "mem_inv (mem_unlock cid s)"
    and "cid \<in># writers s \<Longrightarrow>
      readers (mem_unlock cid s) = readers s \<and> writers (mem_unlock cid s) = writers s - {#cid#}"
    and "cid \<notin># writers s \<Longrightarrow>
      readers (mem_unlock cid s) = readers s - {#cid#} \<and> writers (mem_unlock cid s) = writers s"
proof -
  note i = assms(1) [unfolded mem_inv_def]
  have len: "length (lck s) = 17" using i by simp
  note f = LCK_unlock_fields [OF len, of cid]
  have nw: "write_id (lck s) \<noteq> cid" if "cid \<notin># writers s"
  proof
    assume w: "write_id (lck s) = cid"
    then have "writers s \<noteq> {#}" using i assms(3) by force
    then obtain x where "x \<in># writers s" by (metis multiset_nonemptyE)
    with i w that show False by metis
  qed
  show "mem_inv (mem_unlock cid s)"
  proof (cases "write_id (lck s) = cid \<and> writers s \<noteq> {#}")
    case True
    then have c: "cid \<in># writers s" using i by (metis multiset_nonemptyE)
    then obtain W where W: "writers s = add_mset cid W" by (metis insert_DiffM)
    have "mem_unlock cid s = s\<lparr>lck := LCK_unlock cid (lck s), writers := W\<rparr>"
      using True W by (simp add: mem_unlock_def)
    moreover have "write_id (LCK_unlock cid (lck s)) = (if W = {#} then 0 else cid)"
      "write_cnt (LCK_unlock cid (lck s)) = size W"
      "read_cnt (LCK_unlock cid (lck s)) = size (readers s)"
      using True i f(2-4) W by simp_all
    moreover have "x = cid" if "x \<in># W \<or> x \<in># readers s" for x
      using i c W True that by (metis insert_noteq_member union_iff add_mset_add_single)
    ultimately show ?thesis using i W f(1) c True by (simp add: mem_inv_def)
  next
    case False
    have w: "write_id (lck s) \<noteq> cid" using False i assms(3) by linarith
    then have c: "cid \<in># readers s" using i assms(2) by (metis union_iff)
    then obtain R where R: "readers s = add_mset cid R" by (metis insert_DiffM)
    have "mem_unlock cid s = s\<lparr>lck := LCK_unlock cid (lck s), readers := R\<rparr>"
      using w R by (simp add: mem_unlock_def)
    then show ?thesis using i R f(1,5-7) w by (simp add: mem_inv_def)
  qed
  show "cid \<in># writers s \<Longrightarrow>
      readers (mem_unlock cid s) = readers s \<and> writers (mem_unlock cid s) = writers s - {#cid#}"
    using i by (simp add: mem_unlock_def)
  show "cid \<notin># writers s \<Longrightarrow>
      readers (mem_unlock cid s) = readers s - {#cid#} \<and> writers (mem_unlock cid s) = writers s"
    using nw by (simp add: mem_unlock_def)
qed

lemma mem_remove_inv: "mem_inv s \<Longrightarrow> mem_inv (mem_remove s)
    \<and> readers (mem_remove s) = readers s \<and> writers (mem_remove s) = writers s"
proof -
  assume i: "mem_inv s"
  have f: "get_field j k (b[16 := 1]) = get_field j k b" if "j + k \<le> 16" for j k b
    using that by (simp add: get_field_def drop_update_swap take_update_cancel)
  show ?thesis
  proof (cases "list_all (\<lambda>x. x = 0) (take 16 (lck s))")
    case True
    then have z: "list_all (\<lambda>x. x = 0) (take 16 (replicate 17 (0::byte)))" by (simp add: list_all_iff)
    show ?thesis using i True get_field_zero [OF True] get_field_zero [OF z]
      by (auto simp: mem_inv_def mem_remove_def LCK_remove_def Let_def)
  next
    case False
    then show ?thesis using i f by (auto simp: mem_inv_def mem_remove_def LCK_remove_def Let_def)
  qed
qed

lemma mem_step_inv: "mem_step c s s' \<Longrightarrow> mem_inv s \<Longrightarrow> mem_inv s'"
  by (induction rule: mem_step.induct)
    (auto dest: mem_rlock_inv mem_wlock_inv mem_unlock_inv(1) mem_remove_inv)

text \<open>An object keeps its grants whatever the others do.\<close>

lemma mem_other_keeps:
  assumes "mem_other cid s s'" "mem_inv s"
  shows "mem_inv s' \<and> count (readers s') cid = count (readers s) cid
    \<and> count (writers s') cid = count (writers s) cid"
proof -
  obtain c where c: "c \<noteq> cid" and m: "mem_step c s s'" using assms(1) by (auto simp: mem_other_def)
  from m show ?thesis
  proof cases
    case rlock
    from mem_rlock_inv [OF assms(2) rlock(3)] c show ?thesis by simp
  next
    case wlock
    from mem_wlock_inv [OF assms(2) wlock(3,1,2)] c show ?thesis by simp
  next
    case unlock
    note u = mem_unlock_inv [OF assms(2) unlock(3,2)]
    from u c unlock(1) show ?thesis by (cases "c \<in># writers s") simp_all
  next
    case remove
    from mem_remove_inv [OF assms(2)] remove show ?thesis by simp
  qed
qed

lemma mem_inv_exclusive:
  "mem_inv s \<Longrightarrow> c \<in># writers s \<Longrightarrow> d \<in># readers s + writers s \<Longrightarrow> d = c"
  unfolding mem_inv_def by (metis union_iff empty_iff set_mset_empty)

lemma mem_inv_init: "mem_inv (mem_os_init b)"
  if "length b \<noteq> 17 \<or> list_all (\<lambda>x. x = 0) (take 16 b)"
proof -
  have z: "list_all (\<lambda>x. x = 0) (take 16 (init_lck b))" "length (init_lck b) = 17"
    using that by (auto simp: init_lck_def list_all_iff)
  show ?thesis using z(2) get_field_zero [OF z(1)] by (simp add: mem_inv_def mem_os_init_def)
qed

lemma mem_reach_inv: "mem_any\<^sup>*\<^sup>* s s' \<Longrightarrow> mem_inv s \<Longrightarrow> mem_inv s'"
  by (induction rule: rtranclp_induct) (auto simp: mem_any_def intro: mem_step_inv)

text \<open>
  C32: Whatever locks the copies of a \<open>JMemFiles\<close> object take and release, in any order
  and interleaving, an object that was granted the write lock is the only one that holds
  anything: every other grant, for reading or writing, is its own.  The counters in the
  seventeen bytes are the numbers of grants, so nothing is held exactly when they are
  zero.
\<close>

theorem mem_lock_exclusion:
  assumes "mem_any\<^sup>*\<^sup>* (mem_os_init []) s"
  shows "(c \<in># writers s \<longrightarrow> d \<in># readers s + writers s \<longrightarrow> d = c)
    \<and> read_cnt (lck s) = size (readers s) \<and> write_cnt (lck s) = size (writers s)
    \<and> (write_id (lck s) = 0 \<longleftrightarrow> writers s = {#})"
proof -
  have i: "mem_inv s" by (rule mem_reach_inv [OF assms mem_inv_init]) simp
  show ?thesis using mem_inv_exclusive [OF i] i [unfolded mem_inv_def] by blast
qed

theorem mem_lock_exclusion_witness:
  "\<exists>s. mem_any\<^sup>*\<^sup>* (mem_os_init []) s \<and> writers s = {#7, 7#} \<and> read_cnt (lck s) = 0
     \<and> write_cnt (lck s) = 2 \<and> write_id (lck s) \<noteq> 0"
proof -
  define b1 b2 :: bytes where "b1 = put_field 12 4 1 (put_field 4 8 7 (replicate 17 0))"
    and "b2 = put_field 12 4 2 b1"
  define s1 s2 where "s1 = \<lparr>lck = b1, readers = {#}, writers = {#7::nat#}\<rparr>"
    and "s2 = \<lparr>lck = b2, readers = {#}, writers = {#7::nat, 7#}\<rparr>"
  have f: "write_id (replicate 17 0) = 0" "read_cnt (replicate 17 0) = 0"
    "\<not> lck_removed (replicate 17 0)"
    by (rule get_field_zero, simp add: list_all_iff, simp)+ (simp add: nth_replicate)
  have "mem_wlock 7 False (mem_os_init []) = Done s1"
    using f by (simp add: mem_wlock_def LCK_wlock_def mem_os_init_def init_lck_def s1_def b1_def)
  moreover have "write_id b1 = 7" "write_cnt b1 = 1" "b1 ! 16 = 0" "length b1 = 17"
    by (simp_all add: b1_def lock_simps)
  then have "mem_wlock 7 False s1 = Done s2"
    by (simp add: mem_wlock_def LCK_wlock_def s1_def s2_def b2_def flip: numeral_2_eq_2)
  ultimately have "mem_any (mem_os_init []) s1" "mem_any s1 s2"
    using mem_step.wlock [of 7 False] unfolding mem_any_def by auto
  then have "mem_any\<^sup>*\<^sup>* (mem_os_init []) s2" by (simp add: converse_rtranclp_into_rtranclp)
  then show ?thesis using mem_lock_exclusion [of s2 7 7] by (auto simp: s2_def)
qed

end
