(* ===== verification/File_Lock.thy ===== *)
theory File_Lock
  imports Mem_Files
begin

text \<open>
  \<open>omni_json_db/utils.py\<close>, classes \<open>INT_Handler\<close> and \<open>FileLock\<close>: the lock of a
  database object.  A \<open>FileLock\<close> joins the threads of a process on one lock of the
  storage driver, which is given to it as callables; so the operations here take those
  as a record, and \<open>os_lock\<close> is the contract they rely on.  Everything between taking
  and dropping the internal mutex is one step.  The dictionary of re-entrance counts is
  an association list from thread identifiers to counts.  Two tests of the code are not here
  because the mutex decides them: an \<open>OSError\<close> of unlocking is only printed, since the mode,
  just read as \<open>r\<close>, cannot have become \<open>x\<close> (\<open>__del__\<close> runs when no thread uses the lock); for the
  same reason the mode is still \<open>p\<close> when it is read once more before the blocking call.
\<close>

section \<open>Deferred interrupts\<close>

record int_handler =
  int_count :: nat
  call_flag :: bool

definition INT_disable :: "int_handler \<Rightarrow> int_handler" where
  "INT_disable h =
     (let n = int_count h; h = h\<lparr>int_count := n + 1\<rparr>
      in if n = 0 then h\<lparr>call_flag := False\<rparr> else h)"

definition INT_enable :: "int_handler \<Rightarrow> int_handler" where
  "INT_enable h =
     (let n = int_count h - 1; h = h\<lparr>int_count := n\<rparr>
      in if n = 0 then h\<lparr>call_flag := False\<rparr> else h)"

definition INT_reset :: "int_handler \<Rightarrow> int_handler" where
  "INT_reset h = h\<lparr>int_count := 0, call_flag := False\<rparr>"

definition INT_is_called :: "int_handler \<Rightarrow> bool" where
  "INT_is_called h = (if call_flag h then int_count h > 0 \<and> call_flag h else False)"

text \<open>The signal handler; the Boolean says that \<open>KeyboardInterrupt\<close> is raised.\<close>

definition INT_handler :: "int_handler \<Rightarrow> bool \<times> int_handler" where
  "INT_handler h =
     (if int_count h = 0 then (True, h\<lparr>call_flag := False\<rparr>)
      else (False, h\<lparr>call_flag := True\<rparr>))"

section \<open>The lock\<close>

text \<open>The modes \<open>''\<close>, \<open>r\<close>, \<open>w\<close>, \<open>p\<close> and \<open>x\<close>.\<close>

datatype lmode = Free | Reading | Writing | Pending | Closed

text \<open>The callables a \<open>FileLock\<close> is built from; an error of unlocking is only printed.\<close>

record 's os_calls =
  os_rlock :: "bool \<Rightarrow> 's \<Rightarrow> 's step_res"
  os_wlock :: "bool \<Rightarrow> 's \<Rightarrow> 's step_res"
  os_unlock :: "'s \<Rightarrow> 's"

record 's flock =
  fmode :: lmode
  idents :: "(nat \<times> nat) list"
  sigint :: int_handler
  fos :: 's

definition new_flock :: "int_handler \<Rightarrow> 's \<Rightarrow> 's flock" where
  "new_flock h s = \<lparr>fmode = Free, idents = [], sigint = h, fos = s\<rparr>"

definition is_locked :: "'s flock \<Rightarrow> bool" where
  "is_locked f = (fmode f = Reading \<or> fmode f = Writing)"

definition get_count :: "nat \<Rightarrow> 's flock \<Rightarrow> nat" where
  "get_count t f = (case map_of (idents f) t of None \<Rightarrow> 0 | Some n \<Rightarrow> n)"

abbreviation holds :: "nat \<Rightarrow> 's flock \<Rightarrow> bool" where
  "holds t f \<equiv> map_of (idents f) t \<noteq> None"

text \<open>\<open>_idents[ident] += 1\<close> on a \<open>defaultdict(int)\<close>.\<close>

definition bump :: "nat \<Rightarrow> 's flock \<Rightarrow> 's flock" where
  "bump t f = f\<lparr>idents := assoc_set t (get_count t f + 1) (idents f)\<rparr>"

text \<open>
  How one round of \<open>acquire\<close> ends: it returns, raises, waits on the condition
  variable, drops the mutex for a blocking call of the driver, or starts over.
\<close>

datatype acq = Acquired | Raised py_error | CondWait | OsWait | Again

text \<open>The driver called with \<open>block=False\<close>; a driver that would wait anyway has not got it.\<close>

definition os_try :: "'s step_res \<Rightarrow> 's res" where
  "os_try r = (case r of Done s \<Rightarrow> Inr s | Wait \<Rightarrow> Inl BlockingIOError | Raise e \<Rightarrow> Inl e)"

definition wait_or_raise :: "bool \<Rightarrow> 's flock \<Rightarrow> acq \<times> bool \<times> 's flock" where
  "wait_or_raise block f =
     (if block then (CondWait, False, f) else (Raised FileLockException, False, f))"

definition granted :: "nat \<Rightarrow> bool \<Rightarrow> 's flock \<Rightarrow> 's flock" where
  "granted t ro f =
     bump t (if ro then f\<lparr>fmode := Reading\<rparr>
             else f\<lparr>fmode := Writing, sigint := INT_disable (sigint f)\<rparr>)"

definition process_level ::
  "'s os_calls \<Rightarrow> nat \<Rightarrow> bool \<Rightarrow> bool \<Rightarrow> 's flock \<Rightarrow> acq \<times> bool \<times> 's flock" where
  "process_level os t block ro f =
     (case os_try (if ro then os_rlock os False (fos f) else os_wlock os False (fos f)) of
        Inr s \<Rightarrow> (Acquired, ro, granted t ro (f\<lparr>fos := s\<rparr>))
      | Inl e \<Rightarrow>
          if e = BlockingIOError \<or> e = FileLockException then
            (if \<not> block then
               (Raised FileLockException, False, if holds t f then f\<lparr>fmode := Reading\<rparr> else f)
             else (OsWait, False, f\<lparr>fmode := Pending\<rparr>))
          else (Raised e, False, f))"

text \<open>
  One round of the loop of \<open>acquire\<close>.  The second component says that all waiting
  threads were notified.
\<close>

definition acquire_round ::
  "'s os_calls \<Rightarrow> nat \<Rightarrow> bool \<Rightarrow> bool \<Rightarrow> bool \<Rightarrow> 's flock \<Rightarrow> acq \<times> bool \<times> 's flock" where
  "acquire_round os t block ro switch f =
     (if fmode f = Closed then (Raised FileLockException, False, f)
      else if fmode f = Reading \<and> ro \<and> idents f \<noteq> [] then (Acquired, False, bump t f)
      else if fmode f = Writing \<and> holds t f then (Acquired, False, bump t f)
      else if fmode f = Reading \<and> holds t f then
        (let n = get_count t f
         in if n \<le> 1 then
              (let f1 = f\<lparr>idents := assoc_del t (idents f)\<rparr>
               in if idents f1 = [] then
                    (let f2 = f1\<lparr>fos := os_unlock os (fos f1), fmode := Free\<rparr>
                     in if \<not> switch then (Again, True, f2\<lparr>idents := assoc_set t n (idents f2)\<rparr>)
                        else process_level os t block ro f2)
                  else wait_or_raise block
                         (if \<not> switch \<and> n > 0 then f1\<lparr>idents := assoc_set t n (idents f1)\<rparr> else f1))
            else if switch then
              (let f1 = f\<lparr>idents := assoc_set t (n - 1) (idents f)\<rparr>
               in if n > 1 \<and> length (idents f1) = 1
                  then process_level os t block ro (f1\<lparr>fos := os_unlock os (fos f1), fmode := Free\<rparr>)
                  else wait_or_raise block f1)
            else wait_or_raise block f)
      else if fmode f \<noteq> Free then wait_or_raise block f
      else process_level os t block ro f)"

text \<open>The loop itself, for at most \<open>k\<close> rounds.\<close>

fun acquire_loop ::
  "nat \<Rightarrow> 's os_calls \<Rightarrow> nat \<Rightarrow> bool \<Rightarrow> bool \<Rightarrow> bool \<Rightarrow> 's flock \<Rightarrow> (acq \<times> bool \<times> 's flock) option" where
  "acquire_loop 0 os t block ro switch f = None"
| "acquire_loop (Suc k) os t block ro switch f =
     (case acquire_round os t block ro switch f of
        (Again, n, f') \<Rightarrow> map_option (\<lambda>(a, m, f''). (a, n \<or> m, f''))
                            (acquire_loop k os t block ro switch f')
      | r \<Rightarrow> Some r)"

text \<open>What \<open>acquire\<close> does once the blocking call has returned and the mutex is held again.\<close>

definition acquire_resume ::
  "'s os_calls \<Rightarrow> nat \<Rightarrow> bool \<Rightarrow> bool \<Rightarrow> 's flock \<Rightarrow> acq \<times> bool \<times> 's flock" where
  "acquire_resume os t ro got f =
     (let f1 = (if fmode f = Pending then f\<lparr>fmode := Free\<rparr> else f)
      in if fmode f1 = Closed then
           (Raised FileLockException, True,
            if got then f1\<lparr>fos := os_unlock os (fos f1)\<rparr> else f1)
         else if \<not> got then (Raised FileLockException, True, f1)
         else (Acquired, True, granted t ro f1))"

definition release_lock :: "'s os_calls \<Rightarrow> nat \<Rightarrow> 's flock \<Rightarrow> bool \<times> 's flock" where
  "release_lock os t f =
     (if holds t f then
        (let f1 = (if get_count t f \<le> 1 then f\<lparr>idents := assoc_del t (idents f)\<rparr>
                   else f\<lparr>idents := assoc_set t (get_count t f - 1) (idents f)\<rparr>)
         in if idents f1 = [] then
              (let f2 = (if fmode f1 = Writing then f1\<lparr>sigint := INT_enable (sigint f1)\<rparr> else f1)
               in (True, f2\<lparr>fos := os_unlock os (fos f2), fmode := Free\<rparr>))
            else (False, f1))
      else (False, f))"

text \<open>The clean-up of a lock that is collected; \<open>None\<close> while a thread still holds it.\<close>

definition del_lock :: "'s flock \<Rightarrow> 's flock option" where
  "del_lock f =
     (if idents f \<noteq> [] then None
      else Some (f\<lparr>sigint := (if fmode f = Writing then INT_enable (sigint f) else sigint f),
                   fmode := Closed, idents := []\<rparr>))"

definition has_SIGINT :: "'s flock \<Rightarrow> bool" where
  "has_SIGINT f = INT_is_called (sigint f)"

text \<open>\<open>can_lock\<close>: its \<open>finally\<close> releases in both cases.\<close>

definition can_lock :: "'s os_calls \<Rightarrow> nat \<Rightarrow> 's flock \<Rightarrow> (bool res \<times> 's flock) option" where
  "can_lock os t f =
     (case acquire_loop 2 os t False False False f of
        None \<Rightarrow> None
      | Some (a, n, f') \<Rightarrow>
          Some (case a of Acquired \<Rightarrow> Inr True
                | Raised e \<Rightarrow> if e = FileLockException then Inr False else Inl e
                | _ \<Rightarrow> Inr False,
                snd (release_lock os t f')))"

section \<open>The loop of acquire ends\<close>

lemma get_count_bump [simp]:
  "get_count u (bump t f) = (if u = t then get_count t f + 1 else get_count u f)"
  by (simp add: bump_def get_count_def)

lemma bump_simps [simp]:
  "fmode (bump t f) = fmode f" "sigint (bump t f) = sigint f" "fos (bump t f) = fos f"
  "idents (bump t f) = assoc_set t (get_count t f + 1) (idents f)"
  by (simp_all add: bump_def)

lemma acquire_round_Free:
  "fmode f = Free \<Longrightarrow> acquire_round os t block ro sw f = process_level os t block ro f"
  by (simp add: acquire_round_def)

lemma process_level_not_Again: "fst (process_level os t block ro f) \<noteq> Again"
  by (auto simp: process_level_def split: sum.splits)

lemma not_Again [simp]:
  "process_level os t block ro f \<noteq> (Again, n, f')" "wait_or_raise block f \<noteq> (Again, n, f')"
  using process_level_not_Again [of os t block ro f] by (auto simp: wait_or_raise_def)

lemma acquire_round_Again:
  assumes "acquire_round os t block ro sw f = (Again, n, f')"
  shows "n \<and> fmode f = Reading \<and> \<not> ro \<and> \<not> sw \<and> holds t f \<and> assoc_del t (idents f) = [] \<and>
    get_count t f \<le> 1 \<and>
    f' = f\<lparr>idents := [(t, get_count t f)], fos := os_unlock os (fos f), fmode := Free\<rparr>"
  using assms by (auto simp: acquire_round_def Let_def split: if_splits)

lemma acquire_loop_two:
  "\<exists>a n f'. acquire_loop (Suc (Suc k)) os t block ro sw f = Some (a, n, f') \<and> a \<noteq> Again"
proof -
  obtain a n f1 where r: "acquire_round os t block ro sw f = (a, n, f1)" by (cases "acquire_round os t block ro sw f")
  show ?thesis
  proof (cases "a = Again")
    case True
    with acquire_round_Again r have "fmode f1 = Free" by fastforce
    then have "acquire_round os t block ro sw f1 = process_level os t block ro f1"
      by (rule acquire_round_Free)
    with process_level_not_Again [of os t block ro f1] r True show ?thesis
      by (cases "process_level os t block ro f1"; cases "fst (process_level os t block ro f1)") auto
  next
    case False
    with r show ?thesis by (cases a) auto
  qed
qed

section \<open>What the lock promises\<close>

text \<open>
  The system is a lock and the thread, if any, that has dropped the mutex for a blocking
  call: who it is, whether it wants to read, and whether the driver has granted it.  The
  calling convention is the one of the context managers: only a thread that holds the
  lock releases it, and a thread does not use the lock while it is inside \<open>acquire\<close>.
\<close>

type_synonym 's lsys = "'s flock \<times> (nat \<times> bool \<times> bool) option"

text \<open>
  An upgrade is clean unless it raises after it has given up the lock of the driver but
  is still registered as a reader.  The steps below leave out the unclean upgrades, and the
  blocking call of the driver that raises while its thread is still registered: in both cases
  the lock counts a thread for which the driver holds nothing (\<open>failed_upgrade_loses_lock\<close>).
\<close>

definition unclean_upgrade :: "nat \<Rightarrow> bool \<Rightarrow> acq \<Rightarrow> 's flock \<Rightarrow> 's flock \<Rightarrow> bool" where
  "unclean_upgrade t ro a f f' =
     ((case a of Raised e \<Rightarrow> True | _ \<Rightarrow> False) \<and> fmode f = Reading \<and> \<not> ro
      \<and> assoc_del t (idents f) = [] \<and> holds t f')"

inductive lock_step :: "'s os_calls \<Rightarrow> ('s \<Rightarrow> 's \<Rightarrow> bool) \<Rightarrow> 's lsys \<Rightarrow> 's lsys \<Rightarrow> bool"
  for os env where
  acquire: "acquire_loop 2 os t block ro sw f = Some (a, n, f') \<Longrightarrow> a \<noteq> OsWait \<Longrightarrow>
    \<not> unclean_upgrade t ro a f f' \<Longrightarrow> lock_step os env (f, p) (f', p)"
| os_wait: "acquire_loop 2 os t block ro sw f = Some (OsWait, n, f') \<Longrightarrow>
    lock_step os env (f, p) (f', Some (t, ro, False))"
| os_grant: "(if ro then os_rlock os True (fos f) else os_wlock os True (fos f)) = Done s \<Longrightarrow>
    lock_step os env (f, Some (t, ro, False)) (f\<lparr>fos := s\<rparr>, Some (t, ro, True))"
| resume: "acquire_resume os t ro True f = (a, n, f') \<Longrightarrow>
    lock_step os env (f, Some (t, ro, True)) (f', None)"
| os_fail: "acquire_resume os t ro False f = (a, n, f') \<Longrightarrow> \<not> holds t f \<Longrightarrow>
    lock_step os env (f, Some (t, ro, False)) (f', None)"
| release: "\<not> (\<exists>ro g. p = Some (t, ro, g)) \<Longrightarrow>
    lock_step os env (f, p) (snd (release_lock os t f), p)"
| del: "del_lock f = Some f' \<Longrightarrow> lock_step os env (f, None) (f', None)"
| signal: "lock_step os env (f, p) (f\<lparr>sigint := snd (INT_handler (sigint f))\<rparr>, p)"
| others: "env (fos f) s \<Longrightarrow> lock_step os env (f, p) (f\<lparr>fos := s\<rparr>, p)"

text \<open>What each mode says of the registered threads, the pending one and the driver.\<close>

fun mode_ok :: "lmode \<Rightarrow> (nat \<times> nat) list \<Rightarrow> (nat \<times> bool \<times> bool) option \<Rightarrow> nat \<Rightarrow> nat \<Rightarrow> bool" where
  "mode_ok Free ids p r w = (ids = [] \<and> p = None \<and> r = 0 \<and> w = 0)"
| "mode_ok Reading ids p r w = (ids \<noteq> [] \<and> p = None \<and> r = 1 \<and> w = 0)"
| "mode_ok Writing ids p r w = (length ids = 1 \<and> p = None \<and> r = 0 \<and> w = 1)"
| "mode_ok Pending ids None r w = False"
| "mode_ok Pending ids (Some (t, ro, g)) r w =
     ((ids = [] \<or> map fst ids = [t]) \<and> r = of_bool (g \<and> ro) \<and> w = of_bool (g \<and> \<not> ro))"
| "mode_ok Closed ids p r w = (ids = [] \<and> p = None \<and> r = 0 \<and> w = 0)"

definition lock_inv ::
  "('s \<Rightarrow> bool) \<Rightarrow> ('s \<Rightarrow> nat) \<Rightarrow> ('s \<Rightarrow> nat) \<Rightarrow> nat \<Rightarrow> 's lsys \<Rightarrow> bool" where
  "lock_inv oi rd wr base = (\<lambda>(f, p).
     distinct (map fst (idents f)) \<and> (\<forall>x \<in> set (idents f). 0 < snd x) \<and> oi (fos f) \<and>
     mode_ok (fmode f) (idents f) p (rd (fos f)) (wr (fos f)) \<and>
     int_count (sigint f) = base + of_bool (fmode f = Writing))"

text \<open>
  The contract of the driver: it keeps its own invariant, it counts the grants of this
  object, and the other objects that share it do not take them away.
\<close>

locale os_lock =
  fixes os :: "'s os_calls" and env :: "'s \<Rightarrow> 's \<Rightarrow> bool"
    and oi :: "'s \<Rightarrow> bool" and rd :: "'s \<Rightarrow> nat" and wr :: "'s \<Rightarrow> nat"
  assumes rlock_law: "oi s \<Longrightarrow> os_rlock os b s = Done s' \<Longrightarrow>
      oi s' \<and> rd s' = rd s + 1 \<and> wr s' = wr s"
    and wlock_law: "oi s \<Longrightarrow> os_wlock os b s = Done s' \<Longrightarrow>
      oi s' \<and> rd s' = rd s \<and> wr s' = wr s + 1"
    and unlock_read: "oi s \<Longrightarrow> wr s = 0 \<Longrightarrow> 0 < rd s \<Longrightarrow>
      oi (os_unlock os s) \<and> rd (os_unlock os s) = rd s - 1 \<and> wr (os_unlock os s) = 0"
    and unlock_write: "oi s \<Longrightarrow> 0 < wr s \<Longrightarrow>
      oi (os_unlock os s) \<and> rd (os_unlock os s) = rd s \<and> wr (os_unlock os s) = wr s - 1"
    and env_law: "oi s \<Longrightarrow> env s s' \<Longrightarrow> oi s' \<and> rd s' = rd s \<and> wr s' = wr s"
begin

lemma os_try_cases:
  assumes "os_try (if ro then os_rlock os b s else os_wlock os b s) = Inr s'" "oi s"
  shows "oi s' \<and> rd s' = rd s + of_bool ro \<and> wr s' = wr s + of_bool (\<not> ro)"
  using assms rlock_law [of s b s'] wlock_law [of s b s']
  by (cases ro) (auto simp: os_try_def split: step_res.splits)

lemma granted_inv:
  assumes "oi (fos f)" "idents f = [] \<or> map fst (idents f) = [t]" "int_count (sigint f) = base"
    and "rd (fos f) = of_bool ro" "wr (fos f) = of_bool (\<not> ro)"
    and "\<forall>x \<in> set (idents f). 0 < snd x"
  shows "lock_inv oi rd wr base (granted t ro f, None)"
proof -
  have k: "map fst (assoc_set t n (idents f)) = [t]" for n
    using assms(2) by (auto simp: keys_assoc_set)
  then have l: "length (assoc_set t n (idents f)) = 1" for n
    by (metis length_map One_nat_def length_Cons list.size(3))
  have "\<forall>x \<in> set (assoc_set t (Suc n) (idents f)). 0 < snd x" for n
    by (rule pos_assoc(1) [OF assms(6)]) simp
  with k l assms show ?thesis
    by (cases ro) (auto simp: lock_inv_def granted_def INT_disable_def Let_def get_count_def)
qed

lemma process_level_inv:
  assumes r: "process_level os t block ro f = (a, n, f')"
    and f: "fmode f = Free" "oi (fos f)" "rd (fos f) = 0" "wr (fos f) = 0"
      "idents f = [] \<or> map fst (idents f) = [t]" "\<forall>x \<in> set (idents f). 0 < snd x"
      "int_count (sigint f) = base"
  shows "(case a of Acquired \<Rightarrow> lock_inv oi rd wr base (f', None)
    | OsWait \<Rightarrow> lock_inv oi rd wr base (f', Some (t, ro, False))
    | Raised e \<Rightarrow> holds t f' \<or> lock_inv oi rd wr base (f', None)
    | _ \<Rightarrow> False)"
proof (cases "os_try (if ro then os_rlock os False (fos f) else os_wlock os False (fos f))")
  case (Inr s)
  from os_try_cases [OF Inr f(2)] f have "lock_inv oi rd wr base (granted t ro (f\<lparr>fos := s\<rparr>), None)"
    by (intro granted_inv) auto
  with r Inr show ?thesis by (auto simp: process_level_def)
next
  case (Inl e)
  have "idents f \<noteq> [] \<Longrightarrow> holds t f" using f(5) by (auto simp: holds_iff)
  with r Inl f show ?thesis
    by (auto simp: process_level_def lock_inv_def split: if_splits)
qed

lemma bump_inv:
  assumes "lock_inv oi rd wr base (f, p)"
    and "fmode f = Reading \<or> fmode f = Writing \<and> holds t f"
  shows "lock_inv oi rd wr base (bump t f, p)"
proof -
  have k: "t \<in> fst ` set (idents f)" if "fmode f = Writing"
    using assms(2) that holds_iff [of "idents f" t] by simp
  have "\<forall>x \<in> set (assoc_set t (Suc n) (idents f)). 0 < snd x" for n
    by (rule pos_assoc(1)) (use assms(1) in \<open>auto simp: lock_inv_def\<close>)
  with assms k show ?thesis
    by (auto simp: lock_inv_def distinct_assoc length_assoc_set)
qed

text \<open>One round keeps the invariant unless it starts over or is an unclean upgrade.\<close>

definition round_ok :: "nat \<Rightarrow> nat \<Rightarrow> bool \<Rightarrow> 's flock \<Rightarrow> (nat \<times> bool \<times> bool) option
    \<Rightarrow> acq \<Rightarrow> 's flock \<Rightarrow> bool" where
  "round_ok base t ro f p a f' =
     (case a of
        Again \<Rightarrow> p = None \<and> fmode f' = Free \<and> oi (fos f') \<and> rd (fos f') = 0 \<and> wr (fos f') = 0 \<and>
          map fst (idents f') = [t] \<and> (\<forall>x \<in> set (idents f'). 0 < snd x) \<and>
          int_count (sigint f') = base \<and> fmode f = Reading \<and> \<not> ro \<and> assoc_del t (idents f) = []
      | OsWait \<Rightarrow> lock_inv oi rd wr base (f', Some (t, ro, False))
      | Raised e \<Rightarrow> unclean_upgrade t ro a f f' \<or> lock_inv oi rd wr base (f', p)
      | _ \<Rightarrow> lock_inv oi rd wr base (f', p))"

lemma wait_round_ok:
  "wait_or_raise block g = (a, n, f') \<Longrightarrow> lock_inv oi rd wr base (g, p) \<Longrightarrow>
   round_ok base t ro f p a f'"
  by (auto simp: wait_or_raise_def round_ok_def split: if_splits)

lemma process_round_ok:
  assumes "process_level os t block ro g = (a, n, f')"
    and "fmode g = Free" "oi (fos g)" "rd (fos g) = 0" "wr (fos g) = 0"
      "idents g = [] \<or> map fst (idents g) = [t]" "\<forall>x \<in> set (idents g). 0 < snd x"
      "int_count (sigint g) = base" "p = None"
    and "idents g \<noteq> [] \<Longrightarrow> fmode f = Reading \<and> \<not> ro \<and> assoc_del t (idents f) = []"
  shows "round_ok base t ro f p a f'"
proof -
  have "holds t f' \<Longrightarrow> a = Raised e \<Longrightarrow> idents g \<noteq> []" for e
    using assms(1) by (auto simp: process_level_def split: sum.splits if_splits)
  with process_level_inv [OF assms(1-8)] assms(9,10) show ?thesis
    by (auto simp: round_ok_def unclean_upgrade_def split: acq.splits)
qed

lemma upgrade_unlock:
  assumes "lock_inv oi rd wr base (f, p)" "fmode f = Reading"
  shows "p = None" "oi (os_unlock os (fos f))" "rd (os_unlock os (fos f)) = 0"
    "wr (os_unlock os (fos f)) = 0" "int_count (sigint f) = base"
  using assms unlock_read [of "fos f"] by (auto simp: lock_inv_def)

lemma acquire_round_inv:
  assumes r: "acquire_round os t block ro sw f = (a, n, f')" and i: "lock_inv oi rd wr base (f, p)"
  shows "round_ok base t ro f p a f'"
proof -
  note i' = i [unfolded lock_inv_def, simplified]
  then have i1: "distinct (map fst (idents f))" and i2: "\<forall>x \<in> set (idents f). 0 < snd x" by blast+
  consider (closed) "fmode f = Closed"
    | (bump) "fmode f = Reading \<and> ro \<and> idents f \<noteq> [] \<or> fmode f = Writing \<and> holds t f"
    | (up) "fmode f = Reading" "holds t f" "\<not> ro"
    | (other) "fmode f \<notin> {Closed, Free}" "\<not> (fmode f = Writing \<and> holds t f)"
        "\<not> (fmode f = Reading \<and> (holds t f \<or> ro))"
    | (free) "fmode f = Free"
    using i' by fastforce
  then show ?thesis
  proof cases
    case closed
    with r i show ?thesis by (auto simp: acquire_round_def round_ok_def)
  next
    case bump
    then have "a = Acquired \<and> f' = bump t f" using r by (auto simp: acquire_round_def)
    with bump_inv [OF i, of t] bump show ?thesis by (auto simp: round_ok_def)
  next
    case other
    then have "wait_or_raise block f = (a, n, f')" using r by (auto simp: acquire_round_def)
    then show ?thesis using i by (rule wait_round_ok)
  next
    case free
    with r have "process_level os t block ro f = (a, n, f')" by (simp add: acquire_round_Free)
    then show ?thesis by (rule process_round_ok) (use free i' in auto)
  next
    case up
    then have k: "t \<in> fst ` set (idents f)" using holds_iff by metis
    have pos: "0 < get_count t f" using up i' by (auto simp: get_count_def dest!: map_of_SomeD)
    note u = upgrade_unlock [OF i up(1)]
    have up_set: "lock_inv oi rd wr base (f\<lparr>idents := al\<rparr>, p)"
      if "distinct (map fst al)" "\<forall>x \<in> set al. 0 < snd x" "al \<noteq> []" for al
      using i' up that by (auto simp: lock_inv_def)
    define n1 where "n1 = get_count t f"
    show ?thesis
    proof (cases "n1 \<le> 1")
      case True
      with pos have one: "n1 = 1" by (simp add: n1_def)
      show ?thesis
      proof (cases "assoc_del t (idents f) = []")
        case last: True
        show ?thesis
        proof (cases sw)
          case True
          with r up last one have "process_level os t block ro
              (f\<lparr>idents := [], fos := os_unlock os (fos f), fmode := Free\<rparr>) = (a, n, f')"
            by (auto simp: acquire_round_def n1_def Let_def)
          then show ?thesis by (rule process_round_ok) (use u in simp_all)
        next
          case False
          with r up last one have "a = Again" "f' = f\<lparr>idents := [(t, 1)],
              fos := os_unlock os (fos f), fmode := Free\<rparr>"
            by (auto simp: acquire_round_def n1_def Let_def)
          with u up last show ?thesis by (simp add: round_ok_def)
        qed
      next
        case False
        let ?al = "if \<not> sw then assoc_set t 1 (assoc_del t (idents f)) else assoc_del t (idents f)"
        have p1: "\<forall>x \<in> set (assoc_del t (idents f)). 0 < snd x" by (rule pos_assoc(2) [OF i2])
        have p2: "\<forall>x \<in> set ?al. 0 < snd x"
          using pos_assoc(1) [OF p1, of 1 t] p1 by simp
        have d: "distinct (map fst ?al)" using i1 by (simp add: distinct_assoc)
        have "lock_inv oi rd wr base (f\<lparr>idents := ?al\<rparr>, p)"
          using d p2 False by (intro up_set) simp_all
        moreover have "acquire_round os t block ro sw f = wait_or_raise block (f\<lparr>idents := ?al\<rparr>)"
          using up one False unfolding n1_def by (simp add: acquire_round_def)
        then have "wait_or_raise block (f\<lparr>idents := ?al\<rparr>) = (a, n, f')" using r by (rule subst)
        ultimately show ?thesis by (metis wait_round_ok)
      qed
    next
      case False
      show ?thesis
      proof (cases sw)
        case sw: True
        let ?al = "assoc_set t (n1 - 1) (idents f)"
        have al: "\<forall>x \<in> set ?al. 0 < snd x" by (rule pos_assoc(1) [OF i2]) (use False in simp)
        show ?thesis
        proof (cases "length ?al = 1")
          case True
          then have ids: "map fst (idents f) = [t]" using k
            by (cases "idents f") (auto simp: length_assoc_set split: if_splits)
          then have del: "assoc_del t (idents f) = []" using i1 k by (simp add: assoc_del_Nil)
          from r up True sw False have "process_level os t block ro
              (f\<lparr>idents := ?al, fos := os_unlock os (fos f), fmode := Free\<rparr>) = (a, n, f')"
            by (simp add: acquire_round_def n1_def Let_def)
          then show ?thesis
            by (rule process_round_ok) (use u up del ids k al in \<open>simp_all add: keys_assoc_set\<close>)
        next
          case no: False
          from r up no sw False have "wait_or_raise block (f\<lparr>idents := ?al\<rparr>) = (a, n, f')"
            by (simp add: acquire_round_def n1_def Let_def)
          then show ?thesis
            by (rule wait_round_ok) (intro up_set; use al i1 in \<open>simp add: distinct_assoc\<close>)
        qed
      next
        case no: False
        from r up no False have "wait_or_raise block f = (a, n, f')"
          by (simp add: acquire_round_def n1_def Let_def)
        then show ?thesis using i by (rule wait_round_ok)
      qed
    qed
  qed
qed

lemma acquire_loop_inv:
  assumes r: "acquire_loop 2 os t block ro sw f = Some (a, n, f')" and i: "lock_inv oi rd wr base (f, p)"
  shows "round_ok base t ro f p a f'"
proof -
  obtain b m g where g: "acquire_round os t block ro sw f = (b, m, g)"
    by (cases "acquire_round os t block ro sw f")
  note ok = acquire_round_inv [OF g i]
  show ?thesis
  proof (cases "b = Again")
    case False
    with r g ok show ?thesis by (cases b) (auto simp: numeral_2_eq_2)
  next
    case True
    with ok have free: "fmode g = Free" by (simp add: round_ok_def)
    with r g True obtain k where "process_level os t block ro g = (a, k, f')"
      by (auto simp: numeral_2_eq_2 acquire_round_Free split: prod.splits acq.splits)
    then show ?thesis
      by (rule process_round_ok) (use ok True in \<open>auto simp: round_ok_def\<close>)
  qed
qed

lemma release_inv:
  assumes i: "lock_inv oi rd wr base (f, p)" and p: "\<not> (\<exists>ro g. p = Some (t, ro, g))"
  shows "lock_inv oi rd wr base (snd (release_lock os t f), p)"
proof (cases "holds t f")
  case False
  with i show ?thesis by (simp add: release_lock_def)
next
  case True
  note i' = i [unfolded lock_inv_def, simplified]
  then have i1: "distinct (map fst (idents f))" and i2: "\<forall>x \<in> set (idents f). 0 < snd x" by blast+
  have k: "t \<in> fst ` set (idents f)" using True holds_iff by metis
  then have ne: "idents f \<noteq> []" by auto
  have m: "fmode f = Reading \<or> fmode f = Writing"
    using i' k p by (cases "fmode f"; cases p) (auto simp: image_iff)
  define al where "al = (if get_count t f \<le> 1 then assoc_del t (idents f)
    else assoc_set t (get_count t f - 1) (idents f))"
  have d: "distinct (map fst al)" using i1 by (simp add: al_def distinct_assoc)
  have pos: "\<forall>x \<in> set al. 0 < snd x" unfolding al_def
    using pos_assoc(2) [OF i2, of t] pos_assoc(1) [OF i2, of "get_count t f - 1" t] by simp
  show ?thesis
  proof (cases "al = []")
    case True
    then have r: "snd (release_lock os t f) = f\<lparr>idents := [], fos := os_unlock os (fos f),
        fmode := Free, sigint := (if fmode f = Writing then INT_enable (sigint f) else sigint f)\<rparr>"
      using k holds_iff [of "idents f" t]
      by (auto simp: release_lock_def al_def Let_def split: if_splits)
    from m show ?thesis
    proof
      assume "fmode f = Reading"
      with i' unlock_read [of "fos f"] show ?thesis unfolding r by (simp add: lock_inv_def)
    next
      assume "fmode f = Writing"
      with i' unlock_write [of "fos f"] show ?thesis unfolding r
        by (auto simp: lock_inv_def INT_enable_def Let_def)
    qed
  next
    case False
    then have r: "snd (release_lock os t f) = f\<lparr>idents := al\<rparr>"
      using k holds_iff [of "idents f" t] by (auto simp: release_lock_def al_def Let_def split: if_splits)
    have "length al = 1" if "length (idents f) = 1"
      using False that k by (auto simp: al_def length_assoc_set assoc_del_def length_Suc_conv
          split: if_splits)
    with m i' d pos False show ?thesis unfolding r by (auto simp: lock_inv_def)
  qed
qed

lemma resume_inv:
  assumes "acquire_resume os t ro got f = (a, n, f')"
    and "lock_inv oi rd wr base (f, Some (t, ro, got))" "got \<or> \<not> holds t f"
  shows "lock_inv oi rd wr base (f', None)"
proof -
  note i' = assms(2) [unfolded lock_inv_def, simplified]
  have m: "fmode f = Pending" using i' by (cases "fmode f") auto
  show ?thesis
  proof (cases got)
    case True
    then have "f' = granted t ro (f\<lparr>fmode := Free\<rparr>)" using assms(1) m by (simp add: acquire_resume_def)
    then show ?thesis by (simp, intro granted_inv) (use i' m True in auto)
  next
    case False
    with assms(1) m have "f' = f\<lparr>fmode := Free\<rparr>" by (simp add: acquire_resume_def)
    moreover have "idents f = []" using i' m assms(3) False holds_iff [of "idents f" t] by auto
    ultimately show ?thesis using i' m False by (simp add: lock_inv_def)
  qed
qed

lemma step_inv:
  assumes "lock_step os env s s'" "lock_inv oi rd wr base s"
  shows "lock_inv oi rd wr base s'"
  using assms
proof cases
  case (acquire t block ro sw f a n f' p)
  with acquire_loop_inv [OF acquire(3), of base p] assms(2)
    acquire_loop_two [of 0 os t block ro sw f]
  show ?thesis by (cases a) (auto simp: round_ok_def numeral_2_eq_2)
next
  case (os_wait t block ro sw f n f' p)
  with acquire_loop_inv [OF os_wait(3), of base p] assms(2) show ?thesis
    by (simp add: round_ok_def)
next
  case (os_grant ro f s t)
  then have i: "lock_inv oi rd wr base (f, Some (t, ro, False))" using assms(2) by simp
  note i' = i [unfolded lock_inv_def, simplified]
  have "fmode f = Pending" using i' by (cases "fmode f") auto
  moreover have "oi s \<and> rd s = rd (fos f) + of_bool ro \<and> wr s = wr (fos f) + of_bool (\<not> ro)"
    by (rule os_try_cases [where b = True]) (use os_grant i' in \<open>simp_all add: os_try_def\<close>)
  ultimately show ?thesis using i' os_grant by (auto simp: lock_inv_def)
next
  case (resume t ro f a n f')
  from resume_inv [OF resume(3)] assms(2) resume show ?thesis by simp
next
  case (os_fail t ro f a n f')
  from resume_inv [OF os_fail(3)] assms(2) os_fail show ?thesis by simp
next
  case (release p t f)
  from release_inv [OF _ release(3)] assms(2) release show ?thesis by simp
next
  case (del f f')
  then have i: "lock_inv oi rd wr base (f, None)" using assms(2) by simp
  note i' = i [unfolded lock_inv_def, simplified]
  have "fmode f = Free \<or> fmode f = Closed" using i' del(3)
    by (cases "fmode f") (auto simp: del_lock_def split: if_splits)
  with i' del show ?thesis by (auto simp: del_lock_def lock_inv_def split: if_splits)
next
  case (signal f p)
  with assms(2) show ?thesis by (auto simp: lock_inv_def INT_handler_def)
next
  case (others f s p)
  with assms(2) env_law [of "fos f" s] show ?thesis by (auto simp: lock_inv_def)
qed

lemma reach_inv:
  assumes "(lock_step os env)\<^sup>*\<^sup>* s s'" "lock_inv oi rd wr base s"
  shows "lock_inv oi rd wr base s'"
  using assms by (induction rule: rtranclp_induct) (auto intro: step_inv)

lemma new_flock_inv:
  "oi s \<Longrightarrow> rd s = 0 \<Longrightarrow> wr s = 0 \<Longrightarrow> lock_inv oi rd wr (int_count h) (new_flock h s, None)"
  by (simp add: lock_inv_def new_flock_def)

end

section \<open>The in-memory driver satisfies the contract\<close>

definition mem_calls :: "nat \<Rightarrow> mem_os os_calls" where
  "mem_calls cid = \<lparr>os_rlock = mem_rlock cid, os_wlock = mem_wlock cid, os_unlock = mem_unlock cid\<rparr>"

definition mem_ok :: "nat \<Rightarrow> mem_os \<Rightarrow> bool" where
  "mem_ok cid s \<longleftrightarrow> mem_inv s \<and> 0 < cid \<and> cid < 2 ^ 64"

definition my_reads :: "nat \<Rightarrow> mem_os \<Rightarrow> nat" where "my_reads cid s = count (readers s) cid"
definition my_writes :: "nat \<Rightarrow> mem_os \<Rightarrow> nat" where "my_writes cid s = count (writers s) cid"

interpretation mem_lock: os_lock "mem_calls cid" "mem_other cid" "mem_ok cid" "my_reads cid" "my_writes cid"
  for cid
proof
  fix s s' b
  assume i: "mem_ok cid s"
  then have m: "mem_inv s" by (simp add: mem_ok_def)
  show "os_rlock (mem_calls cid) b s = Done s' \<Longrightarrow> mem_ok cid s' \<and>
      my_reads cid s' = my_reads cid s + 1 \<and> my_writes cid s' = my_writes cid s"
    using mem_rlock_inv [OF m, of cid b s'] i
    by (auto simp: mem_calls_def mem_ok_def my_reads_def my_writes_def)
  show "os_wlock (mem_calls cid) b s = Done s' \<Longrightarrow> mem_ok cid s' \<and>
      my_reads cid s' = my_reads cid s \<and> my_writes cid s' = my_writes cid s + 1"
    using mem_wlock_inv [OF m, of cid b s'] i
    by (auto simp: mem_calls_def mem_ok_def my_reads_def my_writes_def)
  show "mem_other cid s s' \<Longrightarrow> mem_ok cid s' \<and>
      my_reads cid s' = my_reads cid s \<and> my_writes cid s' = my_writes cid s"
    using mem_other_keeps [OF _ m, of cid s'] i
    by (auto simp: mem_ok_def my_reads_def my_writes_def)
  note u = mem_unlock_inv [OF m, of cid]
  show "my_writes cid s = 0 \<Longrightarrow> 0 < my_reads cid s \<Longrightarrow> mem_ok cid (os_unlock (mem_calls cid) s) \<and>
      my_reads cid (os_unlock (mem_calls cid) s) = my_reads cid s - 1 \<and>
      my_writes cid (os_unlock (mem_calls cid) s) = 0"
    using u i by (auto simp: mem_calls_def mem_ok_def my_reads_def my_writes_def not_in_iff [symmetric])
  show "0 < my_writes cid s \<Longrightarrow> mem_ok cid (os_unlock (mem_calls cid) s) \<and>
      my_reads cid (os_unlock (mem_calls cid) s) = my_reads cid s \<and>
      my_writes cid (os_unlock (mem_calls cid) s) = my_writes cid s - 1"
    using u i by (auto simp: mem_calls_def mem_ok_def my_reads_def my_writes_def)
qed

section \<open>Properties\<close>

text \<open>
  C33: what a mode says, in every state that threads and the other copies of the in-memory files
  reach by the steps of \<open>lock_step\<close> in any order; these are all steps of the code except an
  upgrade that fails after it has given up the read lock of the driver.  A lock in write
  mode has exactly one registered thread, holds the only grant of the driver, for reading or
  writing, anywhere, and defers interrupts.  A lock in read mode has a registered reader
  and one read grant, and nobody holds a write grant.  A free or a closed lock has no registered
  thread and no grant.  A pending lock has a thread in the blocking call, which is the only one that
  may be registered, and the grant is there exactly when the call has succeeded.
\<close>

theorem file_lock_exclusion:
  assumes "(lock_step (mem_calls cid) (mem_other cid))\<^sup>*\<^sup>*
      (new_flock h (mem_os_init []), None) (f, p)"
    and "0 < cid" "cid < 2 ^ 64"
  shows "(fmode f = Writing \<longrightarrow> (\<exists>t n. idents f = [(t, Suc n)]) \<and> p = None \<and>
      writers (fos f) = {#cid#} \<and> readers (fos f) = {#} \<and>
      int_count (sigint f) = int_count h + 1)
    \<and> (fmode f = Reading \<longrightarrow> idents f \<noteq> [] \<and> p = None \<and> count (readers (fos f)) cid = 1 \<and> writers (fos f) = {#})
    \<and> (fmode f = Free \<or> fmode f = Closed \<longrightarrow>
         idents f = [] \<and> p = None \<and> cid \<notin># readers (fos f) + writers (fos f))
    \<and> (fmode f = Pending \<longrightarrow> (\<exists>t ro g. p = Some (t, ro, g) \<and> (idents f = [] \<or> (\<exists>n. idents f = [(t, Suc n)])) \<and>
         count (readers (fos f)) cid = of_bool (g \<and> ro) \<and> count (writers (fos f)) cid = of_bool (g \<and> \<not> ro)))
    \<and> (fmode f \<noteq> Writing \<longrightarrow> int_count (sigint f) = int_count h)"
proof -
  have "mem_ok cid (mem_os_init [])" using assms(2,3) mem_inv_init [of "[]"] by (simp add: mem_ok_def)
  moreover have "my_reads cid (mem_os_init []) = 0" "my_writes cid (mem_os_init []) = 0"
    by (simp_all add: my_reads_def my_writes_def mem_os_init_def)
  ultimately have "lock_inv (mem_ok cid) (my_reads cid) (my_writes cid) (int_count h) (f, p)"
    by (rule mem_lock.reach_inv [OF assms(1) mem_lock.new_flock_inv])
  note i = this [unfolded lock_inv_def, simplified]
  then have m: "mem_inv (fos f)" by (simp add: mem_ok_def)
  note x = mem_inv_exclusive [OF m]
  have w: "writers (fos f) = {#cid#} \<and> readers (fos f) = {#}" if "fmode f = Writing"
  proof -
    have c: "count (writers (fos f)) cid = 1" "count (readers (fos f)) cid = 0"
      using i that by (simp_all add: my_reads_def my_writes_def)
    then have cid: "cid \<in># writers (fos f)" by (simp flip: count_greater_zero_iff)
    have "count (writers (fos f)) d = 0 \<and> count (readers (fos f)) d = 0" if "d \<noteq> cid" for d
      using x [OF cid, of d] that by (auto simp: not_in_iff [symmetric])
    then have "count (writers (fos f)) d = count {#cid#} d \<and> count (readers (fos f)) d = 0" for d
      using c by (cases "d = cid") simp_all
    then show ?thesis by (metis multiset_eqI zero_multiset.rep_eq)
  qed
  have r: "count (readers (fos f)) cid = 1 \<and> writers (fos f) = {#}" if "fmode f = Reading"
  proof -
    have c: "count (readers (fos f)) cid = 1" "count (writers (fos f)) cid = 0"
      using i that by (simp_all add: my_reads_def my_writes_def)
    then have cid: "cid \<in># readers (fos f)" "cid \<notin># writers (fos f)"
      by (simp_all flip: count_greater_zero_iff add: not_in_iff)
    then have "d \<notin># writers (fos f)" for d using x [of d cid] by auto
    with c show ?thesis by (metis multiset_nonemptyE)
  qed
  have "\<exists>t n. idents f = [(t, Suc n)]" if "fmode f = Writing"
    using i that by (auto simp: length_Suc_conv gr0_conv_Suc)
  moreover have "\<exists>t ro g. p = Some (t, ro, g) \<and> (idents f = [] \<or> (\<exists>n. idents f = [(t, Suc n)])) \<and>
      count (readers (fos f)) cid = of_bool (g \<and> ro) \<and> count (writers (fos f)) cid = of_bool (g \<and> \<not> ro)"
    if q: "fmode f = Pending"
  proof -
    obtain t ro g where p: "p = Some (t, ro, g)" using i q by (cases p) auto
    have "idents f = [] \<or> map fst (idents f) = [t]" using i q p by simp
    then have "idents f = [] \<or> (\<exists>n. idents f = [(t, Suc n)])"
      using i by (auto simp: map_eq_Cons_conv gr0_conv_Suc)
    with i q p show ?thesis by (simp add: my_reads_def my_writes_def)
  qed
  moreover have "p = None" if "fmode f = Writing \<or> fmode f = Reading \<or> fmode f = Free \<or> fmode f = Closed"
    using i that by auto
  moreover have "idents f = [] \<and> cid \<notin># readers (fos f) + writers (fos f)" if "fmode f = Free \<or> fmode f = Closed"
    using i that by (auto simp: my_reads_def my_writes_def not_in_iff)
  ultimately show ?thesis using i w r by (cases "fmode f") simp_all
qed

definition no_signals :: int_handler where "no_signals = \<lparr>int_count = 0, call_flag = False\<rparr>"

definition one_writer :: mem_os where
  "one_writer = \<lparr>lck = put_field 12 4 1 (put_field 4 8 7 (replicate 17 0)), readers = {#}, writers = {#7#}\<rparr>"

lemma first_wlock: "mem_wlock 7 False (mem_os_init []) = Done one_writer"
proof -
  have f: "write_id (replicate 17 0) = 0" "read_cnt (replicate 17 0) = 0"
    by (rule get_field_zero, simp add: list_all_iff, simp)+
  then show ?thesis
    by (simp add: mem_wlock_def LCK_wlock_def mem_os_init_def init_lck_def one_writer_def nth_replicate)
qed

theorem file_lock_exclusion_witness:
  "\<exists>f. (lock_step (mem_calls 7) (mem_other 7))\<^sup>*\<^sup>*
      (new_flock no_signals (mem_os_init []), None) (f, None)
    \<and> fmode f = Writing \<and> writers (fos f) = {#7#} \<and> int_count (sigint f) = 1"
proof -
  define f where "f = granted 1 False (new_flock no_signals one_writer)"
  have "acquire_loop 2 (mem_calls 7) 1 True False False (new_flock no_signals (mem_os_init []))
      = Some (Acquired, False, f)"
    using first_wlock by (simp add: numeral_2_eq_2 acquire_round_Free process_level_def new_flock_def
        mem_calls_def os_try_def f_def)
  then have "lock_step (mem_calls 7) (mem_other 7) (new_flock no_signals (mem_os_init []), None) (f, None)"
    by (rule lock_step.acquire) (simp_all add: unclean_upgrade_def)
  then have "(lock_step (mem_calls 7) (mem_other 7))\<^sup>*\<^sup>*
      (new_flock no_signals (mem_os_init []), None) (f, None)" by simp
  moreover have "fmode f = Writing" by (simp add: f_def granted_def)
  ultimately show ?thesis
    using file_lock_exclusion [of 7 no_signals f None] by (auto simp: no_signals_def)
qed

text \<open>
  C34: \<open>acquire\<close> never loops: at most two rounds end in a return, an exception or a wait.
\<close>

theorem acquire_terminates:
  "\<exists>a n f'. acquire_loop 2 os t block ro sw f = Some (a, n, f') \<and> a \<noteq> Again"
  using acquire_loop_two [of 0 os t block ro sw f] by (simp add: numeral_2_eq_2)

text \<open>
  C35: Acquiring is re-entrant.  A thread that already holds the lock, and asks for no
  more than it has, gets it at once, and the matching release restores the lock exactly,
  without touching the storage driver or waking anyone.  The first grant on a free lock takes
  the grant of the driver and, for writing, defers interrupts; its release undoes all of this
  and wakes the waiting threads: the mode, the registered threads and the count of the
  interrupt handler are as before, and the driver is asked to unlock.
\<close>

theorem acquire_release:
  "((fmode f = Writing \<or> fmode f = Reading \<and> ro) \<and> holds t f \<and> 0 < get_count t f \<longrightarrow>
     (\<exists>f'. acquire_loop 2 os t block ro sw f = Some (Acquired, False, f') \<and>
        get_count t f' = get_count t f + 1 \<and> fos f' = fos f \<and>
        release_lock os t f' = (False, f))) \<and>
   (fmode f = Free \<and> idents f = [] \<and>
     (if ro then os_rlock os False (fos f) else os_wlock os False (fos f)) = Done s \<longrightarrow>
     (\<exists>f'. acquire_loop 2 os t block ro sw f = Some (Acquired, ro, f') \<and>
        idents f' = [(t, 1)] \<and> fos f' = s \<and> fmode f' = (if ro then Reading else Writing) \<and>
        int_count (sigint f') = int_count (sigint f) + (if ro then 0 else 1) \<and>
        (\<exists>f''. release_lock os t f' = (True, f'') \<and> fmode f'' = fmode f \<and> idents f'' = idents f \<and>
           fos f'' = os_unlock os s \<and> int_count (sigint f'') = int_count (sigint f))))"
proof (intro conjI impI)
  assume a: "(fmode f = Writing \<or> fmode f = Reading \<and> ro) \<and> holds t f \<and> 0 < get_count t f"
  then have ne: "idents f \<noteq> []" by auto
  have "acquire_loop 2 os t block ro sw f = Some (Acquired, False, bump t f)"
    using a ne by (auto simp: numeral_2_eq_2 acquire_round_def)
  moreover have "release_lock os t (bump t f) = (False, f)"
    using a ne by (auto simp: release_lock_def get_count_def Let_def assoc_set_same)
  ultimately show "\<exists>f'. acquire_loop 2 os t block ro sw f = Some (Acquired, False, f') \<and>
        get_count t f' = get_count t f + 1 \<and> fos f' = fos f \<and> release_lock os t f' = (False, f)"
    by auto
next
  assume a: "fmode f = Free \<and> idents f = [] \<and>
     (if ro then os_rlock os False (fos f) else os_wlock os False (fos f)) = Done s"
  let ?f = "granted t ro (f\<lparr>fos := s\<rparr>)"
  have "acquire_loop 2 os t block ro sw f = Some (Acquired, ro, ?f)"
    using a by (auto simp: numeral_2_eq_2 acquire_round_Free process_level_def os_try_def)
  moreover have "idents ?f = [(t, 1)]" "fos ?f = s" "fmode ?f = (if ro then Reading else Writing)"
    "int_count (sigint ?f) = int_count (sigint f) + (if ro then 0 else 1)"
    using a by (auto simp: granted_def get_count_def INT_disable_def Let_def)
  moreover have "\<exists>f''. release_lock os t ?f = (True, f'') \<and> fmode f'' = fmode f \<and> idents f'' = idents f \<and>
      fos f'' = os_unlock os s \<and> int_count (sigint f'') = int_count (sigint f)"
    using a by (auto simp: release_lock_def granted_def get_count_def assoc_del_def Let_def
        INT_disable_def INT_enable_def)
  ultimately show "\<exists>f'. acquire_loop 2 os t block ro sw f = Some (Acquired, ro, f') \<and>
        idents f' = [(t, 1)] \<and> fos f' = s \<and> fmode f' = (if ro then Reading else Writing) \<and>
        int_count (sigint f') = int_count (sigint f) + (if ro then 0 else 1) \<and>
        (\<exists>f''. release_lock os t f' = (True, f'') \<and> fmode f'' = fmode f \<and> idents f'' = idents f \<and>
           fos f'' = os_unlock os s \<and> int_count (sigint f'') = int_count (sigint f))" by blast
qed

theorem acquire_release_witness:
  "(\<exists>f'. acquire_loop 2 (mem_calls 7) 1 True False False (new_flock no_signals (mem_os_init []))
        = Some (Acquired, False, f') \<and> idents f' = [(1, 1)] \<and> fmode f' = Writing
        \<and> int_count (sigint (snd (release_lock (mem_calls 7) 1 f'))) = 0)
   \<and> (\<exists>f'. acquire_loop 2 (mem_calls 7) 1 True True False
          (granted 1 False (new_flock no_signals one_writer)) = Some (Acquired, False, f')
        \<and> get_count 1 f' = 2
        \<and> release_lock (mem_calls 7) 1 f' = (False, granted 1 False (new_flock no_signals one_writer)))"
proof
  show "\<exists>f'. acquire_loop 2 (mem_calls 7) 1 True False False (new_flock no_signals (mem_os_init []))
        = Some (Acquired, False, f') \<and> idents f' = [(1, 1)] \<and> fmode f' = Writing
        \<and> int_count (sigint (snd (release_lock (mem_calls 7) 1 f'))) = 0"
    using acquire_release [of "new_flock no_signals (mem_os_init [])" False 1 "mem_calls 7" True False one_writer]
      first_wlock by (fastforce simp: new_flock_def mem_calls_def no_signals_def)
  show "\<exists>f'. acquire_loop 2 (mem_calls 7) 1 True True False
          (granted 1 False (new_flock no_signals one_writer)) = Some (Acquired, False, f')
        \<and> get_count 1 f' = 2
        \<and> release_lock (mem_calls 7) 1 f' = (False, granted 1 False (new_flock no_signals one_writer))"
    using acquire_release [of "granted 1 False (new_flock no_signals one_writer)" True 1 "mem_calls 7" True False]
    by (auto simp: granted_def new_flock_def get_count_def)
qed

text \<open>
  An upgrade without \<open>switch\<close> can wait for itself.  A thread that entered the read
  lock more than once waits although no other thread holds it; and when two readers hold
  the lock and one asks for the write lock, the other one's release leaves the first as
  the only registered thread and notifies nobody.
\<close>

theorem upgrade_waits_for_itself:
  "acquire_loop 2 os 1 True False False \<lparr>fmode = Reading, idents = [(1, 2)], sigint = h, fos = s\<rparr>
     = Some (CondWait, False, \<lparr>fmode = Reading, idents = [(1, 2)], sigint = h, fos = s\<rparr>)
   \<and> (\<exists>f. acquire_loop 2 os 1 True False False
            \<lparr>fmode = Reading, idents = [(1, 1), (2, 1)], sigint = h, fos = s\<rparr>
          = Some (CondWait, False, f)
        \<and> release_lock os 2 f
          = (False, \<lparr>fmode = Reading, idents = [(1, 1)], sigint = h, fos = s\<rparr>))"
  by (simp add: numeral_2_eq_2 acquire_round_def get_count_def wait_or_raise_def assoc_del_def
      release_lock_def)

definition two_readers :: mem_os where
  "two_readers = \<lparr>lck = put_field 0 4 2 (replicate 17 0), readers = {#7, 8#}, writers = {#}\<rparr>"

lemma two_readers_bytes:
  defines "b \<equiv> put_field 0 4 2 (replicate 17 0)"
  shows "length b = 17" "read_cnt b = 2" "write_id b = 0" "write_cnt b = 0" "\<not> lck_removed b"
  by (simp_all add: b_def lock_simps get_field_zero list_all_iff)

text \<open>
  A non-blocking upgrade without \<open>switch\<close> that fails leaves the lock in read mode
  although it has given up the read grant of the storage driver: another object that
  shares the files then gets the write lock while the first one still counts as a reader.
  And \<open>can_lock\<close>, called by a reader, reports that the lock is busy and drops the
  caller's read lock.
\<close>

theorem failed_upgrade_loses_lock:
  "(\<exists>f s2. acquire_loop 2 (mem_calls 7) 1 False False False
          \<lparr>fmode = Reading, idents = [(1, 1)], sigint = h, fos = two_readers\<rparr> =
          Some (Raised FileLockException, True, f)
        \<and> fmode f = Reading \<and> holds 1 f \<and> my_reads 7 (fos f) = 0
        \<and> mem_wlock 8 False (mem_unlock 8 (fos f)) = Done s2 \<and> writers s2 = {#8#})
    \<and> (\<exists>f. can_lock (mem_calls 7) 1
          \<lparr>fmode = Reading, idents = [(1, 1), (2, 1)], sigint = h, fos = two_readers\<rparr> = Some (Inr False, f)
        \<and> \<not> holds 1 f)"
proof -
  let ?b = "put_field 0 4 2 (replicate 17 0)"
  let ?b1 = "LCK_unlock 7 ?b" and ?b2 = "LCK_unlock 8 (LCK_unlock 7 ?b)"
  note b = two_readers_bytes
  note f1 = LCK_unlock_fields [OF b(1), of 7]
  have b1: "read_cnt ?b1 = 1" "write_id ?b1 = 0" "length ?b1 = 17" using f1 b by simp_all
  have b2: "read_cnt ?b2 = 0" "write_id ?b2 = 0" "\<not> lck_removed ?b1" "\<not> lck_removed ?b2"
    using LCK_unlock_fields [OF b1(3), of 8] b1 b by (simp_all add: LCK_unlock_def lock_simps)
  let ?s1 = "\<lparr>lck = ?b1, readers = {#8#}, writers = {#}\<rparr> :: mem_os"
  have s1: "mem_unlock 7 two_readers = ?s1" using b by (simp add: mem_unlock_def two_readers_def)
  have w7: "mem_wlock 7 False ?s1 = Raise BlockingIOError"
    using b1 b2 by (simp add: mem_wlock_def LCK_wlock_def)
  have "acquire_loop 2 (mem_calls 7) 1 False False False
      \<lparr>fmode = Reading, idents = [(1, 1)], sigint = h, fos = two_readers\<rparr> =
      Some (Raised FileLockException, True,
        \<lparr>fmode = Reading, idents = [(1, 1)], sigint = h, fos = ?s1\<rparr>)"
    using s1 w7 by (simp add: numeral_2_eq_2 acquire_round_def get_count_def assoc_del_def
        process_level_def mem_calls_def os_try_def)
  moreover have "my_reads 7 ?s1 = 0" by (simp add: my_reads_def)
  moreover have "mem_unlock 8 ?s1 = \<lparr>lck = ?b2, readers = {#}, writers = {#}\<rparr>"
    using b1 by (simp add: mem_unlock_def)
  then have "\<exists>s2. mem_wlock 8 False (mem_unlock 8 ?s1) = Done s2 \<and> writers s2 = {#8#}"
    using b2 by (simp add: mem_wlock_def LCK_wlock_def)
  moreover have "can_lock (mem_calls 7) 1
      \<lparr>fmode = Reading, idents = [(1, 1), (2, 1)], sigint = h, fos = two_readers\<rparr> =
      Some (Inr False, \<lparr>fmode = Reading, idents = [(2, 1)], sigint = h, fos = two_readers\<rparr>)"
    by (simp add: can_lock_def numeral_2_eq_2 acquire_round_def get_count_def assoc_del_def
        wait_or_raise_def release_lock_def)
  ultimately show ?thesis by fastforce
qed

end
