(* ===== verification/Graph_Store.thy ===== *)
theory Graph_Store
  imports Values "HOL-Library.List_Lexorder"
begin

text \<open>
  The graph layer of \<open>omni_json_db/jdb_graph.py\<close>: nodes, edges, adjacency lists and three
  counters as records of a key-value store, and the four operations that keep them in step.
  A record is seen as its key and value (what the writers of \<open>jdb.py\<close> refine); the flags
  of records play no role here.
\<close>

type_synonym gid = "nat list"
type_synonym kv = "(nat list \<times> pyval) list"

section \<open>Records\<close>

definition rec_read :: "nat list \<Rightarrow> pyval \<Rightarrow> kv \<Rightarrow> pyval" where
  "rec_read k d s = (case map_of s k of None \<Rightarrow> d | Some v \<Rightarrow> v)"

text \<open>A write of an equal value is not one, unless it overwrites.\<close>

definition rec_write :: "bool \<Rightarrow> nat list \<Rightarrow> pyval \<Rightarrow> kv \<Rightarrow> bool \<times> kv" where
  "rec_write over k v s = (if \<not> over \<and> map_of s k = Some v then (False, s) else (True, assoc_set k v s))"

text \<open>The contract the graph operations rely on.\<close>

locale records =
  fixes look :: "'s \<Rightarrow> 'k \<Rightarrow> 'v option"
    and put :: "bool \<Rightarrow> 'k \<Rightarrow> 'v \<Rightarrow> 's \<Rightarrow> bool \<times> 's"
    and drop_key :: "'k \<Rightarrow> 's \<Rightarrow> 's"
  assumes look_put: "look (snd (put over k v s)) = (look s)(k \<mapsto> v)"
    and look_drop: "look (drop_key k s) = (look s)(k := None)"
    and put_result: "fst (put over k v s) \<longleftrightarrow> over \<or> look s k \<noteq> Some v"
begin

lemma look_put_new: "look s k = None \<Longrightarrow> fst (put over k v s) \<and> dom (look (snd (put over k v s))) = insert k (dom (look s))"
  by (simp add: put_result look_put)

lemma look_drops: "look (fold drop_key ks s) = (look s) |` (- set ks)"
  by (induction ks arbitrary: s) (auto simp: look_drop restrict_map_def fun_eq_iff)

end

interpretation kv: records map_of rec_write assoc_del
  by unfold_locales (auto simp: rec_write_def fun_upd_idem)

section \<open>Keys\<close>

definition node_key :: "gid \<Rightarrow> nat list" where
  "node_key u = [78, 58] @ u @ [58]"

definition adj_key :: "gid \<Rightarrow> nat list" where
  "adj_key u = [88, 58] @ u @ [58]"

definition ekey :: "bool \<times> gid \<times> gid \<Rightarrow> nat list" where
  "ekey = (\<lambda>(d, u, v). [69, 58] @ u @ [58, if d then 62 else 45, 58] @ v @ [58])"

definition edge_of :: "gid \<Rightarrow> gid \<Rightarrow> bool \<Rightarrow> bool \<times> gid \<times> gid" where
  "edge_of u v directed = (if \<not> directed \<and> u > v then (directed, v, u) else (directed, u, v))"

definition edge_key :: "gid \<Rightarrow> gid \<Rightarrow> bool \<Rightarrow> nat list" where
  "edge_key u v directed = ekey (edge_of u v directed)"

definition N_NODES :: "nat list" where "N_NODES = [35, 58, 78, 58]"
definition N_EDGES :: "nat list" where "N_EDGES = [35, 58, 69, 58]"
definition N_DIRECTED :: "nat list" where "N_DIRECTED = [35, 58, 62, 58]"

text \<open>Entries of an adjacency list: the direction and the neighbour.\<close>

definition mark_out :: "bool \<Rightarrow> nat" where "mark_out directed = (if directed then 62 else 45)"
definition mark_in :: "bool \<Rightarrow> nat" where "mark_in directed = (if directed then 60 else 45)"

fun str_of :: "pyval \<Rightarrow> nat list" where
  "str_of (VStr s) = s"
| "str_of _ = []"

fun entries :: "pyval \<Rightarrow> nat list list" where
  "entries (VList xs) = map str_of xs"
| "entries _ = []"

definition blob :: "nat list list \<Rightarrow> pyval" where
  "blob xs = VList (map VStr xs)"

definition f_get_adj :: "gid \<Rightarrow> kv \<Rightarrow> nat list list" where
  "f_get_adj u s = entries (rec_read (adj_key u) (VList []) s)"

text \<open>The edge behind an entry of node \<open>u\<close>.\<close>

definition entry_key :: "gid \<Rightarrow> nat list \<Rightarrow> nat list" where
  "entry_key u e = (if hd e = 60 then edge_key (tl e) u True else edge_key u (tl e) (hd e = 62))"

section \<open>Operations\<close>

fun num :: "pyval \<Rightarrow> int" where
  "num (VInt n) = n"
| "num _ = 0"

definition count :: "nat list \<Rightarrow> kv \<Rightarrow> int" where
  "count k s = num (rec_read k (VInt 0) s)"

definition bad_id :: "gid \<Rightarrow> bool" where
  "bad_id u \<longleftrightarrow> u = [] \<or> 58 \<in> set u"

text \<open>\<open>{**old, **new}\<close>\<close>

definition dict_merge :: "(pyval \<times> pyval) list \<Rightarrow> (pyval \<times> pyval) list \<Rightarrow> (pyval \<times> pyval) list" where
  "dict_merge old new = fold (\<lambda>(k, v) d. dict_set d k v) new old"

definition merge_props :: "nat list \<Rightarrow> (pyval \<times> pyval) list \<Rightarrow> kv \<Rightarrow> bool \<times> kv" where
  "merge_props k props s =
     (case rec_read k VNone s of
        VDict old \<Rightarrow>
          (let new = dict_merge old props
           in if py_eq (VDict new) (VDict old) then (False, s) else rec_write False k (VDict new) s)
      | _ \<Rightarrow> rec_write False k (VDict props) s)"

definition f_has_node :: "gid \<Rightarrow> kv \<Rightarrow> bool" where
  "f_has_node u s \<longleftrightarrow> map_of s (node_key u) \<noteq> None"

definition f_has_edge :: "gid \<Rightarrow> gid \<Rightarrow> bool \<Rightarrow> kv \<Rightarrow> bool" where
  "f_has_edge u v directed s \<longleftrightarrow> map_of s (edge_key u v directed) \<noteq> None"

definition f_add_node :: "gid \<Rightarrow> (pyval \<times> pyval) list \<Rightarrow> kv \<Rightarrow> bool res \<times> kv" where
  "f_add_node u props s =
     (if bad_id u then (Inl JKeyError, s)
      else if \<not> f_has_node u s then
        (let (done, s) = rec_write False (node_key u) (VDict props) s
         in if done then (Inr True, snd (rec_write False N_NODES (VInt (max (count N_NODES s) 0 + 1)) s)) else (Inr False, s))
      else (let (done, s) = merge_props (node_key u) props s in (Inr done, s)))"

definition add_entry :: "gid \<Rightarrow> nat list \<Rightarrow> kv \<Rightarrow> kv" where
  "add_entry u e s =
     (let adj = f_get_adj u s in if e \<in> set adj then s else snd (rec_write True (adj_key u) (blob (adj @ [e])) s))"

definition del_entry :: "gid \<Rightarrow> nat list \<Rightarrow> kv \<Rightarrow> kv" where
  "del_entry u e s =
     (let adj = f_get_adj u s in if e \<in> set adj then snd (rec_write True (adj_key u) (blob (remove1 e adj)) s) else s)"

definition new_node :: "gid \<Rightarrow> int \<times> kv \<Rightarrow> int \<times> kv" where
  "new_node u = (\<lambda>(n, s). if f_has_node u s then (n, s) else (n + 1, snd (rec_write True (node_key u) (VDict []) s)))"

definition f_add_edge :: "gid \<Rightarrow> gid \<Rightarrow> bool \<Rightarrow> (pyval \<times> pyval) list \<Rightarrow> kv \<Rightarrow> bool res \<times> kv" where
  "f_add_edge u v directed props s =
     (if u = v \<or> bad_id u \<or> bad_id v then (Inl JKeyError, s)
      else if \<not> f_has_edge u v directed s then
        (let (n, s) = new_node v (new_node u (count N_NODES s, s));
             s = add_entry u (mark_out directed # v) s;
             s = add_entry v (mark_in directed # u) s;
             s = snd (rec_write False N_NODES (VInt (max 0 n)) s);
             (done, s) = rec_write False (edge_key u v directed) (VDict props) s
         in if done then
              let s = snd (rec_write False N_EDGES (VInt (max (count N_EDGES s) 0 + 1)) s);
                  s = (if directed then snd (rec_write False N_DIRECTED (VInt (max (count N_DIRECTED s) 0 + 1)) s) else s)
              in (Inr True, s)
            else (Inr False, s))
      else (let (done, s) = merge_props (edge_key u v directed) props s in (Inr done, s)))"

text \<open>The deleted records are returned.\<close>

definition f_remove_edge :: "gid \<Rightarrow> gid \<Rightarrow> bool \<Rightarrow> kv \<Rightarrow> kv \<times> kv" where
  "f_remove_edge u v directed s =
     (case map_of s (edge_key u v directed) of
        None \<Rightarrow> ([], s)
      | Some props \<Rightarrow>
          let s = assoc_del (edge_key u v directed) s;
              s = snd (rec_write False N_EDGES (VInt (max 0 (count N_EDGES s - 1))) s);
              s = (if directed then snd (rec_write False N_DIRECTED (VInt (max 0 (count N_DIRECTED s - 1))) s) else s);
              s = del_entry u (mark_out directed # v) s;
              s = del_entry v (mark_in directed # u) s
          in ([(edge_key u v directed, props)], s))"

text \<open>
  \<open>f_remove_node\<close> collects the keys to delete: the node, its adjacency list, its edges, and
  the lists of neighbours that become empty; the other lists are rewritten on the way.
\<close>

definition collect :: "gid \<Rightarrow> nat list \<Rightarrow> nat list list \<times> nat list list \<times> kv \<Rightarrow> nat list list \<times> nat list list \<times> kv" where
  "collect u e = (\<lambda>(ks, cleaned, s).
     let ks = (if map_of s (entry_key u e) \<noteq> None then ks @ [entry_key u e] else ks); a = adj_key (tl e)
     in if map_of s a \<noteq> None \<and> a \<notin> set cleaned \<and> a \<notin> set ks then
          let old = entries (rec_read a (VList []) s); new = filter (\<lambda>x. tl x \<noteq> u) old
          in (if new = [] then ks @ [a] else ks, a # cleaned,
              if new \<noteq> [] \<and> new \<noteq> old then snd (rec_write True a (blob new) s) else s)
        else (ks, cleaned, s))"

text \<open>\<open>key.find(':>:') >= 3\<close>\<close>

definition find_sub :: "nat list \<Rightarrow> nat list \<Rightarrow> nat option" where
  "find_sub p k = find (\<lambda>i. take (length p) (drop i k) = p) [0..<length k]"

definition counts_node :: "nat list \<Rightarrow> bool" where
  "counts_node k \<longleftrightarrow> take 2 k = [78, 58]"

definition counts_edge :: "nat list \<Rightarrow> bool" where
  "counts_edge k \<longleftrightarrow> take 2 k = [69, 58]"

definition counts_directed :: "nat list \<Rightarrow> bool" where
  "counts_directed k \<longleftrightarrow> counts_edge k \<and> (case find_sub [58, 62, 58] k of None \<Rightarrow> False | Some i \<Rightarrow> i \<ge> 3)"

fun delete_keys :: "nat list list \<Rightarrow> kv \<Rightarrow> kv \<Rightarrow> kv res \<times> kv" where
  "delete_keys [] ret s = (Inr ret, s)"
| "delete_keys (k # ks) ret s =
     (case map_of s k of
        None \<Rightarrow> (Inl JKeyError, s)
      | Some v \<Rightarrow> delete_keys ks (ret @ [(k, v)]) (assoc_del k s))"

definition f_remove_node :: "gid \<Rightarrow> kv \<Rightarrow> kv res \<times> kv" where
  "f_remove_node u s =
     (let ks = (if f_has_node u s then [node_key u] else []);
          (ks, _, s) = (if map_of s (adj_key u) \<noteq> None
                        then fold (collect u) (f_get_adj u s) (ks @ [adj_key u], [], s) else (ks, [], s))
      in if ks = [] then (Inr [], s)
         else
           let n = count N_NODES s; m = count N_EDGES s; d = count N_DIRECTED s
           in case delete_keys ks [] s of
                (Inl e, s) \<Rightarrow> (Inl e, s)
              | (Inr ret, s) \<Rightarrow>
                  let less = (\<lambda>n p. VInt (max 0 (n - int (length (filter p ks)))));
                      s = snd (rec_write False N_NODES (less n counts_node) s);
                      s = snd (rec_write False N_EDGES (less m counts_edge) s);
                      s = snd (rec_write False N_DIRECTED (less d counts_directed) s)
                  in (Inr ret, s))"

section \<open>Keys do not collide\<close>

definition good_id :: "gid \<Rightarrow> bool" where
  "good_id u \<longleftrightarrow> \<not> bad_id u \<and> u \<noteq> [62]"

lemma split_colon: "58 \<notin> set u \<Longrightarrow> 58 \<notin> set v \<Longrightarrow> u @ 58 # x = v @ 58 # y \<longleftrightarrow> u = v \<and> x = (y :: nat list)"
proof (induction u arbitrary: v)
  case Nil
  then show ?case by (cases v) auto
next
  case (Cons a u)
  then show ?case by (cases v) auto
qed

lemma ekey_inject: "good_id u \<Longrightarrow> good_id v \<Longrightarrow> good_id u' \<Longrightarrow> good_id v' \<Longrightarrow>
    ekey (d, u, v) = ekey (d', u', v') \<longleftrightarrow> d = d' \<and> u = u' \<and> v = v'"
  by (auto simp: ekey_def split_colon good_id_def bad_id_def split: if_splits)

lemma key_differ [simp]:
  "node_key u = node_key v \<longleftrightarrow> u = v" "adj_key u = adj_key v \<longleftrightarrow> u = v"
  "node_key u \<noteq> adj_key v" "adj_key v \<noteq> node_key u" "node_key u \<noteq> ekey e" "ekey e \<noteq> node_key u" "adj_key u \<noteq> ekey e" "ekey e \<noteq> adj_key u"
  "node_key u \<noteq> N_NODES" "node_key u \<noteq> N_EDGES" "node_key u \<noteq> N_DIRECTED"
  "N_NODES \<noteq> node_key u" "N_EDGES \<noteq> node_key u" "N_DIRECTED \<noteq> node_key u"
  "adj_key u \<noteq> N_NODES" "adj_key u \<noteq> N_EDGES" "adj_key u \<noteq> N_DIRECTED"
  "N_NODES \<noteq> adj_key u" "N_EDGES \<noteq> adj_key u" "N_DIRECTED \<noteq> adj_key u"
  "ekey e \<noteq> N_NODES" "ekey e \<noteq> N_EDGES" "ekey e \<noteq> N_DIRECTED"
  "N_NODES \<noteq> ekey e" "N_EDGES \<noteq> ekey e" "N_DIRECTED \<noteq> ekey e"
  "N_NODES \<noteq> N_EDGES" "N_NODES \<noteq> N_DIRECTED" "N_EDGES \<noteq> N_DIRECTED"
  "N_EDGES \<noteq> N_NODES" "N_DIRECTED \<noteq> N_NODES" "N_DIRECTED \<noteq> N_EDGES"
  by (auto simp: node_key_def adj_key_def ekey_def N_NODES_def N_EDGES_def N_DIRECTED_def split: prod.splits)

lemma edge_of_parts: "edge_of u v d = (d, u, v) \<or> edge_of u v d = (d, v, u)"
  by (simp add: edge_of_def)

lemma edge_of_sym: "edge_of u v False = edge_of v u False"
  by (auto simp: edge_of_def)

lemma edge_key_differ [simp]:
  "edge_key u v d \<noteq> node_key x" "edge_key u v d \<noteq> adj_key x" "edge_key u v d \<noteq> N_NODES" "edge_key u v d \<noteq> N_EDGES" "edge_key u v d \<noteq> N_DIRECTED"
  "node_key x \<noteq> edge_key u v d" "adj_key x \<noteq> edge_key u v d" "N_NODES \<noteq> edge_key u v d" "N_EDGES \<noteq> edge_key u v d" "N_DIRECTED \<noteq> edge_key u v d"
  by (simp_all add: edge_key_def)

section \<open>The graph a store represents\<close>

text \<open>Directed edges, and undirected ones with the smaller end first.\<close>

definition ends_ok :: "gid set \<Rightarrow> (bool \<times> gid \<times> gid) set \<Rightarrow> bool" where
  "ends_ok V E \<longleftrightarrow> (\<forall>(d, u, v) \<in> E. u \<in> V \<and> v \<in> V \<and> u \<noteq> v \<and> edge_of u v d = (d, u, v))"

text \<open>The entries of a node.\<close>

definition incident :: "(bool \<times> gid \<times> gid) set \<Rightarrow> gid \<Rightarrow> nat list set" where
  "incident E x = {62 # v |v. (True, x, v) \<in> E} \<union> {60 # v |v. (True, v, x) \<in> E} \<union> {45 # v |v. edge_of x v False \<in> E}"

definition adj_of :: "(nat list \<Rightarrow> pyval option) \<Rightarrow> gid \<Rightarrow> nat list list" where
  "adj_of m u = (case m (adj_key u) of None \<Rightarrow> [] | Some v \<Rightarrow> entries v)"

definition count_of :: "(nat list \<Rightarrow> pyval option) \<Rightarrow> nat list \<Rightarrow> int" where
  "count_of m k = (case m k of None \<Rightarrow> 0 | Some v \<Rightarrow> num v)"

definition represents :: "(nat list \<Rightarrow> pyval option) \<Rightarrow> gid set \<Rightarrow> (bool \<times> gid \<times> gid) set \<Rightarrow> bool" where
  "represents m V E \<longleftrightarrow> finite V \<and> (\<forall>u \<in> V. good_id u) \<and> ends_ok V E \<and>
     (\<forall>u. good_id u \<longrightarrow> (m (node_key u) \<noteq> None \<longleftrightarrow> u \<in> V)) \<and>
     (\<forall>d u v. good_id u \<and> good_id v \<longrightarrow> (m (ekey (d, u, v)) \<noteq> None \<longleftrightarrow> (d, u, v) \<in> E)) \<and>
     (\<forall>u. good_id u \<longrightarrow> distinct (adj_of m u) \<and> set (adj_of m u) = incident E u) \<and>
     count_of m N_NODES = int (card V) \<and> count_of m N_EDGES = int (card E) \<and>
     count_of m N_DIRECTED = int (card {e \<in> E. fst e})"

lemma rec_write_map [simp]: "map_of (snd (rec_write over k v s)) = (map_of s)(k \<mapsto> v)"
  by (rule kv.look_put)

lemma reads_of:
  "f_get_adj u s = adj_of (map_of s) u" "count k s = count_of (map_of s) k"
  by (auto simp: f_get_adj_def adj_of_def count_def count_of_def rec_read_def split: option.split)

lemma entries_blob [simp]: "entries (blob xs) = xs"
  by (induction xs) (simp_all add: blob_def)

lemma adj_of_upd [simp]:
  "adj_of (m(k \<mapsto> v)) u = (if k = adj_key u then entries v else adj_of m u)"
  "adj_of (m(k := None)) u = (if k = adj_key u then [] else adj_of m u)"
  by (auto simp: adj_of_def)

lemma count_of_upd [simp]:
  "count_of (m(k \<mapsto> v)) k' = (if k = k' then num v else count_of m k')"
  "count_of (m(k := None)) k' = (if k = k' then 0 else count_of m k')"
  by (auto simp: count_of_def)

lemma finite_edges: "finite V \<Longrightarrow> ends_ok V E \<Longrightarrow> finite E"
proof -
  assume "finite V" "ends_ok V E"
  then have "E \<subseteq> UNIV \<times> V \<times> V" "finite (UNIV \<times> V \<times> V :: (bool \<times> gid \<times> gid) set)" by (auto simp: ends_ok_def)
  then show ?thesis by (rule finite_subset)
qed

text \<open>What an edge adds to the lists of its ends.\<close>

lemma mark_simps [simp]:
  "mark_out True = 62" "mark_out False = 45" "mark_in True = 60" "mark_in False = 45"
  by (simp_all add: mark_out_def mark_in_def)

lemma incident_mem:
  "62 # v \<in> incident E x \<longleftrightarrow> (True, x, v) \<in> E" "60 # v \<in> incident E x \<longleftrightarrow> (True, v, x) \<in> E"
  "45 # v \<in> incident E x \<longleftrightarrow> edge_of x v False \<in> E"
  by (auto simp: incident_def)

lemma incident_forms: "e \<in> incident E x \<Longrightarrow> (\<exists>v. e = 62 # v \<or> e = 60 # v \<or> e = 45 # v)"
  by (auto simp: incident_def)

lemma incident_eqI:
  assumes "\<And>e. e \<in> A \<Longrightarrow> \<exists>v. e = 62 # v \<or> e = 60 # v \<or> e = 45 # v"
    and "\<And>v. 62 # v \<in> A \<longleftrightarrow> (True, x, v) \<in> E" "\<And>v. 60 # v \<in> A \<longleftrightarrow> (True, v, x) \<in> E"
    and "\<And>v. 45 # v \<in> A \<longleftrightarrow> edge_of x v False \<in> E"
  shows "A = incident E x"
  using assms incident_forms [of _ E x] incident_mem [of _ E x] by (intro set_eqI iffI) metis+

lemma incident_insert:
  assumes "u \<noteq> v"
  shows "incident (insert (edge_of u v d) E) x = incident E x \<union>
    (if x = u then {mark_out d # v} else {}) \<union> (if x = v then {mark_in d # u} else {})"
  using assms incident_forms [of _ E x]
  by (intro incident_eqI [symmetric]) (auto simp: incident_mem edge_of_def mark_out_def mark_in_def split: if_splits)

lemma incident_remove:
  assumes "u \<noteq> v"
  shows "incident (E - {edge_of u v d}) x = incident E x -
    (if x = u then {mark_out d # v} else {}) - (if x = v then {mark_in d # u} else {})"
  using assms incident_forms [of _ E x]
  by (intro incident_eqI [symmetric]) (auto simp: incident_mem edge_of_def mark_out_def mark_in_def split: if_splits)

section \<open>Adding\<close>

text \<open>What \<open>represents\<close> looks at, for a step that leaves some of it alone.\<close>

lemma representsD:
  assumes "represents m V E"
  shows "finite V" "u \<in> V \<Longrightarrow> good_id u" "ends_ok V E" "good_id u \<Longrightarrow> m (node_key u) \<noteq> None \<longleftrightarrow> u \<in> V"
    "good_id u \<Longrightarrow> good_id v \<Longrightarrow> m (ekey (d, u, v)) \<noteq> None \<longleftrightarrow> (d, u, v) \<in> E"
    "good_id u \<Longrightarrow> distinct (adj_of m u)" "good_id u \<Longrightarrow> set (adj_of m u) = incident E u"
    "count_of m N_NODES = int (card V)" "count_of m N_EDGES = int (card E)" "count_of m N_DIRECTED = int (card {e \<in> E. fst e})"
    "finite E"
  using assms finite_edges [of V E] unfolding represents_def by auto

lemma represents_props:
  assumes "represents m V E" "m k \<noteq> None" "k = node_key x \<or> k = ekey e"
  shows "represents (m(k \<mapsto> v)) V E"
proof -
  have d: "(m(k \<mapsto> v)) x \<noteq> None \<longleftrightarrow> m x \<noteq> None" for x using assms(2) by simp
  have a: "adj_of (m(k \<mapsto> v)) u = adj_of m u" for u using assms(3) by auto
  have c: "count_of (m(k \<mapsto> v)) N_NODES = count_of m N_NODES" "count_of (m(k \<mapsto> v)) N_EDGES = count_of m N_EDGES"
    "count_of (m(k \<mapsto> v)) N_DIRECTED = count_of m N_DIRECTED" using assms(3) by auto
  show ?thesis using assms(1) unfolding represents_def d a c .
qed

lemma merge_props_map: "\<exists>v. map_of (snd (merge_props k props s)) = map_of s \<or> map_of (snd (merge_props k props s)) = (map_of s)(k \<mapsto> v)"
  by (cases "rec_read k VNone s") (auto simp: merge_props_def Let_def intro: exI)

lemma merge_props_represents:
  assumes "represents (map_of s) V E" "map_of s k \<noteq> None" "k = node_key x \<or> k = ekey e"
  shows "represents (map_of (snd (merge_props k props s))) V E"
proof -
  obtain v where "map_of (snd (merge_props k props s)) = map_of s \<or> map_of (snd (merge_props k props s)) = (map_of s)(k \<mapsto> v)"
    using merge_props_map by blast
  then show ?thesis using assms(1) represents_props [OF assms, of v] by auto
qed

lemma add_node_refines:
  assumes rep: "represents (map_of s) V E" and u: "u \<noteq> [62]" and f: "f_add_node u props s = (r, s')"
  shows "if bad_id u then r = Inl JKeyError \<and> s' = s else (\<exists>b. r = Inr b) \<and> represents (map_of s') (insert u V) E"
proof (cases "bad_id u")
  case False
  then have g: "good_id u" using u by (simp add: good_id_def)
  show ?thesis
  proof (cases "f_has_node u s")
    case True
    obtain b t where m: "merge_props (node_key u) props s = (b, t)" by (metis surj_pair)
    have k: "map_of s (node_key u) \<noteq> None" using True by (simp add: f_has_node_def)
    then have "u \<in> V" using representsD(4) [OF rep g] by simp
    moreover have "represents (map_of t) V E" using merge_props_represents [OF rep k, of u undefined props] m by simp
    ultimately show ?thesis using f False True m by (auto simp: f_add_node_def insert_absorb)
  next
    case no: False
    then have k: "map_of s (node_key u) = None" by (simp add: f_has_node_def)
    then have nu: "u \<notin> V" using representsD(4) [OF rep g] by simp
    have "rec_write False (node_key u) (VDict props) s = (True, assoc_set (node_key u) (VDict props) s)"
      using k by (simp add: rec_write_def)
    then have r: "r = Inr True" "map_of s' = (map_of s)(node_key u \<mapsto> VDict props,
        N_NODES \<mapsto> VInt (max (count_of (map_of s) N_NODES) 0 + 1))"
      using f False no by (auto simp: f_add_node_def reads_of)
    have "represents (map_of s') (insert u V) E"
      unfolding represents_def r
      using representsD [OF rep] nu g by (auto simp: ends_ok_def)
    then show ?thesis using False r by (auto intro: exI [of _ True])
  qed
qed (use f in \<open>simp add: f_add_node_def\<close>)

lemma new_node_map:
  "map_of (snd (new_node u (n, s))) = (if map_of s (node_key u) = None then (map_of s)(node_key u \<mapsto> VDict []) else map_of s)"
  "fst (new_node u (n, s)) = (if map_of s (node_key u) = None then n + 1 else n)"
  by (auto simp: new_node_def f_has_node_def)

lemma add_entry_map:
  "k \<noteq> adj_key u \<Longrightarrow> map_of (add_entry u e s) k = map_of s k"
  "x \<noteq> u \<Longrightarrow> adj_of (map_of (add_entry u e s)) x = adj_of (map_of s) x"
  "set (adj_of (map_of (add_entry u e s)) u) = insert e (set (adj_of (map_of s) u))"
  "distinct (adj_of (map_of s) u) \<Longrightarrow> distinct (adj_of (map_of (add_entry u e s)) u)"
  by (auto simp: add_entry_def Let_def reads_of)

lemma ends_ok_edge: "u \<in> V \<Longrightarrow> v \<in> V \<Longrightarrow> u \<noteq> v \<Longrightarrow> ends_ok V E \<Longrightarrow> ends_ok V (insert (edge_of u v d) E)"
  by (auto simp: ends_ok_def edge_of_def)

lemma fst_edge_of [simp]: "fst (edge_of u v d) = d"
  by (simp add: edge_of_def)

lemma card_insert_edge:
  assumes "finite E" "edge_of u v d \<notin> E"
  shows "card (insert (edge_of u v d) E) = card E + 1"
    "card {e \<in> insert (edge_of u v d) E. fst e} = card {e \<in> E. fst e} + (if d then 1 else 0)"
proof -
  show "card (insert (edge_of u v d) E) = card E + 1" using assms by simp
  have "{e \<in> insert (edge_of u v d) E. fst e} = (if d then insert (edge_of u v d) {e \<in> E. fst e} else {e \<in> E. fst e})" by auto
  then show "card {e \<in> insert (edge_of u v d) E. fst e} = card {e \<in> E. fst e} + (if d then 1 else 0)" using assms by (cases d) simp_all
qed

lemma edge_key_eq:
  "good_id u \<Longrightarrow> good_id v \<Longrightarrow> good_id x \<Longrightarrow> good_id y \<Longrightarrow> edge_key u v d = ekey (d', x, y) \<longleftrightarrow> edge_of u v d = (d', x, y)"
  using ekey_inject by (auto simp: edge_key_def edge_of_def)

lemma edge_key_dom:
  assumes "represents m V E" "good_id u" "good_id v"
  shows "m (edge_key u v d) \<noteq> None \<longleftrightarrow> edge_of u v d \<in> E"
  using representsD(5) [OF assms(1)] assms(2,3) edge_of_parts [of u v d] unfolding edge_key_def by metis

lemma add_edge_refines:
  assumes rep: "represents (map_of s) V E" and uv: "u \<noteq> [62]" "v \<noteq> [62]" and f: "f_add_edge u v d props s = (r, s')"
  shows "if u = v \<or> bad_id u \<or> bad_id v then r = Inl JKeyError \<and> s' = s
    else (\<exists>b. r = Inr b) \<and> represents (map_of s') (insert u (insert v V)) (insert (edge_of u v d) E)"
proof (cases "u = v \<or> bad_id u \<or> bad_id v")
  case False
  then have g: "good_id u" "good_id v" "u \<noteq> v" using uv by (simp_all add: good_id_def)
  note D = representsD [OF rep]
  note dom = edge_key_dom [OF rep g(1,2), of d]
  show ?thesis
  proof (cases "f_has_edge u v d s")
    case True
    obtain b t where m: "merge_props (edge_key u v d) props s = (b, t)" by (metis surj_pair)
    have k: "map_of s (edge_key u v d) \<noteq> None" using True by (simp add: f_has_edge_def)
    then have e: "edge_of u v d \<in> E" using dom by simp
    then have "u \<in> V" "v \<in> V" using D(3) edge_of_parts [of u v d] unfolding ends_ok_def by fastforce+
    moreover have "represents (map_of t) V E" using merge_props_represents [OF rep k, of undefined "edge_of u v d" props] m
      by (simp add: edge_key_def)
    ultimately show ?thesis using f False True m e by (auto simp: f_add_edge_def insert_absorb)
  next
    case no: False
    then have k: "map_of s (edge_key u v d) = None" by (simp add: f_has_edge_def)
    then have e: "edge_of u v d \<notin> E" using dom by simp
    define t1 where "t1 = new_node v (new_node u (count N_NODES s, s))"
    define t2 where "t2 = add_entry v (mark_in d # u) (add_entry u (mark_out d # v) (snd t1))"
    define t3 where "t3 = snd (rec_write False N_NODES (VInt (max 0 (fst t1))) t2)"
    define t4 where "t4 = assoc_set (edge_key u v d) (VDict props) t3"
    define t5 where "t5 = snd (rec_write False N_EDGES (VInt (max (count N_EDGES t4) 0 + 1)) t4)"
    define t6 where "t6 = (if d then snd (rec_write False N_DIRECTED (VInt (max (count N_DIRECTED t5) 0 + 1)) t5) else t5)"
    have n1: "map_of (snd t1) x = (if (x = node_key u \<or> x = node_key v) \<and> map_of s x = None then Some (VDict []) else map_of s x)"
      "fst t1 = count N_NODES s + (if map_of s (node_key u) = None then 1 else 0) + (if map_of s (node_key v) = None then 1 else 0)" for x
    proof -
      obtain n t where nt: "new_node u (count N_NODES s, s) = (n, t)" by (metis surj_pair)
      have t1: "t1 = new_node v (n, t)" by (simp add: t1_def nt)
      note a = new_node_map [of u "count N_NODES s" s, unfolded nt, simplified] and b = new_node_map [of v n t]
      show "map_of (snd t1) x = (if (x = node_key u \<or> x = node_key v) \<and> map_of s x = None then Some (VDict []) else map_of s x)"
        unfolding t1 b(1) a(1) by auto
      show "fst t1 = count N_NODES s + (if map_of s (node_key u) = None then 1 else 0) + (if map_of s (node_key v) = None then 1 else 0)"
        unfolding t1 b(2) unfolding a using g(3) by auto
    qed
    have a1: "adj_of (map_of (snd t1)) x = adj_of (map_of s) x" for x by (simp add: adj_of_def n1)
    have o2: "map_of t2 x = map_of (snd t1) x" if "\<And>y. x \<noteq> adj_key y" for x
      using that by (simp add: t2_def add_entry_map)
    have a2: "distinct (adj_of (map_of t2) x)" "set (adj_of (map_of t2) x) = incident (insert (edge_of u v d) E) x" if "good_id x" for x
    proof -
      have d: "distinct (adj_of (map_of s) x)" "set (adj_of (map_of s) x) = incident E x" using D(6,7) [OF that] .
      show "distinct (adj_of (map_of t2) x)"
        using d(1) add_entry_map(2,4) a1 unfolding t2_def by (cases "x = u"; cases "x = v") (simp_all add: g(3))
      show "set (adj_of (map_of t2) x) = incident (insert (edge_of u v d) E) x"
        unfolding incident_insert [OF g(3)] t2_def using d(2) a1 g(3)
        by (cases "x = u"; cases "x = v") (simp_all add: add_entry_map)
    qed
    have k3: "map_of t3 (edge_key u v d) = None" using k by (simp add: t3_def o2 n1)
    then have "rec_write False (edge_key u v d) (VDict props) t3 = (True, t4)" by (simp add: rec_write_def t4_def)
    then have r: "r = Inr True" "s' = t6"
      using f False no unfolding f_add_edge_def t6_def t5_def t3_def t2_def t1_def Let_def
      by (auto split: prod.splits)
    have c2: "count_of (map_of t2) c = count_of (map_of s) c" if "c \<in> {N_NODES, N_EDGES, N_DIRECTED}" for c
      using that o2 n1 by (auto simp: count_of_def)
    have m6: "map_of t6 x = (if x = N_NODES \<or> x = N_EDGES \<or> d \<and> x = N_DIRECTED then map_of t6 x
        else if x = edge_key u v d then Some (VDict props) else map_of t2 x)" for x
      by (simp add: t6_def t5_def t4_def t3_def)
    have adj: "adj_of (map_of t6) x = adj_of (map_of t2) x" for x
      by (simp add: t6_def t5_def t4_def t3_def)
    have cn: "count_of (map_of t6) N_NODES = max 0 (fst t1)"
        "count_of (map_of t6) N_EDGES = int (card E) + 1"
        "count_of (map_of t6) N_DIRECTED = int (card {e \<in> E. fst e}) + (if d then 1 else 0)"
      using D(9,10) c2 by (simp_all add: t6_def t5_def t4_def t3_def reads_of)
    have cardV: "int (card (insert u (insert v V))) = max 0 (fst t1)"
      unfolding n1(2) reads_of D(8) using D(1) D(4) [OF g(1)] D(4) [OF g(2)] g(3) by (auto simp: card_insert_if)
    have "represents (map_of t6) (insert u (insert v V)) (insert (edge_of u v d) E)"
      unfolding represents_def
    proof (intro conjI allI impI)
      show "finite (insert u (insert v V))" using D(1) by simp
      show "\<forall>u \<in> insert u (insert v V). good_id u" using D(2) g by simp
      show "ends_ok (insert u (insert v V)) (insert (edge_of u v d) E)"
        using D(3) g(3) by (intro ends_ok_edge) (auto simp: ends_ok_def)
      show "map_of t6 (node_key x) \<noteq> None \<longleftrightarrow> x \<in> insert u (insert v V)" if "good_id x" for x
        using D(4) [OF that] by (subst m6) (auto simp: o2 n1)
      show "map_of t6 (ekey (d', x, y)) \<noteq> None \<longleftrightarrow> (d', x, y) \<in> insert (edge_of u v d) E" if "good_id x \<and> good_id y" for d' x y
      proof -
        have "map_of t6 (ekey (d', x, y)) = (if edge_key u v d = ekey (d', x, y) then Some (VDict props) else map_of s (ekey (d', x, y)))"
          by (subst m6) (simp add: o2 n1 eq_commute)
        moreover have "edge_key u v d = ekey (d', x, y) \<longleftrightarrow> edge_of u v d = (d', x, y)" using edge_key_eq g that by blast
        moreover have "map_of s (ekey (d', x, y)) \<noteq> None \<longleftrightarrow> (d', x, y) \<in> E" using D(5) that by blast
        ultimately show ?thesis by (cases "edge_of u v d = (d', x, y)") simp_all
      qed
      show "distinct (adj_of (map_of t6) x)" "set (adj_of (map_of t6) x) = incident (insert (edge_of u v d) E) x" if "good_id x" for x
        using a2 [OF that] by (simp_all only: adj)
      show "count_of (map_of t6) N_NODES = int (card (insert u (insert v V)))" using cn(1) cardV by simp
      show "count_of (map_of t6) N_EDGES = int (card (insert (edge_of u v d) E))"
        "count_of (map_of t6) N_DIRECTED = int (card {e \<in> insert (edge_of u v d) E. fst e})"
        using cn(2,3) card_insert_edge [OF D(11) e] by simp_all
    qed
    then show ?thesis using False r by (auto intro: exI [of _ True])
  qed
qed (use f in \<open>auto simp: f_add_edge_def\<close>)

section \<open>Removing an edge\<close>

lemma del_entry_map:
  "k \<noteq> adj_key u \<Longrightarrow> map_of (del_entry u e s) k = map_of s k"
  "x \<noteq> u \<Longrightarrow> adj_of (map_of (del_entry u e s)) x = adj_of (map_of s) x"
  "distinct (adj_of (map_of s) u) \<Longrightarrow> set (adj_of (map_of (del_entry u e s)) u) = set (adj_of (map_of s) u) - {e}"
  "distinct (adj_of (map_of s) u) \<Longrightarrow> distinct (adj_of (map_of (del_entry u e s)) u)"
  by (auto simp: del_entry_def Let_def reads_of)

lemma card_remove_edge:
  assumes "finite E" "edge_of u v d \<in> E"
  shows "card (E - {edge_of u v d}) = card E - 1" "0 < card E"
    "card {e \<in> E - {edge_of u v d}. fst e} = card {e \<in> E. fst e} - (if d then 1 else 0)"
    "d \<Longrightarrow> 0 < card {e \<in> E. fst e}"
proof -
  show "card (E - {edge_of u v d}) = card E - 1" "0 < card E" using assms by (auto simp: card_gt_0_iff)
  have "{e \<in> E - {edge_of u v d}. fst e} = {e \<in> E. fst e} - (if d then {edge_of u v d} else {})" by auto
  then show "card {e \<in> E - {edge_of u v d}. fst e} = card {e \<in> E. fst e} - (if d then 1 else 0)"
    using assms by (cases d) simp_all
  show "0 < card {e \<in> E. fst e}" if d
  proof -
    have "edge_of u v d \<in> {e \<in> E. fst e}" using assms(2) that by simp
    moreover have "finite {e \<in> E. fst e}" using assms(1) by simp
    ultimately show ?thesis unfolding card_gt_0_iff by blast
  qed
qed

lemma remove_edge_refines:
  assumes rep: "represents (map_of s) V E" and g: "good_id u" "good_id v" and f: "f_remove_edge u v d s = (ret, s')"
  shows "represents (map_of s') V (E - {edge_of u v d}) \<and> (ret \<noteq> [] \<longleftrightarrow> edge_of u v d \<in> E)"
proof -
  note D = representsD [OF rep]
  note dom = edge_key_dom [OF rep g, of d]
  show ?thesis
  proof (cases "map_of s (edge_key u v d)")
    case None
    then have "edge_of u v d \<notin> E" using dom by simp
    then show ?thesis using f None rep by (simp add: f_remove_edge_def)
  next
    case (Some pr)
    then have e: "edge_of u v d \<in> E" using dom by simp
    then have uv: "u \<noteq> v" using D(3) edge_of_parts [of u v d] unfolding ends_ok_def by fastforce
    define t1 where "t1 = assoc_del (edge_key u v d) s"
    define t2 where "t2 = snd (rec_write False N_EDGES (VInt (max 0 (count N_EDGES t1 - 1))) t1)"
    define t3 where "t3 = (if d then snd (rec_write False N_DIRECTED (VInt (max 0 (count N_DIRECTED t2 - 1))) t2) else t2)"
    define t4 where "t4 = del_entry u (mark_out d # v) t3"
    define t5 where "t5 = del_entry v (mark_in d # u) t4"
    have r: "ret = [(edge_key u v d, pr)]" "s' = t5"
      using f Some unfolding f_remove_edge_def t5_def t4_def t3_def t2_def t1_def Let_def by auto
    have o: "map_of t5 k = map_of t3 k" if "\<And>y. k \<noteq> adj_key y" for k
      using that by (simp add: t5_def t4_def del_entry_map)
    have a3: "adj_of (map_of t3) x = adj_of (map_of s) x" for x
      by (simp add: t3_def t2_def t1_def)
    have a5: "distinct (adj_of (map_of t5) x)" "set (adj_of (map_of t5) x) = incident (E - {edge_of u v d}) x" if "good_id x" for x
    proof -
      have d: "distinct (adj_of (map_of s) x)" "set (adj_of (map_of s) x) = incident E x" using D(6,7) [OF that] .
      show "distinct (adj_of (map_of t5) x)"
        using d(1) del_entry_map(2,4) a3 unfolding t5_def t4_def by (cases "x = u"; cases "x = v") (simp_all add: uv)
      show "set (adj_of (map_of t5) x) = incident (E - {edge_of u v d}) x"
        unfolding incident_remove [OF uv] t5_def t4_def using d a3 uv
        by (cases "x = u"; cases "x = v") (simp_all add: del_entry_map)
    qed
    have k3: "map_of t3 (ekey x) = (if ekey x = edge_key u v d then None else map_of s (ekey x))" for x
      by (simp add: t3_def t2_def t1_def)
    have n3: "map_of t3 (node_key x) = map_of s (node_key x)" for x by (simp add: t3_def t2_def t1_def)
    have "count_of (map_of t5) c = count_of (map_of t3) c" if "c \<in> {N_NODES, N_EDGES, N_DIRECTED}" for c
      using that o by (auto simp: count_of_def)
    then have cn: "count_of (map_of t5) N_NODES = int (card V)" "count_of (map_of t5) N_EDGES = int (card (E - {edge_of u v d}))"
        "count_of (map_of t5) N_DIRECTED = int (card {x \<in> E - {edge_of u v d}. fst x})"
      using D(8-10) card_remove_edge [OF D(11) e] by (auto simp: t3_def t2_def t1_def reads_of)
    have "represents (map_of t5) V (E - {edge_of u v d})"
      unfolding represents_def
    proof (intro conjI allI impI)
      show "finite V" "\<forall>u \<in> V. good_id u" "ends_ok V (E - {edge_of u v d})" using D(1-3) by (auto simp: ends_ok_def)
      show "map_of t5 (node_key x) \<noteq> None \<longleftrightarrow> x \<in> V" if "good_id x" for x using D(4) [OF that] by (simp add: o n3)
      show "map_of t5 (ekey (d', x, y)) \<noteq> None \<longleftrightarrow> (d', x, y) \<in> E - {edge_of u v d}" if "good_id x \<and> good_id y" for d' x y
      proof -
        have "edge_key u v d = ekey (d', x, y) \<longleftrightarrow> edge_of u v d = (d', x, y)" using edge_key_eq g that by blast
        moreover have "map_of s (ekey (d', x, y)) \<noteq> None \<longleftrightarrow> (d', x, y) \<in> E" using D(5) that by blast
        ultimately show ?thesis by (cases "edge_of u v d = (d', x, y)") (simp_all add: o k3 eq_commute)
      qed
    qed (use a5 cn in simp_all)
    then show ?thesis using e r by simp
  qed
qed

section \<open>Removing a node\<close>

definition touching :: "(bool \<times> gid \<times> gid) set \<Rightarrow> gid \<Rightarrow> (bool \<times> gid \<times> gid) set" where
  "touching E u = {e \<in> E. fst (snd e) = u \<or> snd (snd e) = u}"

definition entry_edge :: "gid \<Rightarrow> nat list \<Rightarrow> bool \<times> gid \<times> gid" where
  "entry_edge u e = (if hd e = 60 then (True, tl e, u) else edge_of u (tl e) (hd e = 62))"

lemma entry_key_edge: "entry_key u e = ekey (entry_edge u e)"
  by (simp add: entry_key_def entry_edge_def edge_key_def edge_of_def)

lemma entry_edge_simps [simp]:
  "entry_edge u (62 # v) = (True, u, v)" "entry_edge u (60 # v) = (True, v, u)" "entry_edge u (45 # v) = edge_of u v False"
  by (simp_all add: entry_edge_def edge_of_def)

lemma entry_edge_bij:
  assumes ok: "ends_ok V E"
  shows "bij_betw (entry_edge u) (incident E u) (touching E u)"
proof (rule bij_betwI')
  fix e e' assume e: "e \<in> incident E u" "e' \<in> incident E u"
  have ne: "(d, a, b) \<in> E \<Longrightarrow> a \<noteq> b" for d a b using ok by (auto simp: ends_ok_def)
  obtain v v' where v: "e = 62 # v \<or> e = 60 # v \<or> e = 45 # v" "e' = 62 # v' \<or> e' = 60 # v' \<or> e' = 45 # v'"
    using incident_forms e by metis
  have "e = e'" if "entry_edge u e = entry_edge u e'"
    using v e that ne by (elim disjE) (auto simp: incident_mem edge_of_def split: if_splits)
  then show "entry_edge u e = entry_edge u e' \<longleftrightarrow> e = e'" by blast
next
  fix e assume e: "e \<in> incident E u"
  then obtain v where "e = 62 # v \<or> e = 60 # v \<or> e = 45 # v" using incident_forms by metis
  then show "entry_edge u e \<in> touching E u"
    using e by (elim disjE) (auto simp: incident_mem touching_def edge_of_def split: if_splits)
next
  fix x assume x: "x \<in> touching E u"
  obtain d a b where dab: "x = (d, a, b)" by (metis prod_cases3)
  have eo: "edge_of a b d = (d, a, b)" "x \<in> E" "a = u \<or> b = u" using x ok by (auto simp: touching_def ends_ok_def dab)
  have "(if d then if a = u then 62 # b else 60 # a else 45 # (if a = u then b else a)) \<in> incident E u \<and>
      x = entry_edge u (if d then if a = u then 62 # b else 60 # a else 45 # (if a = u then b else a))"
    using eo edge_of_sym [of b a] by (cases d) (auto simp: dab incident_mem)
  then show "\<exists>e \<in> incident E u. x = entry_edge u e" by blast
qed

text \<open>The other end lists the edge as well.\<close>

lemma incident_back: "(\<exists>e \<in> incident E u. tl e = x) \<longleftrightarrow> (\<exists>e \<in> incident E x. tl e = u)"
proof -
  have "\<exists>e' \<in> incident E x. tl e' = u" if ex: "e \<in> incident E u" "tl e = x" for e x u
  proof -
    obtain v where "e = 62 # v \<or> e = 60 # v \<or> e = 45 # v" using incident_forms [OF ex(1)] by blast
    then have "62 # u \<in> incident E x \<or> 60 # u \<in> incident E x \<or> 45 # u \<in> incident E x"
      unfolding incident_mem edge_of_sym [of x u] using ex by (auto simp: incident_mem)
    then show ?thesis by force
  qed
  then show ?thesis by blast
qed

lemma incident_without:
  assumes "x \<noteq> u"
  shows "incident (E - touching E u) x = {e \<in> incident E x. tl e \<noteq> u}"
  using assms incident_forms [of _ E x]
  by (intro incident_eqI [symmetric]) (auto simp: incident_mem touching_def edge_of_def split: if_splits)

lemma incident_self: "incident (E - touching E u) u = {}"
  by (auto simp: incident_def touching_def edge_of_def split: if_splits)

text \<open>The state of \<open>collect\<close> after the entries \<open>es\<close>.\<close>

abbreviation pruned :: "(nat list \<Rightarrow> pyval option) \<Rightarrow> gid \<Rightarrow> gid \<Rightarrow> nat list list" where
  "pruned m u x \<equiv> filter (\<lambda>e. tl e \<noteq> u) (adj_of m x)"

definition collected :: "(nat list \<Rightarrow> pyval option) \<Rightarrow> gid \<Rightarrow> nat list list \<Rightarrow> nat list list
    \<Rightarrow> nat list list \<times> nat list list \<times> kv \<Rightarrow> bool" where
  "collected m u ks0 es = (\<lambda>(ks, cl, t).
     set cl = adj_key ` tl ` set es \<and> distinct ks \<and>
     set ks = set ks0 \<union> entry_key u ` set es \<union> adj_key ` {x \<in> tl ` set es. pruned m u x = []} \<and>
     (\<forall>k. k \<notin> adj_key ` tl ` set es \<longrightarrow> map_of t k = m k) \<and>
     (\<forall>x \<in> tl ` set es. map_of t (adj_key x) \<noteq> None \<and>
        adj_of (map_of t) x = (if pruned m u x = [] then adj_of m x else pruned m u x)))"

lemma collect_all:
  assumes "map_of s = m" "distinct ks0" "set ks0 \<subseteq> {node_key u, adj_key u}" "distinct es" "inj_on (entry_key u) (set es)"
    and "\<And>e. e \<in> set es \<Longrightarrow> m (entry_key u e) \<noteq> None \<and> m (adj_key (tl e)) \<noteq> None \<and> tl e \<noteq> u"
  shows "collected m u ks0 es (fold (collect u) es (ks0, [], s))"
  using assms(4-)
proof (induction es rule: rev_induct)
  case Nil
  then show ?case using assms(1,2) by (simp add: collected_def)
next
  case (snoc e es)
  obtain ks cl t where st: "fold (collect u) es (ks0, [], s) = (ks, cl, t)" by (metis prod_cases3)
  have "collected m u ks0 es (ks, cl, t)" using snoc st by (simp add: inj_on_insert)
  then have c: "set cl = adj_key ` tl ` set es" "distinct ks"
      "set ks = set ks0 \<union> entry_key u ` set es \<union> adj_key ` {x \<in> tl ` set es. pruned m u x = []}"
      "\<And>k. k \<notin> adj_key ` tl ` set es \<Longrightarrow> map_of t k = m k"
      "\<And>x. x \<in> tl ` set es \<Longrightarrow> map_of t (adj_key x) \<noteq> None \<and> adj_of (map_of t) x = (if pruned m u x = [] then adj_of m x else pruned m u x)"
    by (auto simp: collected_def)
  let ?x = "tl e"
  have e: "m (entry_key u e) \<noteq> None" "m (adj_key ?x) \<noteq> None" "?x \<noteq> u" using snoc.prems(3) [of e] by simp_all
  have kx: "entry_key u y \<noteq> adj_key z" "adj_key z \<noteq> entry_key u y" "entry_key u y \<noteq> node_key z" for y z by (simp_all add: entry_key_edge)
  have nk: "entry_key u e \<notin> entry_key u ` set es" using snoc.prems(1,2) by (auto simp: inj_on_def)
  have "map_of t (entry_key u e) = m (entry_key u e)" using kx by (intro c(4)) auto
  then have step: "collect u e (ks, cl, t) = (let ks = ks @ [entry_key u e]; a = adj_key ?x in
      if map_of t a \<noteq> None \<and> a \<notin> set cl \<and> a \<notin> set ks then
          let old = entries (rec_read a (VList []) t); new = filter (\<lambda>x. tl x \<noteq> u) old
          in (if new = [] then ks @ [a] else ks, a # cl, if new \<noteq> [] \<and> new \<noteq> old then snd (rec_write True a (blob new) t) else t)
      else (ks, cl, t))"
    using e(1) by (simp add: collect_def)
  have dk: "distinct (ks @ [entry_key u e])"
    using c(2,3) nk kx assms(3) by auto
  show ?case
  proof (cases "?x \<in> tl ` set es")
    case True
    then have "collect u e (ks, cl, t) = (ks @ [entry_key u e], cl, t)" unfolding step by (simp add: c(1) Let_def)
    moreover have "tl ` set (es @ [e]) = tl ` set es" using True by auto
    ultimately show ?thesis using st c dk by (simp add: collected_def)
  next
    case False
    have a: "adj_key ?x \<notin> set cl" "adj_key ?x \<notin> set (ks @ [entry_key u e])" "map_of t (adj_key ?x) = m (adj_key ?x)"
      using False c(1,3) kx assms(3) e(3) by (auto intro: c(4))
    have old: "entries (rec_read (adj_key ?x) (VList []) t) = adj_of m ?x"
      using a(3) e(2) by (auto simp: rec_read_def adj_of_def split: option.split)
    define t' where "t' = (if pruned m u ?x \<noteq> [] \<and> pruned m u ?x \<noteq> adj_of m ?x
      then snd (rec_write True (adj_key ?x) (blob (pruned m u ?x)) t) else t)"
    have cs: "collect u e (ks, cl, t) = (if pruned m u ?x = [] then (ks @ [entry_key u e]) @ [adj_key ?x] else ks @ [entry_key u e], adj_key ?x # cl, t')"
      unfolding step Let_def old t'_def using a e(2) by simp
    have m': "map_of t' k = map_of t k" if "k \<noteq> adj_key ?x" for k using that by (simp add: t'_def)
    have ax: "map_of t' (adj_key ?x) \<noteq> None" "adj_of (map_of t') ?x = (if pruned m u ?x = [] then adj_of m ?x else pruned m u ?x)"
      using a(3) e(2) by (auto simp: t'_def adj_of_def)
    have ao: "adj_of (map_of t') x = adj_of (map_of t) x" if "x \<noteq> ?x" for x using that by (simp add: t'_def)
    have "collected m u ks0 (es @ [e]) (collect u e (ks, cl, t))"
      unfolding collected_def cs prod.case
    proof (intro conjI ballI allI impI)
      show "set (adj_key ?x # cl) = adj_key ` tl ` set (es @ [e])" using c(1) by simp
      show "distinct (if pruned m u ?x = [] then (ks @ [entry_key u e]) @ [adj_key ?x] else ks @ [entry_key u e])"
        using dk a(2) kx by simp
      show "set (if pruned m u ?x = [] then (ks @ [entry_key u e]) @ [adj_key ?x] else ks @ [entry_key u e]) =
          set ks0 \<union> entry_key u ` set (es @ [e]) \<union> adj_key ` {x \<in> tl ` set (es @ [e]). pruned m u x = []}"
        using c(3) by auto
      show "map_of t' k = m k" if "k \<notin> adj_key ` tl ` set (es @ [e])" for k using that c(4) m' by auto
      fix x assume "x \<in> tl ` set (es @ [e])"
      then show "map_of t' (adj_key x) \<noteq> None" "adj_of (map_of t') x = (if pruned m u x = [] then adj_of m x else pruned m u x)"
        using ax ao c(5) m' by (cases "x = ?x"; auto)+
    qed
    then show ?thesis using st by simp
  qed
qed

lemma delete_keys_all:
  "distinct ks \<Longrightarrow> (\<And>k. k \<in> set ks \<Longrightarrow> map_of s k \<noteq> None) \<Longrightarrow>
     delete_keys ks ret s = (Inr (ret @ map (\<lambda>k. (k, the (map_of s k))) ks), fold assoc_del ks s)"
proof (induction ks arbitrary: ret s)
  case (Cons k ks)
  obtain v where v: "map_of s k = Some v" using Cons.prems(2) by fastforce
  have "map (\<lambda>k'. (k', the (map_of (assoc_del k s) k'))) ks = map (\<lambda>k. (k, the (map_of s k))) ks"
    using Cons.prems(1) by (intro map_cong) auto
  moreover have "map_of (assoc_del k s) k' \<noteq> None" if "k' \<in> set ks" for k'
    using Cons.prems that by auto
  ultimately show ?case using v Cons.IH [of "assoc_del k s" "ret @ [(k, v)]"] Cons.prems(1) by simp
qed simp

text \<open>Which deleted keys count as directed edges.\<close>

abbreviation at_sub :: "nat list \<Rightarrow> nat \<Rightarrow> bool" where
  "at_sub k i \<equiv> take 3 (drop i k) = [58, 62, 58]"

lemma at_sub_parts:
  assumes "58 \<notin> set w"
  shows "(\<exists>i. at_sub (w @ 58 # r) i) \<longleftrightarrow> take 2 r = [62, 58] \<or> (\<exists>i. at_sub r i)"
proof
  assume "\<exists>i. at_sub (w @ 58 # r) i"
  then obtain i where i: "at_sub (w @ 58 # r) i" ..
  then have l: "i < length (w @ 58 # r)" by (cases "i < length (w @ 58 # r)") simp_all
  then have "(w @ 58 # r) ! i = 58" using i by (metis Cons_nth_drop_Suc list.inject take_Suc_Cons numeral_3_eq_3)
  then have w: "length w \<le> i" using assms by (metis not_le nth_append nth_mem)
  show "take 2 r = [62, 58] \<or> (\<exists>i. at_sub r i)"
  proof (cases "i = length w")
    case True
    then show ?thesis using i by (simp add: numeral_3_eq_3 numeral_2_eq_2)
  next
    case False
    then have "drop i (w @ 58 # r) = drop (i - length w - 1) r" using w by (simp add: drop_Cons')
    then show ?thesis using i by auto
  qed
next
  assume "take 2 r = [62, 58] \<or> (\<exists>i. at_sub r i)"
  then show "\<exists>i. at_sub (w @ 58 # r) i"
  proof
    assume "take 2 r = [62, 58]"
    then show ?thesis by (intro exI [of _ "length w"]) (simp add: numeral_3_eq_3 numeral_2_eq_2)
  next
    assume "\<exists>i. at_sub r i"
    then obtain i where "at_sub r i" ..
    then show ?thesis by (intro exI [of _ "length w + 1 + i"]) (simp add: drop_Cons')
  qed
qed

lemma two_chars: "58 \<notin> set w \<Longrightarrow> w \<noteq> [] \<Longrightarrow> take 2 (w @ 58 # r) = [62, 58] \<longleftrightarrow> w = [62]"
  by (cases w rule: remdups_adj.cases) (auto simp: numeral_2_eq_2)

lemma sub_in_ekey:
  assumes "good_id u" "good_id v"
  shows "(\<exists>i. at_sub (ekey (d, u, v)) i) \<longleftrightarrow> d"
proof -
  have c: "58 \<notin> set u" "58 \<notin> set v" "u \<noteq> []" "v \<noteq> []" "u \<noteq> [62]" "v \<noteq> [62]" using assms by (simp_all add: good_id_def bad_id_def)
  have e: "ekey (d, u, v) = [69] @ 58 # (u @ 58 # ([if d then 62 else 45] @ 58 # (v @ 58 # [])))" by (simp add: ekey_def)
  have p: "58 \<notin> set [69::nat]" "58 \<notin> set [if d then 62 else 45::nat]" by simp_all
  have "(\<exists>i. at_sub (ekey (d, u, v)) i) \<longleftrightarrow> u = [62] \<or> take 2 ([if d then 62 else 45] @ 58 # (v @ 58 # [])) = [62, 58] \<or>
      v = [62] \<or> take 2 [] = [62, 58 :: nat] \<or> (\<exists>i. at_sub [] i)"
    unfolding e at_sub_parts [OF p(1)] at_sub_parts [OF c(1)] at_sub_parts [OF p(2)] at_sub_parts [OF c(2)]
      two_chars [OF c(1,3)] two_chars [OF c(2,4)] by (rule refl)
  then show ?thesis using c by simp
qed

lemma sub_late:
  assumes "good_id u" "at_sub (ekey (d, u, v)) i"
  shows "3 \<le> i"
proof (rule ccontr)
  assume "\<not> 3 \<le> i"
  then consider "i = 0" | "i = 1" | "i = 2" by linarith
  moreover obtain a w where u: "u = a # w" "a \<noteq> 58" using assms(1) by (cases u) (auto simp: good_id_def bad_id_def)
  moreover have "w = [] \<and> a \<noteq> 62 \<or> (\<exists>b w'. w = b # w' \<and> b \<noteq> 58)" using assms(1) u by (cases w) (auto simp: good_id_def bad_id_def)
  ultimately show False using assms(2) by cases (auto simp: ekey_def numeral_3_eq_3 numeral_2_eq_2)
qed

lemma counts_keys:
  "counts_node (node_key u)" "\<not> counts_node (adj_key u)" "\<not> counts_node (ekey e)"
  "\<not> counts_edge (node_key u)" "\<not> counts_edge (adj_key u)" "counts_edge (ekey e)"
  "\<not> counts_directed (node_key u)" "\<not> counts_directed (adj_key u)"
  "good_id x \<Longrightarrow> good_id y \<Longrightarrow> counts_directed (ekey (d, x, y)) \<longleftrightarrow> d"
proof -
  show "counts_node (node_key u)" "\<not> counts_node (adj_key u)" "\<not> counts_node (ekey e)"
    "\<not> counts_edge (node_key u)" "\<not> counts_edge (adj_key u)" "counts_edge (ekey e)"
    "\<not> counts_directed (node_key u)" "\<not> counts_directed (adj_key u)"
    by (auto simp: counts_node_def counts_edge_def counts_directed_def node_key_def adj_key_def ekey_def split: prod.split)
  assume g: "good_id x" "good_id y"
  have e: "counts_edge (ekey (d, x, y))" by (simp add: counts_edge_def ekey_def)
  show "counts_directed (ekey (d, x, y)) \<longleftrightarrow> d"
  proof (cases "find_sub [58, 62, 58] (ekey (d, x, y))")
    case None
    have "\<not> at_sub (ekey (d, x, y)) i" for i
      using None by (cases "i < length (ekey (d, x, y))") (auto simp: find_sub_def find_None_iff numeral_3_eq_3)
    then show ?thesis using None sub_in_ekey [OF g, of d] by (simp add: counts_directed_def)
  next
    case (Some i)
    then have "at_sub (ekey (d, x, y)) i" by (auto simp: find_sub_def find_Some_iff numeral_3_eq_3)
    then show ?thesis using Some e sub_in_ekey [OF g, of d] sub_late [OF g(1)] by (auto simp: counts_directed_def)
  qed
qed

lemma length_filter_card: "distinct ks \<Longrightarrow> length (filter P ks) = card {k \<in> set ks. P k}"
  by (metis distinct_card distinct_filter set_filter)

text \<open>The entries of a node that is removed: each has its edge, its key and a neighbour's list.\<close>

lemma good_ends:
  assumes "represents m V E" "(d, x, y) \<in> E"
  shows "good_id x \<and> good_id y"
  using representsD(2) [OF assms(1)] representsD(3) [OF assms(1)] assms(2) by (auto simp: ends_ok_def)

lemma entry_touches: "ends_ok V E \<Longrightarrow> entry_edge u ` incident E u = touching E u"
  using entry_edge_bij by (simp add: bij_betw_def)

lemma entry_key_is:
  assumes rep: "represents m V E" and e: "e \<in> incident E u" and g: "good_id x" "good_id y"
  shows "entry_key u e = ekey (d, x, y) \<longleftrightarrow> entry_edge u e = (d, x, y)"
proof -
  obtain d' a b where ab: "entry_edge u e = (d', a, b)" by (metis prod_cases3)
  have "entry_edge u e \<in> E" using e entry_touches [OF representsD(3) [OF rep], of u] by (auto simp: touching_def)
  then have "good_id a \<and> good_id b" using good_ends [OF rep] ab by simp
  then show ?thesis using ekey_inject g by (simp add: entry_key_edge ab)
qed

lemma entry_in_store:
  assumes rep: "represents m V E" and e: "e \<in> incident E u"
  shows "m (entry_key u e) \<noteq> None" "m (adj_key (tl e)) \<noteq> None" "tl e \<noteq> u" "good_id (tl e)"
proof -
  note D = representsD [OF rep]
  obtain d a b where ab: "entry_edge u e = (d, a, b)" by (metis prod_cases3)
  have "(d, a, b) \<in> touching E u" using e entry_touches [OF D(3), of u] ab by force
  then have E: "(d, a, b) \<in> E" by (simp add: touching_def)
  then show "m (entry_key u e) \<noteq> None" using D(5) good_ends [OF rep E] by (simp add: entry_key_edge ab)
  obtain v where v: "e = 62 # v \<or> e = 60 # v \<or> e = 45 # v" using incident_forms e by blast
  then have "(u = a \<and> v = b) \<or> (u = b \<and> v = a)" using ab edge_of_parts [of u v False] by auto
  then show "tl e \<noteq> u" and gt: "good_id (tl e)" using v good_ends [OF rep E] E D(3) by (auto simp: ends_ok_def)
  have "\<exists>e' \<in> incident E (tl e). tl e' = u" using incident_back e by blast
  then have "adj_of m (tl e) \<noteq> []" using D(7) [OF gt] by force
  then show "m (adj_key (tl e)) \<noteq> None" by (auto simp: adj_of_def split: option.splits)
qed

lemma entry_key_inj:
  assumes rep: "represents m V E"
  shows "inj_on (entry_key u) (incident E u)"
proof (rule inj_onI)
  fix e e' assume e: "e \<in> incident E u" "e' \<in> incident E u" "entry_key u e = entry_key u e'"
  note bij = entry_edge_bij [OF representsD(3) [OF rep], of u]
  obtain d a b where ab: "entry_edge u e' = (d, a, b)" by (metis prod_cases3)
  have "(d, a, b) \<in> E" using e(2) entry_touches [OF representsD(3) [OF rep], of u] ab by (force simp: touching_def)
  then have "entry_edge u e = (d, a, b)" using entry_key_is [OF rep e(1)] good_ends [OF rep] e(3) by (simp add: entry_key_edge ab)
  then show "e = e'" using bij e(1,2) ab unfolding bij_betw_def inj_on_def by metis
qed

text \<open>The keys \<open>ks\<close> that a removal of \<open>u\<close> collects, and the records \<open>t\<close> it leaves behind.\<close>

definition removal :: "(nat list \<Rightarrow> pyval option) \<Rightarrow> gid set \<Rightarrow> (bool \<times> gid \<times> gid) set \<Rightarrow> gid \<Rightarrow> nat list list \<Rightarrow> (nat list \<Rightarrow> pyval option) \<Rightarrow> bool" where
  "removal m V E u ks t \<longleftrightarrow> distinct ks \<and>
     (\<exists>A \<subseteq> range adj_key. set ks = (if u \<in> V then {node_key u} else {}) \<union> entry_key u ` incident E u \<union> A) \<and>
     (\<forall>k \<in> set ks. t k \<noteq> None) \<and> (\<forall>k. k \<notin> range adj_key \<longrightarrow> t k = m k) \<and>
     (\<forall>x. good_id x \<longrightarrow> adj_of (t |` (- set ks)) x = (if x = u then [] else pruned m u x))"

lemma not_adj [simp]:
  "node_key x \<notin> range adj_key" "ekey e \<notin> range adj_key" "entry_key u x \<notin> range adj_key"
  "N_NODES \<notin> range adj_key" "N_EDGES \<notin> range adj_key" "N_DIRECTED \<notin> range adj_key"
  by (auto simp: entry_key_edge)

lemma removal_same: "removal m V E u ks t \<Longrightarrow> k \<notin> range adj_key \<Longrightarrow> t k = m k"
  by (simp add: removal_def)

lemma removal_keys:
  assumes rep: "represents m V E" and r: "removal m V E u ks t"
  shows "node_key x \<in> set ks \<longleftrightarrow> x = u \<and> u \<in> V"
    and "N \<in> {N_NODES, N_EDGES, N_DIRECTED} \<Longrightarrow> N \<notin> set ks"
    and "good_id y \<Longrightarrow> good_id z \<Longrightarrow> ekey (d, y, z) \<in> set ks \<longleftrightarrow> (d, y, z) \<in> touching E u"
proof -
  obtain A where A: "A \<subseteq> range adj_key" "set ks = (if u \<in> V then {node_key u} else {}) \<union> entry_key u ` incident E u \<union> A"
    using r by (auto simp: removal_def)
  have kx: "entry_key u y \<noteq> node_key z" "node_key z \<noteq> entry_key u y" "N \<in> {N_NODES, N_EDGES, N_DIRECTED} \<Longrightarrow> N \<noteq> entry_key u y" for y z N
    by (auto simp: entry_key_edge)
  have "node_key x \<notin> A" "\<forall>N \<in> {N_NODES, N_EDGES, N_DIRECTED}. N \<notin> A" "ekey e \<notin> A" for x e using A(1) by auto
  note a = this
  show "node_key x \<in> set ks \<longleftrightarrow> x = u \<and> u \<in> V" using a(1) kx unfolding A(2) by auto
  show "N \<in> {N_NODES, N_EDGES, N_DIRECTED} \<Longrightarrow> N \<notin> set ks" using a(2) kx(3) unfolding A(2) by auto
  assume g: "good_id y" "good_id z"
  have "ekey (d, y, z) \<in> set ks \<longleftrightarrow> (\<exists>e \<in> incident E u. entry_key u e = ekey (d, y, z))"
    using a(3) unfolding A(2) by (auto simp: image_iff) metis
  also have "\<dots> \<longleftrightarrow> (\<exists>e \<in> incident E u. entry_edge u e = (d, y, z))" using entry_key_is [OF rep _ g] by blast
  also have "\<dots> \<longleftrightarrow> (d, y, z) \<in> touching E u" unfolding entry_touches [OF representsD(3) [OF rep], symmetric] by force
  finally show "ekey (d, y, z) \<in> set ks \<longleftrightarrow> (d, y, z) \<in> touching E u" .
qed

lemma removal_counts:
  assumes rep: "represents m V E" and r: "removal m V E u ks t"
  shows "length (filter counts_node ks) = (if u \<in> V then 1 else 0)"
    and "length (filter counts_edge ks) = card (touching E u)"
    and "length (filter counts_directed ks) = card {e \<in> touching E u. fst e}"
proof -
  define I where "I = incident E u"
  note bij = entry_edge_bij [OF representsD(3) [OF rep], of u, folded I_def]
  note tE = entry_touches [OF representsD(3) [OF rep], of u, folded I_def]
  note inj = entry_key_inj [OF rep, of u, folded I_def]
  obtain A where A: "A \<subseteq> range adj_key" "set ks = (if u \<in> V then {node_key u} else {}) \<union> entry_key u ` I \<union> A" and d: "distinct ks"
    using r by (auto simp: removal_def I_def)
  have cd: "counts_directed (entry_key u e) \<longleftrightarrow> fst (entry_edge u e)" if "e \<in> I" for e
  proof -
    have "entry_edge u e \<in> E" using that tE by (auto simp: touching_def)
    then show ?thesis using good_ends [OF rep] counts_keys(9) by (cases "entry_edge u e") (simp add: entry_key_edge)
  qed
  have 1: "{k \<in> set ks. counts_node k} = (if u \<in> V then {node_key u} else {})"
    using A by (auto simp: counts_keys entry_key_edge)
  have 2: "{k \<in> set ks. counts_edge k} = entry_key u ` I"
    using A by (auto simp: counts_keys entry_key_edge)
  have 3: "{k \<in> set ks. counts_directed k} = entry_key u ` {e \<in> I. fst (entry_edge u e)}"
    using A by (auto simp: counts_keys cd)
  show "length (filter counts_node ks) = (if u \<in> V then 1 else 0)"
    unfolding length_filter_card [OF d] 1 by simp
  show "length (filter counts_edge ks) = card (touching E u)"
    unfolding length_filter_card [OF d] 2 card_image [OF inj] using bij_betw_same_card [OF bij] .
  have "card {e \<in> I. fst (entry_edge u e)} = card (entry_edge u ` {e \<in> I. fst (entry_edge u e)})"
    using bij by (intro card_image [symmetric]) (auto simp: bij_betw_def intro: inj_on_subset)
  also have "entry_edge u ` {e \<in> I. fst (entry_edge u e)} = {e \<in> touching E u. fst e}" unfolding tE [symmetric] by blast
  finally show "length (filter counts_directed ks) = card {e \<in> touching E u. fst e}"
    unfolding length_filter_card [OF d] 3 using card_image [OF inj_on_subset [OF inj], of "{e \<in> I. fst (entry_edge u e)}"] by auto
qed

text \<open>What is left represents the graph without the node, whatever the counters' records.\<close>

lemma removal_represents:
  assumes rep: "represents m V E" and r: "removal m V E u ks t"
    and m3: "\<And>k. k \<notin> {N_NODES, N_EDGES, N_DIRECTED} \<Longrightarrow> m3 k = (t |` (- set ks)) k"
    and n: "count_of m3 N_NODES = max 0 (int (card V) - int (length (filter counts_node ks)))"
      "count_of m3 N_EDGES = max 0 (int (card E) - int (length (filter counts_edge ks)))"
      "count_of m3 N_DIRECTED = max 0 (int (card {e \<in> E. fst e}) - int (length (filter counts_directed ks)))"
  shows "represents m3 (V - {u}) (E - touching E u)"
  unfolding represents_def
proof (intro conjI allI impI)
  note D = representsD [OF rep]
  note keys = removal_keys [OF rep r]
  have sub: "touching E u \<subseteq> E" "finite (touching E u)" using D(11) by (auto simp: touching_def intro: finite_subset)
  show "finite (V - {u})" "\<forall>u \<in> V - {u}. good_id u" using D(1,2) by auto
  show "ends_ok (V - {u}) (E - touching E u)" using D(3) by (auto simp: ends_ok_def touching_def)
  have m3k: "m3 k = (if k \<in> set ks then None else m k)" if "k \<notin> {N_NODES, N_EDGES, N_DIRECTED}" "k \<notin> range adj_key" for k
    using m3 [OF that(1)] removal_same [OF r that(2)] by simp
  show "m3 (node_key x) \<noteq> None \<longleftrightarrow> x \<in> V - {u}" if "good_id x" for x
    using m3k [of "node_key x"] keys(1) [of x] D(4) [OF that] by auto
  show "m3 (ekey (d, x, y)) \<noteq> None \<longleftrightarrow> (d, x, y) \<in> E - touching E u" if "good_id x \<and> good_id y" for d x y
    using m3k [of "ekey (d, x, y)"] keys(3) [of x y d] D(5) [of x y d] that by auto
  show "count_of m3 N_NODES = int (card (V - {u}))"
    using n(1) removal_counts(1) [OF rep r] D(1) by (cases "u \<in> V") (simp_all add: card_gt_0_iff of_nat_diff Suc_leI)
  show "count_of m3 N_EDGES = int (card (E - touching E u))"
    using n(2) removal_counts(2) [OF rep r] sub card_Diff_subset [OF sub(2,1)] card_mono [OF D(11) sub(1)] by simp
  have "{e \<in> E - touching E u. fst e} = {e \<in> E. fst e} - {e \<in> touching E u. fst e}" "{e \<in> touching E u. fst e} \<subseteq> {e \<in> E. fst e}"
    using sub(1) by auto
  then show "count_of m3 N_DIRECTED = int (card {e \<in> E - touching E u. fst e})"
    using n(3) removal_counts(3) [OF rep r] sub(2) D(11) card_Diff_subset [of "{e \<in> touching E u. fst e}" "{e \<in> E. fst e}"]
      card_mono [of "{e \<in> E. fst e}" "{e \<in> touching E u. fst e}"] by simp
  fix x assume x: "good_id x"
  have "adj_of m3 x = adj_of (t |` (- set ks)) x" using m3 [of "adj_key x"] by (simp add: adj_of_def)
  then have a: "adj_of m3 x = (if x = u then [] else pruned m u x)" using r x by (simp add: removal_def)
  show "distinct (adj_of m3 x)" using D(6) [OF x] by (simp add: a)
  show "set (adj_of m3 x) = incident (E - touching E u) x"
    using D(7) [OF x] incident_without [of x u E] incident_self [of E u] by (simp add: a)
qed

text \<open>The loop over the entries collects such keys.\<close>

lemma collect_removal:
  assumes rep: "represents (map_of s) V E" and g: "good_id u"
    and fo: "fold (collect u) (adj_of (map_of s) u)
      ((if f_has_node u s then [node_key u] else []) @ (if map_of s (adj_key u) \<noteq> None then [adj_key u] else []), [], s) = (ks, cl, t)"
  shows "removal (map_of s) V E u ks (map_of t)"
proof -
  define m where "m = map_of s"
  note D = representsD [OF rep, folded m_def]
  note rep' = rep [folded m_def]
  define es where "es = adj_of m u"
  have es: "distinct es" "set es = incident E u" using D(6,7) [OF g] by (simp_all add: es_def)
  note es_in = entry_in_store [OF rep', of _ u, folded es(2)]
  define K0 where "K0 = (if f_has_node u s then [node_key u] else []) @ (if m (adj_key u) \<noteq> None then [adj_key u] else [])"
  have K0: "distinct K0" "set K0 \<subseteq> {node_key u, adj_key u}" "node_key u \<in> set K0 \<longleftrightarrow> u \<in> V"
      "adj_key u \<in> set K0 \<longleftrightarrow> m (adj_key u) \<noteq> None"
    using D(4) [OF g] by (auto simp: K0_def f_has_node_def m_def)
  have "collected m u K0 es (ks, cl, t)"
    unfolding fo [folded m_def, folded K0_def es_def, symmetric]
    by (rule collect_all) (use K0 es es_in entry_key_inj [OF rep'] m_def in auto)
  then have c: "distinct ks" "set ks = set K0 \<union> entry_key u ` set es \<union> adj_key ` {x \<in> tl ` set es. pruned m u x = []}"
      "\<And>k. k \<notin> adj_key ` tl ` set es \<Longrightarrow> map_of t k = m k"
      "\<And>x. x \<in> tl ` set es \<Longrightarrow> map_of t (adj_key x) \<noteq> None \<and> adj_of (map_of t) x = (if pruned m u x = [] then adj_of m x else pruned m u x)"
    by (auto simp: collected_def)
  have kx: "adj_key z \<noteq> entry_key u y" for y z by (simp add: entry_key_edge)
  have in_ks: "adj_key x \<in> set ks \<longleftrightarrow> x = u \<and> m (adj_key u) \<noteq> None \<or> x \<in> tl ` set es \<and> pruned m u x = []" for x
    using c(2) K0(2,4) kx by (auto simp: image_iff)
  have adj: "adj_of (map_of t |` (- set ks)) x = (if x = u then [] else pruned m u x)" if "good_id x" for x
  proof -
    consider "x = u" | "x \<noteq> u" "x \<in> tl ` set es" | "x \<noteq> u" "x \<notin> tl ` set es" by blast
    then show ?thesis
    proof cases
      case 1
      have "map_of t (adj_key u) = m (adj_key u)" by (rule c(3)) (use es_in(3) in \<open>force simp: image_iff\<close>)
      then show ?thesis using 1 in_ks [of u] by (auto simp: adj_of_def restrict_map_def)
    next
      case 2
      then show ?thesis using c(4) in_ks [of x] by (auto simp: adj_of_def restrict_map_def)
    next
      case 3
      then have "map_of t (adj_key x) = m (adj_key x)" by (intro c(3)) auto
      then have "adj_of (map_of t |` (- set ks)) x = adj_of m x" using 3 in_ks [of x] by (simp add: adj_of_def)
      moreover have "\<forall>e \<in> set (adj_of m x). tl e \<noteq> u" using 3(2) incident_back [of E u x] es(2) D(7) [OF that] by (auto simp: image_iff)
      ultimately show ?thesis using 3(1) by (simp add: filter_id_conv)
    qed
  qed
  have in_t: "map_of t k \<noteq> None" if "k \<in> set ks" for k
  proof (cases "k \<in> adj_key ` tl ` set es")
    case True
    then show ?thesis using c(4) by auto
  next
    case False
    then have "m k \<noteq> None" using that c(2) K0 es_in(1) D(4) [OF g] by auto
    then show ?thesis using c(3) [OF False] by simp
  qed
  have "set ks = (if u \<in> V then {node_key u} else {}) \<union> entry_key u ` incident E u \<union>
      ((set K0 - {node_key u}) \<union> adj_key ` {x \<in> tl ` set es. pruned m u x = []})"
    unfolding c(2) es(2) using K0(2,3) by auto
  moreover have "(set K0 - {node_key u}) \<union> adj_key ` {x \<in> tl ` set es. pruned m u x = []} \<subseteq> range adj_key" using K0(2) by auto
  ultimately have "\<exists>A \<subseteq> range adj_key. set ks = (if u \<in> V then {node_key u} else {}) \<union> entry_key u ` incident E u \<union> A" by blast
  moreover have "map_of t k = m k" if "k \<notin> range adj_key" for k using that by (intro c(3)) auto
  ultimately show ?thesis unfolding removal_def m_def [symmetric] using c(1) in_t adj by blast
qed

lemma remove_node_refines:
  assumes rep: "represents (map_of s) V E" and g: "good_id u" and f: "f_remove_node u s = (r, s')"
  shows "(\<exists>ret. r = Inr ret \<and> (u \<in> V \<longrightarrow> ret \<noteq> [])) \<and> represents (map_of s') (V - {u}) (E - touching E u)"
proof -
  note D = representsD [OF rep]
  define K0 where "K0 = (if f_has_node u s then [node_key u] else []) @ (if map_of s (adj_key u) \<noteq> None then [adj_key u] else [])"
  obtain ks cl t where fo: "fold (collect u) (adj_of (map_of s) u) (K0, [], s) = (ks, cl, t)" by (metis prod_cases3)
  have rem: "removal (map_of s) V E u ks (map_of t)" by (rule collect_removal [OF rep g fo [unfolded K0_def]])
  note R = removal_represents [OF rep rem]
  have ct: "count N t = count_of (map_of s) N" if "N \<in> {N_NODES, N_EDGES, N_DIRECTED}" for N
    using removal_same [OF rem, of N] that by (auto simp: reads_of count_of_def)
  have start: "(if map_of s (adj_key u) \<noteq> None then fold (collect u) (f_get_adj u s)
      ((if f_has_node u s then [node_key u] else []) @ [adj_key u], [], s)
      else (if f_has_node u s then [node_key u] else [], [], s)) = (ks, cl, t)"
    using fo by (auto simp: K0_def reads_of adj_of_def split: option.splits if_splits)
  show ?thesis
  proof (cases "ks = []")
    case True
    then have n: "map_of s' = map_of t" "r = Inr []" "u \<notin> V" "touching E u = {}"
      using f start rem entry_touches [OF D(3), of u] by (auto simp: f_remove_node_def Let_def removal_def split: if_splits)
    have "count_of (map_of t) N = count_of (map_of s) N" if "N \<in> {N_NODES, N_EDGES, N_DIRECTED}" for N
      using ct [OF that] by (simp add: reads_of)
    then show ?thesis using R [of "map_of s'"] n True D(8-10) by auto
  next
    case False
    obtain ret t' where d: "delete_keys ks [] t = (Inr ret, t')" "map_of t' = map_of t |` (- set ks)" "ret \<noteq> []"
      using delete_keys_all [of ks t "[]"] rem kv.look_drops [of ks t] False by (auto simp: removal_def)
    let ?less = "\<lambda>N p. VInt (max 0 (count_of (map_of s) N - int (length (filter p ks))))"
    have "f_remove_node u s = (Inr ret, snd (rec_write False N_DIRECTED (?less N_DIRECTED counts_directed)
        (snd (rec_write False N_EDGES (?less N_EDGES counts_edge) (snd (rec_write False N_NODES (?less N_NODES counts_node) t'))))))"
      unfolding f_remove_node_def Let_def start using False ct d(1) by (simp add: Let_def)
    then have s': "map_of s' = (map_of t |` (- set ks))(N_NODES \<mapsto> ?less N_NODES counts_node, N_EDGES \<mapsto> ?less N_EDGES counts_edge,
        N_DIRECTED \<mapsto> ?less N_DIRECTED counts_directed)" "r = Inr ret" using f by (simp_all add: d(2) flip: d(2))
    have "represents (map_of s') (V - {u}) (E - touching E u)" by (rule R) (simp_all add: s' D(8-10))
    then show ?thesis using s'(2) d(3) by blast
  qed
qed

end
