(* ===== verification/Graph_Api.thy ===== *)
theory Graph_Api
  imports Graph_Store
begin

text \<open>
  The public operations of \<open>GraphDb\<close> that rest on the store operations of \<open>Graph_Store\<close>:
  the batches, the counters, degrees and neighbours; and the property that a store built by
  the operations represents the graph the same operations build on sets of nodes and edges.
\<close>

section \<open>Batches\<close>

text \<open>The first error ends a batch; what was written before it stays.\<close>

fun add_nodes :: "(gid \<times> (pyval \<times> pyval) list) list \<Rightarrow> int \<Rightarrow> kv \<Rightarrow> int res \<times> kv" where
  "add_nodes [] n s = (Inr n, s)"
| "add_nodes ((u, props) # us) n s =
     (case f_add_node u props s of
        (Inl e, s) \<Rightarrow> (Inl e, s)
      | (Inr done, s) \<Rightarrow> add_nodes us (if done then n + 1 else n) s)"

fun add_edges :: "(gid \<times> gid \<times> bool \<times> (pyval \<times> pyval) list) list \<Rightarrow> int \<Rightarrow> kv \<Rightarrow> int res \<times> kv" where
  "add_edges [] n s = (Inr n, s)"
| "add_edges ((u, v, directed, props) # es) n s =
     (case f_add_edge u v directed props s of
        (Inl e, s) \<Rightarrow> (Inl e, s)
      | (Inr done, s) \<Rightarrow> add_edges es (if done then n + 1 else n) s)"

section \<open>Counters and neighbourhoods\<close>

definition number_of_nodes :: "kv \<Rightarrow> int" where "number_of_nodes s = count N_NODES s"
definition number_of_edges :: "kv \<Rightarrow> int" where "number_of_edges s = count N_EDGES s"
definition is_directed :: "kv \<Rightarrow> bool" where "is_directed s \<longleftrightarrow> count N_DIRECTED s > 0"

definition neighbors :: "gid \<Rightarrow> kv \<Rightarrow> gid set" where
  "neighbors u s = tl ` set (f_get_adj u s)"

definition common_neighbors :: "gid \<Rightarrow> gid \<Rightarrow> kv \<Rightarrow> gid set" where
  "common_neighbors u v s = neighbors u s \<inter> (if u \<noteq> v then neighbors v s else neighbors u s)"

definition jaccard_coefficient :: "gid \<Rightarrow> gid \<Rightarrow> kv \<Rightarrow> rat" where
  "jaccard_coefficient u v s =
     (let nu = neighbors u s; nv = (if u \<noteq> v then neighbors v s else nu)
      in if nu \<union> nv = {} then 0 else of_nat (card (nu \<inter> nv)) / of_nat (card (nu \<union> nv)))"

text \<open>In, out and undirected edges, and their sum.\<close>

definition degree :: "gid \<Rightarrow> kv \<Rightarrow> nat \<times> nat \<times> nat \<times> nat" where
  "degree u s =
     (let adj = (if f_has_node u s then f_get_adj u s else []);
          n = (\<lambda>c. length (filter (\<lambda>e. hd e = c) adj))
      in (n 60, n 62, n 45, n 60 + n 62 + n 45))"

definition f_iter_successors :: "gid \<Rightarrow> kv \<Rightarrow> (gid \<times> nat list) list" where
  "f_iter_successors u s = map (\<lambda>e. (tl e, edge_key u (tl e) (hd e = 62))) (filter (\<lambda>e. hd e \<noteq> 60) (f_get_adj u s))"

definition f_iter_predecessors :: "gid \<Rightarrow> kv \<Rightarrow> (gid \<times> nat list) list" where
  "f_iter_predecessors u s =
     map (\<lambda>e. (tl e, if hd e = 60 then edge_key (tl e) u True else edge_key u (tl e) False)) (filter (\<lambda>e. hd e \<noteq> 62) (f_get_adj u s))"

text \<open>A dictionary: the last edge to a neighbour wins.\<close>

definition successors :: "gid \<Rightarrow> kv \<Rightarrow> (gid \<times> pyval) list" where
  "successors u s = fold (\<lambda>(v, k). assoc_set v (rec_read k VNone s)) (f_iter_successors u s) []"

definition predecessors :: "gid \<Rightarrow> kv \<Rightarrow> (gid \<times> pyval) list" where
  "predecessors u s = fold (\<lambda>(v, k). assoc_set v (rec_read k VNone s)) (f_iter_predecessors u s) []"

section \<open>Histories\<close>

datatype graph_op =
    AddNode gid "(pyval \<times> pyval) list"
  | AddEdge gid gid bool "(pyval \<times> pyval) list"
  | RemoveEdge gid gid bool
  | RemoveNode gid

fun exec_op :: "graph_op \<Rightarrow> kv \<Rightarrow> kv" where
  "exec_op (AddNode u props) s = snd (f_add_node u props s)"
| "exec_op (AddEdge u v directed props) s = snd (f_add_edge u v directed props s)"
| "exec_op (RemoveEdge u v directed) s = snd (f_remove_edge u v directed s)"
| "exec_op (RemoveNode u) s = snd (f_remove_node u s)"

text \<open>The same on a set of nodes and a set of edges.\<close>

type_synonym graph = "gid set \<times> (bool \<times> gid \<times> gid) set"

fun graph_step :: "graph_op \<Rightarrow> graph \<Rightarrow> graph" where
  "graph_step (AddNode u _) (V, E) = (if bad_id u then (V, E) else (insert u V, E))"
| "graph_step (AddEdge u v directed _) (V, E) =
     (if u = v \<or> bad_id u \<or> bad_id v then (V, E) else (insert u (insert v V), insert (edge_of u v directed) E))"
| "graph_step (RemoveEdge u v directed) (V, E) = (V, E - {edge_of u v directed})"
| "graph_step (RemoveNode u) (V, E) = (V - {u}, {e \<in> E. fst (snd e) \<noteq> u \<and> snd (snd e) \<noteq> u})"

text \<open>The node \<open>'>'\<close> is left out: the counter of directed edges is wrong for it.\<close>

fun op_ok :: "graph_op \<Rightarrow> bool" where
  "op_ok (AddNode u _) \<longleftrightarrow> u \<noteq> [62]"
| "op_ok (AddEdge u v _ _) \<longleftrightarrow> u \<noteq> [62] \<and> v \<noteq> [62]"
| "op_ok (RemoveEdge u v _) \<longleftrightarrow> good_id u \<and> good_id v"
| "op_ok (RemoveNode u) \<longleftrightarrow> good_id u"

abbreviation shows_graph :: "kv \<Rightarrow> graph \<Rightarrow> bool" where
  "shows_graph s G \<equiv> represents (map_of s) (fst G) (snd G)"

lemma exec_op_refines:
  assumes "shows_graph s G" "op_ok c"
  shows "shows_graph (exec_op c s) (graph_step c G)"
proof (cases G)
  case (Pair V E)
  then have rep: "represents (map_of s) V E" using assms(1) by simp
  show ?thesis
  proof (cases c)
    case (AddNode u props)
    then show ?thesis using add_node_refines [OF rep, of u props] assms(2) Pair rep
      by (cases "f_add_node u props s") (auto split: if_splits)
  next
    case (AddEdge u v d props)
    then show ?thesis using add_edge_refines [OF rep, of u v d props] assms(2) Pair rep
      by (cases "f_add_edge u v d props s") (auto split: if_splits)
  next
    case (RemoveEdge u v d)
    then show ?thesis using remove_edge_refines [OF rep, of u v d] assms(2) Pair
      by (cases "f_remove_edge u v d s") simp
  next
    case (RemoveNode u)
    have "{e \<in> E. fst (snd e) \<noteq> u \<and> snd (snd e) \<noteq> u} = E - touching E u" by (auto simp: touching_def)
    then show ?thesis using remove_node_refines [OF rep, of u] RemoveNode assms(2) Pair
      by (cases "f_remove_node u s") simp
  qed
qed

lemma represents_empty: "shows_graph [] ({}, {})"
  by (simp add: represents_def ends_ok_def adj_of_def incident_def count_of_def)

lemma history_refines:
  "shows_graph s G \<Longrightarrow> \<forall>c \<in> set cs. op_ok c \<Longrightarrow> shows_graph (fold exec_op cs s) (fold graph_step cs G)"
proof (induction cs arbitrary: s G)
  case (Cons c cs)
  have "shows_graph (exec_op c s) (graph_step c G)" using exec_op_refines [OF Cons.prems(1)] Cons.prems(2) by simp
  from Cons.IH [OF this] show ?case using Cons.prems(2) by simp
qed simp

text \<open>
  C9: a store built from the empty one by any sequence of additions and removals of nodes and
  edges has exactly the node and edge records, adjacency lists and counters of the graph the
  operations describe, provided that no operation adds the node \<open>>\<close> (its edges are counted
  wrong when it is removed, \<open>jdb_graph.py\<close> line 2650) and that removals name an identifier that could
  have been added: not empty, without a colon and not \<open>>\<close>.  Additions with an identifier the code
  rejects are part of the sequence and change nothing.
\<close>

theorem store_represents_graph:
  assumes "\<forall>c \<in> set cs. op_ok c"
  shows "represents (map_of (fold exec_op cs [])) (fst (fold graph_step cs ({}, {}))) (snd (fold graph_step cs ({}, {})))"
  by (rule history_refines [OF represents_empty assms])

lemma store_represents_graph_witness:
  "represents (map_of (fold exec_op [AddEdge [97] [98] True [], AddEdge [98] [99] False [], RemoveNode [97], RemoveEdge [99] [98] False] []))
     {[98], [99]} {} \<and> edge_of [99] [98] False = (False, [98], [99])"
proof -
  let ?cs = "[AddEdge [97] [98] True [], AddEdge [98] [99] False [], RemoveNode [97], RemoveEdge [99] [98] False]"
  have "fold graph_step ?cs ({}, {}) = ({[98], [99]}, {})" by (auto simp: bad_id_def edge_of_def)
  moreover have "\<forall>c \<in> set ?cs. op_ok c" by (simp add: good_id_def bad_id_def)
  ultimately show ?thesis using store_represents_graph [of ?cs] by (simp only: fst_conv snd_conv) (simp add: edge_of_def)
qed

section \<open>What the reads answer\<close>

text \<open>The numbers of a graph.\<close>

lemma counts_of_graph:
  assumes "shows_graph s (V, E)"
  shows "number_of_nodes s = int (card V)" "number_of_edges s = int (card E)" "is_directed s \<longleftrightarrow> {e \<in> E. fst e} \<noteq> {}"
proof -
  have rep: "represents (map_of s) V E" using assms by simp
  note D = representsD [OF rep]
  show "number_of_nodes s = int (card V)" "number_of_edges s = int (card E)"
    using D(8,9) by (simp_all add: number_of_nodes_def number_of_edges_def reads_of)
  have "is_directed s \<longleftrightarrow> card {e \<in> E. fst e} > 0" using D(10) by (simp add: is_directed_def reads_of)
  moreover have "card {e \<in> E. fst e} > 0 \<longleftrightarrow> {e \<in> E. fst e} \<noteq> {}" using D(11) by (simp add: card_gt_0_iff)
  ultimately show "is_directed s \<longleftrightarrow> {e \<in> E. fst e} \<noteq> {}" by (rule trans)
qed

lemma adj_entries: "represents (map_of s) V E \<Longrightarrow> good_id u \<Longrightarrow> distinct (f_get_adj u s) \<and> set (f_get_adj u s) = incident E u"
  using representsD(6,7) by (simp add: reads_of)

lemma undirected_mem: "ends_ok V E \<Longrightarrow> edge_of u v False \<in> E \<longleftrightarrow> (False, u, v) \<in> E \<or> (False, v, u) \<in> E"
  by (fastforce simp: ends_ok_def edge_of_def split: if_splits)

lemma neighbors_of:
  assumes "represents (map_of s) V E" "good_id u"
  shows "neighbors u s = {v. \<exists>d. (d, u, v) \<in> E \<or> (d, v, u) \<in> E}"
proof -
  have o: "ends_ok V E" by (rule representsD(3) [OF assms(1)])
  have "v \<in> neighbors u s \<longleftrightarrow> (\<exists>d. (d, u, v) \<in> E \<or> (d, v, u) \<in> E)" for v
  proof -
    have "v \<in> neighbors u s \<longleftrightarrow> (\<exists>e \<in> incident E u. tl e = v)" using adj_entries [OF assms] by (auto simp: neighbors_def)
    also have "\<dots> \<longleftrightarrow> 62 # v \<in> incident E u \<or> 60 # v \<in> incident E u \<or> 45 # v \<in> incident E u"
      using incident_forms [of _ E u] by (metis list.sel(3))
    also have "\<dots> \<longleftrightarrow> (\<exists>d. (d, u, v) \<in> E \<or> (d, v, u) \<in> E)"
      unfolding incident_mem undirected_mem [OF o] by (metis (full_types))
    finally show ?thesis .
  qed
  then show ?thesis by blast
qed

lemma degree_of:
  assumes rep: "represents (map_of s) V E" and u: "u \<in> V"
  shows "degree u s = (card {v. (True, v, u) \<in> E}, card {v. (True, u, v) \<in> E}, card {v. edge_of u v False \<in> E}, card (touching E u))"
proof -
  note D = representsD [OF rep]
  have g: "good_id u" by (rule D(2) [OF u])
  note adj = adj_entries [OF rep g]
  have n: "length (filter (\<lambda>e. hd e = c) (f_get_adj u s)) = card {v. c # v \<in> incident E u}" for c
  proof -
    have "length (filter (\<lambda>e. hd e = c) (f_get_adj u s)) = card {e \<in> incident E u. hd e = c}"
      using adj by (simp add: length_filter_card)
    also have "{e \<in> incident E u. hd e = c} = Cons c ` {v. c # v \<in> incident E u}"
      using incident_forms [of _ E u] by (fastforce simp: image_iff)
    also have "card \<dots> = card {v. c # v \<in> incident E u}" by (rule card_image) simp
    finally show ?thesis .
  qed
  have "length (f_get_adj u s) = card (incident E u)" using adj distinct_card by metis
  also have "\<dots> = card (touching E u)" by (rule bij_betw_same_card [OF entry_edge_bij [OF D(3)]])
  finally have t: "length (f_get_adj u s) = card (touching E u)" .
  have "length (filter (\<lambda>e. hd e = 60) xs) + length (filter (\<lambda>e. hd e = 62) xs) + length (filter (\<lambda>e. hd e = 45) xs) = length xs"
    if "set xs \<subseteq> incident E u" for xs
    using that by (induction xs) (auto dest!: incident_forms)
  from this [of "f_get_adj u s"] show ?thesis
    using adj t D(4) [OF g] u by (simp add: degree_def Let_def n incident_mem f_has_node_def)
qed

section \<open>The keys of nodes\<close>

text \<open>The keys a node could have, and the effect of the operations on them.\<close>

definition nkeys :: "kv \<Rightarrow> nat list set" where
  "nkeys s = {k \<in> dom (map_of s). take 2 k = [78, 58]}"

lemma nkeys_write [simp]:
  "nkeys (snd (rec_write over k v s)) = (if take 2 k = [78, 58] then insert k (nkeys s) else nkeys s)"
  by (auto simp: nkeys_def split: if_splits)

lemma nkeys_del: "nkeys (assoc_del k s) \<subseteq> nkeys s"
  by (auto simp: nkeys_def kv.look_drop)

lemma key_heads [simp]:
  "take 2 (node_key u) = [78, 58]" "take 2 (adj_key u) = [88, 58]" "take 2 (ekey e) = [69, 58]" "take 2 (edge_key u v d) = [69, 58]"
  "take 2 N_NODES = [35, 58]" "take 2 N_EDGES = [35, 58]" "take 2 N_DIRECTED = [35, 58]"
  by (simp_all add: node_key_def adj_key_def edge_key_def ekey_def N_NODES_def N_EDGES_def N_DIRECTED_def case_prod_beta)

lemma nkeys_merge: "nkeys (snd (merge_props k props s)) \<subseteq> insert k (nkeys s)"
  by (auto simp: merge_props_def Let_def split: pyval.splits if_splits)

lemma nkeys_add_entry [simp]: "nkeys (add_entry u e s) = nkeys s"
  by (simp add: add_entry_def Let_def)

lemma nkeys_del_entry [simp]: "nkeys (del_entry u e s) = nkeys s"
  by (simp add: del_entry_def Let_def)

lemma nkeys_new_node: "nkeys (snd (new_node u (n, s))) \<subseteq> insert (node_key u) (nkeys s)"
  by (auto simp: new_node_def)

lemma nkeys_add_node: "nkeys (snd (f_add_node u props s)) \<subseteq> (if bad_id u then nkeys s else insert (node_key u) (nkeys s))"
proof -
  obtain b t where w: "rec_write False (node_key u) (VDict props) s = (b, t)" by (metis surj_pair)
  obtain c r where m: "merge_props (node_key u) props s = (c, r)" by (metis surj_pair)
  show ?thesis
    using nkeys_write [of False "node_key u" "VDict props" s] nkeys_merge [of "node_key u" props s]
    by (auto simp: f_add_node_def w m)
qed

lemma nkeys_add_edge:
  "nkeys (snd (f_add_edge u v d props s)) \<subseteq>
     (if u = v \<or> bad_id u \<or> bad_id v then nkeys s else insert (node_key u) (insert (node_key v) (nkeys s)))"
proof (cases "u = v \<or> bad_id u \<or> bad_id v \<or> f_has_edge u v d s")
  case True
  then show ?thesis using nkeys_merge [of "edge_key u v d" props s]
  proof -
    obtain c r where m: "merge_props (edge_key u v d) props s = (c, r)" by (metis surj_pair)
    have "edge_key u v d \<notin> nkeys r" by (simp add: nkeys_def)
    then show ?thesis using True nkeys_merge [of "edge_key u v d" props s] by (auto simp: f_add_edge_def m)
  qed
next
  case False
  obtain n1 s1 where n1: "new_node u (count N_NODES s, s) = (n1, s1)" by (metis surj_pair)
  obtain n2 s2 where n2: "new_node v (n1, s1) = (n2, s2)" by (metis surj_pair)
  have k: "nkeys s2 \<subseteq> insert (node_key u) (insert (node_key v) (nkeys s))"
    using nkeys_new_node [of u "count N_NODES s" s] nkeys_new_node [of v n1 s1] by (auto simp: n1 n2)
  define s3 where "s3 = snd (rec_write False N_NODES (VInt (max 0 n2)) (add_entry v (mark_in d # u) (add_entry u (mark_out d # v) s2)))"
  obtain b s4 where w: "rec_write False (edge_key u v d) (VDict props) s3 = (b, s4)" by (metis surj_pair)
  have "nkeys s3 = nkeys s2" by (simp add: s3_def)
  then have "nkeys s4 = nkeys s2" using nkeys_write [of False "edge_key u v d" "VDict props" s3] by (simp add: w)
  then have "nkeys (snd (f_add_edge u v d props s)) = nkeys s2"
    using False by (simp add: f_add_edge_def n1 n2 s3_def [symmetric] w Let_def)
  then show ?thesis using k False by simp
qed

lemma nkeys_remove_edge: "nkeys (snd (f_remove_edge u v d s)) \<subseteq> nkeys s"
  using nkeys_del [of "edge_key u v d" s] by (auto simp: f_remove_edge_def Let_def split: option.split)

lemma nkeys_collect: "nkeys (snd (snd (fold (collect u) es (ks, cl, s)))) = nkeys s"
proof (induction es arbitrary: ks cl s)
  case (Cons e es)
  obtain ks' cl' s' where c: "collect u e (ks, cl, s) = (ks', cl', s')" by (metis surj_pair)
  then have "nkeys s' = nkeys s" by (auto simp: collect_def Let_def split: if_splits)
  then show ?case using Cons.IH [of ks' cl' s'] by (simp add: c)
qed simp

lemma nkeys_delete_keys: "nkeys (snd (delete_keys ks ret s)) \<subseteq> nkeys s"
proof (induction ks ret s rule: delete_keys.induct)
  case (2 k ks ret s)
  then show ?case using nkeys_del [of k s] by (auto split: option.split)
qed simp

lemma nkeys_remove_node: "nkeys (snd (f_remove_node u s)) \<subseteq> nkeys s"
proof -
  define ks0 where "ks0 = (if f_has_node u s then [node_key u] else [])"
  obtain ks cl t where c: "(if map_of s (adj_key u) \<noteq> None
      then fold (collect u) (f_get_adj u s) (ks0 @ [adj_key u], [], s) else (ks0, [], s)) = (ks, cl, t)" by (metis surj_pair)
  have t: "nkeys t = nkeys s" using nkeys_collect [of u "f_get_adj u s" "ks0 @ [adj_key u]" "[]" s] c by (auto split: if_splits)
  obtain r t' where d: "delete_keys ks [] t = (r, t')" by (metis surj_pair)
  then have "nkeys t' \<subseteq> nkeys s" using nkeys_delete_keys [of ks "[]" t] t by simp
  then show ?thesis
    unfolding f_remove_node_def Let_def ks0_def [symmetric] c prod.case d using t by (cases r) simp_all
qed

text \<open>The identifiers an operation adds have no newline.\<close>

fun one_line :: "graph_op \<Rightarrow> bool" where
  "one_line (AddNode u _) \<longleftrightarrow> 10 \<notin> set u"
| "one_line (AddEdge u v _ _) \<longleftrightarrow> 10 \<notin> set u \<and> 10 \<notin> set v"
| "one_line _ \<longleftrightarrow> True"

definition node_keys_ok :: "kv \<Rightarrow> bool" where
  "node_keys_ok s \<longleftrightarrow> (\<forall>k \<in> nkeys s. \<exists>u. k = node_key u \<and> good_id u \<and> 10 \<notin> set u)"

lemma node_keys_step: "node_keys_ok s \<Longrightarrow> op_ok c \<Longrightarrow> one_line c \<Longrightarrow> node_keys_ok (exec_op c s)"
proof -
  assume a: "node_keys_ok s" "op_ok c" "one_line c"
  have new: "node_keys_ok t" if "nkeys t \<subseteq> node_key ` U \<union> nkeys s" "\<And>u. u \<in> U \<Longrightarrow> good_id u \<and> 10 \<notin> set u" for t U
    using that a(1) unfolding node_keys_ok_def by blast
  show ?thesis
  proof (cases c)
    case (AddNode u props)
    show ?thesis
      by (rule new [of _ "if bad_id u then {} else {u}"])
        (use AddNode a(2,3) nkeys_add_node [of u props s] in \<open>auto simp: good_id_def split: if_splits\<close>)
  next
    case (AddEdge u v d props)
    show ?thesis
      by (rule new [of _ "if u = v \<or> bad_id u \<or> bad_id v then {} else {u, v}"])
        (use AddEdge a(2,3) nkeys_add_edge [of u v d props s] in \<open>auto simp: good_id_def split: if_splits\<close>)
  next
    case (RemoveEdge u v d)
    show ?thesis by (rule new [of _ "{}"]) (use RemoveEdge nkeys_remove_edge [of u v d s] in auto)
  next
    case (RemoveNode u)
    show ?thesis by (rule new [of _ "{}"]) (use RemoveNode nkeys_remove_node [of u s] in auto)
  qed
qed

lemma node_keys_history: "node_keys_ok s \<Longrightarrow> \<forall>c \<in> set cs. op_ok c \<and> one_line c \<Longrightarrow> node_keys_ok (fold exec_op cs s)"
  by (induction cs arbitrary: s) (simp_all add: node_keys_step)

end
