(* ===== verification/Graph_Search.thy ===== *)
theory Graph_Search
  imports Graph_Api
begin

text \<open>
  The searches of \<open>omni_json_db/jdb_graph.py\<close> over the adjacency lists of a store:
  \<open>bfs_shortest_path\<close>, \<open>dfs_traverse\<close>, \<open>k_hop_neighbors\<close>, \<open>descendants\<close>, \<open>ancestors\<close> and
  \<open>connected_components\<close>.  They read lists and edges only, so the store is an argument that
  does not change; a list can name nodes that have no record.
\<close>

section \<open>Code\<close>

datatype direction = Out | In | Both

definition crosses :: "direction \<Rightarrow> nat list \<Rightarrow> bool" where
  "crosses d e \<longleftrightarrow> \<not> (d = Out \<and> hd e = 60) \<and> \<not> (d = In \<and> hd e = 62)"

type_synonym edge_filter = "((pyval \<times> pyval) list \<Rightarrow> bool) option"

text \<open>The filter sees the properties of the edge behind an entry.\<close>

definition admits :: "edge_filter \<Rightarrow> gid \<Rightarrow> nat list \<Rightarrow> kv \<Rightarrow> bool" where
  "admits ef u e s =
     (case ef of None \<Rightarrow> True
      | Some p \<Rightarrow> p (case rec_read (entry_key u e) VNone s of VDict props \<Rightarrow> props | _ \<Rightarrow> []))"

text \<open>The neighbours a scan of a list adds to the visited ones.\<close>

fun fresh :: "(nat list \<Rightarrow> bool) \<Rightarrow> nat list list \<Rightarrow> gid set \<Rightarrow> gid list" where
  "fresh ok [] vis = []"
| "fresh ok (e # es) vis =
     (if ok e \<and> tl e \<notin> vis then tl e # fresh ok es (insert (tl e) vis) else fresh ok es vis)"

lemma fresh_set [simp]: "set (fresh ok es vis) = tl ` {e \<in> set es. ok e} - vis"
  by (induction es arbitrary: vis) auto

lemma fresh_distinct [simp]: "distinct (fresh ok es vis)"
  by (induction es arbitrary: vis) auto

text \<open>All ids that any list names.\<close>

definition named :: "kv \<Rightarrow> gid set" where
  "named s = (\<Union>(k, v) \<in> set s. tl ` set (entries v))"

lemma named_finite [simp]: "finite (named s)"
  by (auto simp: named_def)

lemma adj_named: "tl ` set (f_get_adj u s) \<subseteq> named s"
  by (fastforce simp: f_get_adj_def rec_read_def named_def split: option.splits dest: map_of_SomeD)

lemma fresh_named: "set (fresh ok (f_get_adj u s) vis) \<subseteq> named s - vis"
  using adj_named [of u s] by auto

text \<open>Every round of a search takes one node and marks what it adds.\<close>

lemma search_measure:
  assumes "set ns \<subseteq> named s - vis" "distinct ns"
  shows "card (named s - (vis \<union> set ns)) + length (q @ ns) < card (named s - vis) + length (u # q)"
proof -
  have "named s - (vis \<union> set ns) = (named s - vis) - set ns" by blast
  then have "card (named s - (vis \<union> set ns)) = card (named s - vis) - length ns"
    using assms by (simp add: card_Diff_subset distinct_card)
  moreover have "length ns \<le> card (named s - vis)"
    using assms card_mono [of "named s - vis" "set ns"] by (simp add: distinct_card)
  ultimately show ?thesis by simp
qed

partial_function (option) path_back :: "(gid \<times> gid option) list \<Rightarrow> gid option \<Rightarrow> gid list option" where
  "path_back prev c =
     (case c of None \<Rightarrow> Some []
      | Some u \<Rightarrow>
          (case map_of prev u of None \<Rightarrow> None | Some w \<Rightarrow> Option.bind (path_back prev w) (\<lambda>p. Some (u # p))))"

declare path_back.simps [code]

function bfs_loop :: "kv \<Rightarrow> direction \<Rightarrow> edge_filter \<Rightarrow> gid \<Rightarrow> gid list \<Rightarrow> gid set \<Rightarrow> (gid \<times> gid option) list \<Rightarrow> gid list option" where
  "bfs_loop s d ef t [] vis prev = Some []"
| "bfs_loop s d ef t (u # q) vis prev =
     (if u = t then Option.bind (path_back prev (Some u)) (\<lambda>p. Some (rev p))
      else
        let ns = fresh (\<lambda>e. crosses d e \<and> admits ef u e s) (f_get_adj u s) vis
        in bfs_loop s d ef t (q @ ns) (vis \<union> set ns) (rev (map (\<lambda>v. (v, Some u)) ns) @ prev))"
  by pat_completeness auto
termination
  by (relation "measure (\<lambda>(s, d, ef, t, q, vis, prev). card (named s - vis) + length q)")
    (simp, simp only: in_measure prod.case, rule search_measure [OF fresh_named fresh_distinct])

definition bfs_shortest_path :: "gid \<Rightarrow> gid \<Rightarrow> direction \<Rightarrow> edge_filter \<Rightarrow> kv \<Rightarrow> gid list option" where
  "bfs_shortest_path src t d ef s =
     (if \<not> f_has_node src s \<or> \<not> f_has_node t s then Some [] else bfs_loop s d ef t [src] {src} [(src, None)])"

definition MAX_RECURSION :: nat where "MAX_RECURSION = 500"

text \<open>The first argument counts the levels that are left.\<close>

fun dfs :: "nat \<Rightarrow> kv \<Rightarrow> direction \<Rightarrow> edge_filter \<Rightarrow> gid \<Rightarrow> gid set \<Rightarrow> (gid list \<times> gid set) res"
  and dfs_entries :: "nat \<Rightarrow> kv \<Rightarrow> direction \<Rightarrow> edge_filter \<Rightarrow> gid \<Rightarrow> nat list list \<Rightarrow> gid list \<Rightarrow> gid set \<Rightarrow> (gid list \<times> gid set) res" where
  "dfs 0 s d ef u vis = Inl RecursionError"
| "dfs (Suc n) s d ef u vis =
     (if u \<in> vis then Inr ([], vis) else dfs_entries n s d ef u (f_get_adj u s) [u] (insert u vis))"
| "dfs_entries n s d ef u [] path vis = Inr (path, vis)"
| "dfs_entries n s d ef u (e # es) path vis =
     (if \<not> crosses d e \<or> \<not> admits ef u e s then dfs_entries n s d ef u es path vis
      else case dfs n s d ef (tl e) vis of
             Inl x \<Rightarrow> Inl x
           | Inr (p, vis) \<Rightarrow> dfs_entries n s d ef u es (path @ p) vis)"

definition dfs_traverse :: "gid \<Rightarrow> gid set \<Rightarrow> direction \<Rightarrow> edge_filter \<Rightarrow> kv \<Rightarrow> gid list res" where
  "dfs_traverse src vis d ef s =
     (if f_has_node src s then map_sum id fst (dfs MAX_RECURSION s d ef src vis) else Inr [])"

text \<open>One more hop from a frontier.\<close>

fun sweep :: "(nat list \<Rightarrow> bool) \<Rightarrow> kv \<Rightarrow> gid list \<Rightarrow> gid set \<Rightarrow> gid list" where
  "sweep ok s [] vis = []"
| "sweep ok s (u # us) vis =
     (let ns = fresh ok (f_get_adj u s) vis in ns @ sweep ok s us (vis \<union> set ns))"

lemma sweep_set [simp]: "set (sweep ok s us vis) = (\<Union>u \<in> set us. tl ` {e \<in> set (f_get_adj u s). ok e}) - vis"
  by (induction us arbitrary: vis) (auto simp: Let_def)

lemma sweep_distinct [simp]: "distinct (sweep ok s us vis)"
  by (induction us arbitrary: vis) (auto simp: Let_def)

lemma sweep_named: "set (sweep ok s us vis) \<subseteq> named s - vis"
  using adj_named [of _ s] by auto

fun k_hop_loop :: "nat \<Rightarrow> kv \<Rightarrow> direction \<Rightarrow> int \<Rightarrow> gid list \<Rightarrow> gid set \<Rightarrow> (gid \<times> int) list \<Rightarrow> (gid \<times> int) list" where
  "k_hop_loop 0 s d depth frontier vis result = result"
| "k_hop_loop (Suc n) s d depth frontier vis result =
     (let nxt = sweep (crosses d) s frontier vis; result = result @ map (\<lambda>v. (v, depth)) nxt
      in if nxt = [] then result else k_hop_loop n s d (depth + 1) nxt (vis \<union> set nxt) result)"

definition k_hop_neighbors :: "gid \<Rightarrow> int \<Rightarrow> direction \<Rightarrow> kv \<Rightarrow> (gid \<times> int) list" where
  "k_hop_neighbors u k d s =
     (if \<not> f_has_node u s \<or> k < 1 then [] else k_hop_loop (nat k) s d 1 [u] {u} [])"

function reach_loop :: "kv \<Rightarrow> direction \<Rightarrow> gid list \<Rightarrow> gid set \<Rightarrow> gid set \<Rightarrow> gid set" where
  "reach_loop s d frontier vis result =
     (if frontier = [] then result
      else let nxt = sweep (crosses d) s frontier vis in reach_loop s d nxt (vis \<union> set nxt) (result \<union> set nxt))"
  by pat_completeness auto
termination
proof (relation "measure (\<lambda>(s, d, frontier, vis, result). card (named s - vis) + length frontier)")
  fix s d and frontier :: "gid list" and vis result :: "gid set" and nxt
  assume f: "frontier \<noteq> []" and n: "nxt = sweep (crosses d) s frontier vis"
  have "card (named s - (vis \<union> set nxt)) + length ([] @ nxt) < card (named s - vis) + length ([undefined] :: gid list)"
    unfolding n by (rule search_measure [OF sweep_named sweep_distinct])
  then show "((s, d, nxt, vis \<union> set nxt, result \<union> set nxt), s, d, frontier, vis, result)
      \<in> measure (\<lambda>(s, d, frontier, vis, result). card (named s - vis) + length frontier)"
    using f by (cases frontier) auto
qed simp

declare reach_loop.simps [simp del]

definition descendants :: "gid \<Rightarrow> kv \<Rightarrow> gid set" where
  "descendants u s = (if f_has_node u s then reach_loop s Out [u] {u} {} else {})"

definition ancestors :: "gid \<Rightarrow> kv \<Rightarrow> gid set" where
  "ancestors u s = (if f_has_node u s then reach_loop s In [u] {u} {} else {})"

text \<open>Keys that match \<open>^N:(.+?):$\<close>: no newline in the id, at most one behind the key.\<close>

definition node_of :: "nat list \<Rightarrow> gid option" where
  "node_of k =
     (let k = (if k \<noteq> [] \<and> last k = 10 then butlast k else k)
      in if length k \<ge> 4 \<and> take 2 k = [78, 58] \<and> last k = 58 \<and> 10 \<notin> set k then Some (butlast (drop 2 k)) else None)"

definition f_iter_nodes :: "kv \<Rightarrow> gid list" where
  "f_iter_nodes s = List.map_filter (\<lambda>(k, v). node_of k) s"

function component_loop :: "kv \<Rightarrow> gid list \<Rightarrow> gid set \<Rightarrow> gid list \<Rightarrow> gid list \<times> gid set" where
  "component_loop s [] vis component = (component, vis)"
| "component_loop s (u # q) vis component =
     (let ns = fresh (\<lambda>_. True) (f_get_adj u s) vis in component_loop s (q @ ns) (vis \<union> set ns) (component @ [u]))"
  by pat_completeness auto
termination
  by (relation "measure (\<lambda>(s, q, vis, component). card (named s - vis) + length q)")
    (simp, simp only: in_measure prod.case, rule search_measure [OF fresh_named fresh_distinct])

fun components_loop :: "kv \<Rightarrow> gid list \<Rightarrow> gid set \<Rightarrow> gid list list \<Rightarrow> gid list list" where
  "components_loop s [] vis components = components"
| "components_loop s (u # us) vis components =
     (if u \<in> vis then components_loop s us vis components
      else let (component, vis) = component_loop s [u] (insert u vis) []
           in components_loop s us vis (components @ [component]))"

definition connected_components :: "kv \<Rightarrow> gid list list" where
  "connected_components s = components_loop s (f_iter_nodes s) {} []"

section \<open>Distances\<close>

text \<open>The nodes within a number of hops, those at a distance, and walks.\<close>

fun hops :: "('v \<Rightarrow> 'v list) \<Rightarrow> nat \<Rightarrow> 'v \<Rightarrow> 'v set" where
  "hops N 0 u = {u}"
| "hops N (Suc k) u = hops N k u \<union> (\<Union>v \<in> hops N k u. set (N v))"

fun level :: "('v \<Rightarrow> 'v list) \<Rightarrow> nat \<Rightarrow> 'v \<Rightarrow> 'v set" where
  "level N 0 u = {u}"
| "level N (Suc k) u = hops N (Suc k) u - hops N k u"

definition reachable :: "('v \<Rightarrow> 'v list) \<Rightarrow> 'v \<Rightarrow> 'v set" where
  "reachable N u = (\<Union>k. hops N k u)"

fun walk :: "('v \<Rightarrow> 'v list) \<Rightarrow> 'v list \<Rightarrow> bool" where
  "walk N [] \<longleftrightarrow> False"
| "walk N [u] \<longleftrightarrow> True"
| "walk N (u # v # p) \<longleftrightarrow> v \<in> set (N u) \<and> walk N (v # p)"

definition nbrs :: "direction \<Rightarrow> edge_filter \<Rightarrow> kv \<Rightarrow> gid \<Rightarrow> gid list" where
  "nbrs d ef s u = map tl (filter (\<lambda>e. crosses d e \<and> admits ef u e s) (f_get_adj u s))"

lemma hops_mono: "j \<le> k \<Longrightarrow> hops N j u \<subseteq> hops N k u"
  by (induction k) (auto simp: le_Suc_eq)

lemma hops_reachable: "v \<in> hops N k u \<Longrightarrow> v \<in> reachable N u"
  by (auto simp: reachable_def)

lemma level_hops: "level N k u \<subseteq> hops N k u"
  by (cases k) auto

lemma level_not_hops: "v \<in> level N k u \<Longrightarrow> v \<in> hops N j u \<Longrightarrow> k \<le> j"
proof (cases k)
  case (Suc i)
  then show "v \<in> level N k u \<Longrightarrow> v \<in> hops N j u \<Longrightarrow> k \<le> j"
    using hops_mono [of j i N u] by (cases "j \<le> i") auto
qed simp

text \<open>Closed sets.\<close>

lemma hops_closed: "u \<in> A \<Longrightarrow> (\<And>v. v \<in> A \<Longrightarrow> set (N v) \<subseteq> A) \<Longrightarrow> hops N k u \<subseteq> A"
  by (induction k) auto

lemma reachable_closed: "u \<in> A \<Longrightarrow> (\<And>v. v \<in> A \<Longrightarrow> set (N v) \<subseteq> A) \<Longrightarrow> reachable N u \<subseteq> A"
  using hops_closed [of u A N] by (auto simp: reachable_def)

lemma reachable_refl [simp]: "u \<in> reachable N u"
  using hops_reachable [of u N 0 u] by simp

lemma reachable_step: "v \<in> reachable N u \<Longrightarrow> w \<in> set (N v) \<Longrightarrow> w \<in> reachable N u"
proof -
  assume "v \<in> reachable N u" "w \<in> set (N v)"
  then obtain k where "w \<in> hops N (Suc k) u" by (auto simp: reachable_def)
  then show "w \<in> reachable N u" by (rule hops_reachable)
qed

lemma reachable_next: "v \<in> set (N u) \<Longrightarrow> v \<in> reachable N u"
  by (rule reachable_step [OF reachable_refl])

lemma reachable_trans: "v \<in> reachable N u \<Longrightarrow> reachable N v \<subseteq> reachable N u"
  by (rule reachable_closed) (auto intro: reachable_step)

text \<open>The frontier is where the next level comes from.\<close>

lemma level_Suc: "level N (Suc k) u = (\<Union>v \<in> level N k u. set (N v)) - hops N k u"
proof (cases k)
  case (Suc j)
  have "(\<Union>v \<in> hops N j u. set (N v)) \<subseteq> hops N k u" by (auto simp: Suc)
  moreover have "hops N k u = level N k u \<union> hops N j u" by (auto simp: Suc)
  ultimately show ?thesis by auto
qed simp

lemma walk_hops: "walk N p \<Longrightarrow> last p \<in> hops N (length p - 1) (hd p)"
proof (induction p rule: rev_induct)
  case (snoc v p)
  show ?case
  proof (cases "p = []")
    case False
    have w: "walk N p \<and> v \<in> set (N (last p))" using snoc.prems False
      by (induction N p rule: walk.induct) auto
    then have "last p \<in> hops N (length p - 1) (hd p)" using snoc.IH by simp
    then have "v \<in> hops N (Suc (length p - 1)) (hd p)" using w by auto
    then show ?thesis using False by simp
  qed simp
qed simp

lemma walk_snoc: "walk N p \<Longrightarrow> v \<in> set (N (last p)) \<Longrightarrow> walk N (p @ [v])"
  by (induction N p rule: walk.induct) auto

lemma hops_walk: "v \<in> hops N k u \<Longrightarrow> \<exists>p. walk N p \<and> hd p = u \<and> last p = v"
proof (induction k arbitrary: v)
  case 0
  then show ?case by (intro exI [of _ "[u]"]) simp
next
  case (Suc k)
  show ?case
  proof (cases "v \<in> hops N k u")
    case False
    then obtain w where w: "w \<in> hops N k u" "v \<in> set (N w)" using Suc.prems by auto
    from Suc.IH [OF w(1)] obtain p where "walk N p" "hd p = u" "last p = w" by blast
    then show ?thesis using walk_snoc [of N p v] w(2) by (intro exI [of _ "p @ [v]"]) (cases p; simp)
  qed (rule Suc.IH)
qed

lemma reachable_walks: "reachable N u = {v. \<exists>p. walk N p \<and> hd p = u \<and> last p = v}"
  using hops_walk [of _ N _ u] walk_hops by (fastforce simp: reachable_def)

section \<open>Breadth first\<close>

text \<open>
  The queue holds the rest of one level and the part of the next that is already found.
\<close>

definition bfs_inv :: "('v \<Rightarrow> 'v list) \<Rightarrow> 'v \<Rightarrow> nat \<Rightarrow> 'v list \<Rightarrow> 'v list \<Rightarrow> 'v set \<Rightarrow> bool" where
  "bfs_inv N src k q1 q2 vis \<longleftrightarrow>
     set q1 \<subseteq> level N k src \<and> distinct q1 \<and> distinct q2 \<and> vis = hops N k src \<union> set q2 \<and>
     set q2 = (\<Union>v \<in> level N k src - set q1. set (N v)) - hops N k src"

lemma bfs_inv_start: "bfs_inv N src 0 [src] [] {src}"
  by (simp add: bfs_inv_def)

lemma bfs_inv_step:
  assumes "bfs_inv N src k (u # q1) q2 vis" "set ns = set (N u) - vis" "distinct ns"
  shows "bfs_inv N src k q1 (q2 @ ns) (vis \<union> set ns)"
proof -
  have u: "u \<in> level N k src" "u \<notin> set q1" using assms(1) by (auto simp: bfs_inv_def)
  then have "level N k src - set q1 = insert u (level N k src - set (u # q1))" by auto
  then have "(\<Union>v \<in> level N k src - set q1. set (N v)) - hops N k src = set q2 \<union> (set (N u) - hops N k src)"
    using assms(1) by (auto simp: bfs_inv_def)
  then show ?thesis using assms by (auto simp: bfs_inv_def)
qed

lemma bfs_inv_next:
  assumes "bfs_inv N src k [] q2 vis"
  shows "bfs_inv N src (Suc k) q2 [] vis"
proof -
  have "set q2 = level N (Suc k) src" using assms by (simp add: bfs_inv_def level_Suc del: level.simps)
  moreover have "hops N (Suc k) src = hops N k src \<union> level N (Suc k) src" by auto
  ultimately show ?thesis using assms by (auto simp: bfs_inv_def)
qed

lemma bfs_inv_done: "bfs_inv N src k [] [] vis \<Longrightarrow> vis = reachable N src"
proof -
  assume i: "bfs_inv N src k [] [] vis"
  then have v: "vis = hops N k src" "level N (Suc k) src = {}" by (simp_all add: bfs_inv_def level_Suc del: level.simps)
  then have "set (N v) \<subseteq> vis" if "v \<in> vis" for v using that by auto
  then have "reachable N src \<subseteq> vis" using reachable_closed [of src vis N] v(1) hops_mono [of 0 k N src] by auto
  then show ?thesis using v(1) hops_reachable [of _ N k src] by blast
qed

lemma bfs_inv_front:
  assumes "bfs_inv N src k q1 q2 vis" "q1 @ q2 = u # q"
  obtains k' q1' q2' where "bfs_inv N src k' (u # q1') q2' vis" "q = q1' @ q2'"
proof (cases q1)
  case Nil
  then have "bfs_inv N src (Suc k) (u # q) [] vis" using assms bfs_inv_next [of N src k q2 vis] by simp
  then show thesis by (rule that) simp
next
  case (Cons v q1')
  then show thesis using assms that [of k q1' q2] by auto
qed

text \<open>The predecessors lead back level by level.\<close>

definition prev_inv :: "(gid \<Rightarrow> gid list) \<Rightarrow> gid \<Rightarrow> gid set \<Rightarrow> (gid \<times> gid option) list \<Rightarrow> bool" where
  "prev_inv N src vis prev \<longleftrightarrow> map_of prev src = Some None \<and>
     (\<forall>j. \<forall>v \<in> level N (Suc j) src \<inter> vis. \<exists>w \<in> level N j src \<inter> vis. map_of prev v = Some (Some w) \<and> v \<in> set (N w))"

lemma map_of_same: "map_of (rev (map (\<lambda>v. (v, c)) ns) @ prev) v = (if v \<in> set ns then Some c else map_of prev v)"
  by (auto simp: map_add_def map_of_map_restrict map_of_eq_None_iff rev_map split: option.split)

lemma prev_inv_step:
  assumes p: "prev_inv N src vis prev" and b: "bfs_inv N src k (u # q1) q2 vis" and ns: "set ns = set (N u) - vis"
  shows "prev_inv N src (vis \<union> set ns) (rev (map (\<lambda>v. (v, Some u)) ns) @ prev)"
proof -
  have u: "u \<in> level N k src" "u \<in> vis" and vis: "hops N k src \<subseteq> vis" "vis \<subseteq> hops N (Suc k) src"
    using b level_hops [of N k src] by (auto simp: bfs_inv_def)
  have new: "j = k" if "v \<in> level N (Suc j) src" "v \<in> set ns" for v j
  proof (rule antisym)
    have "v \<in> hops N (Suc k) src" using that(2) ns u level_hops [of N k src] by auto
    from level_not_hops [OF that(1) this] show "j \<le> k" by simp
    show "k \<le> j"
    proof (rule ccontr)
      assume "\<not> k \<le> j"
      then have "v \<in> hops N k src" using that(1) level_hops [of N "Suc j" src] hops_mono [of "Suc j" k N src] by auto
      then show False using that(2) ns vis(1) by auto
    qed
  qed
  have "src \<notin> set ns" using ns vis(1) hops_mono [of 0 k N src] by auto
  then show ?thesis using p new u ns unfolding prev_inv_def map_of_same by (auto simp del: level.simps) blast+
qed

lemma path_back_walk:
  assumes "prev_inv N src vis prev"
  shows "v \<in> level N j src \<inter> vis \<Longrightarrow>
    \<exists>p. path_back prev (Some v) = Some p \<and> walk N (rev p) \<and> length p = Suc j \<and> last p = src \<and> hd p = v \<and> p \<noteq> []"
proof (induction j arbitrary: v)
  case 0
  then show ?case using assms by (auto simp: prev_inv_def path_back.simps)
next
  case (Suc j)
  then obtain w where w: "w \<in> level N j src \<inter> vis" "map_of prev v = Some (Some w)" "v \<in> set (N w)"
    using assms unfolding prev_inv_def by blast
  from Suc.IH [OF w(1)] obtain p where p: "path_back prev (Some w) = Some p" "walk N (rev p)" "length p = Suc j"
    "last p = src" "hd p = w" "p \<noteq> []" by blast
  have "walk N (rev p @ [v])" using p(2,5,6) w(3) by (intro walk_snoc) (simp_all add: last_rev)
  then show ?case using p w(2) by (intro exI [of _ "v # p"]) (simp add: path_back.simps [of prev "Some v"])
qed

text \<open>The neighbours the loop adds are those of the graph.\<close>

lemma fresh_nbrs: "set (fresh (\<lambda>e. crosses d e \<and> admits ef u e s) (f_get_adj u s) vis) = set (nbrs d ef s u) - vis"
  by (auto simp: nbrs_def)

definition shortest :: "('v \<Rightarrow> 'v list) \<Rightarrow> 'v \<Rightarrow> 'v \<Rightarrow> 'v list \<Rightarrow> bool" where
  "shortest N u t p \<longleftrightarrow>
     (if t \<in> reachable N u
      then walk N p \<and> hd p = u \<and> last p = t \<and> (\<forall>p'. walk N p' \<and> hd p' = u \<and> last p' = t \<longrightarrow> length p \<le> length p')
      else p = [])"

lemma shortest_level:
  assumes "walk N p" "hd p = u" "last p = t" "length p = Suc k" "t \<in> level N k u"
  shows "shortest N u t p"
proof -
  have "t \<in> reachable N u" using assms(5) level_hops by (fastforce simp: reachable_def)
  moreover have "length p \<le> length p'" if "walk N p' \<and> hd p' = u \<and> last p' = t" for p'
    using level_not_hops [OF assms(5), of "length p' - 1"] walk_hops [of N p'] that assms(4) by (cases p') auto
  ultimately show ?thesis using assms by (simp add: shortest_def)
qed

lemma bfs_loop_shortest:
  "bfs_inv (nbrs d ef s) src k q1 q2 vis \<Longrightarrow> q = q1 @ q2 \<Longrightarrow> prev_inv (nbrs d ef s) src vis prev \<Longrightarrow> t \<notin> vis - set q \<Longrightarrow>
    \<exists>p. bfs_loop s d ef t q vis prev = Some p \<and> shortest (nbrs d ef s) src t p"
proof (induction s d ef t q vis prev arbitrary: k q1 q2 rule: bfs_loop.induct)
  case (1 s d ef t vis prev)
  then show ?case using bfs_inv_done [of "nbrs d ef s" src k vis] by (simp add: shortest_def)
next
  case (2 s d ef t u q vis prev)
  obtain k' q1' q2' where i: "bfs_inv (nbrs d ef s) src k' (u # q1') q2' vis" "q = q1' @ q2'"
    using bfs_inv_front [OF 2(2)] 2(3) by metis
  have u: "u \<in> level (nbrs d ef s) k' src \<inter> vis" using i(1) level_hops [of "nbrs d ef s" k' src] by (auto simp: bfs_inv_def)
  show ?case
  proof (cases "u = t")
    case True
    obtain p where p: "path_back prev (Some u) = Some p" "walk (nbrs d ef s) (rev p)" "length p = Suc k'" "last p = src" "hd p = u" "p \<noteq> []"
      using path_back_walk [OF 2(4) u] by blast
    have "shortest (nbrs d ef s) src t (rev p)" by (rule shortest_level) (use p True u [THEN IntD1] in \<open>simp_all add: hd_rev last_rev\<close>)
    then show ?thesis using p(1) True by simp
  next
    case False
    define ns where "ns = fresh (\<lambda>e. crosses d e \<and> admits ef u e s) (f_get_adj u s) vis"
    have ns: "set ns = set (nbrs d ef s u) - vis" "distinct ns" unfolding ns_def fresh_nbrs by simp_all
    have "prev_inv (nbrs d ef s) src (vis \<union> set ns) (rev (map (\<lambda>v. (v, Some u)) ns) @ prev)"
      by (rule prev_inv_step [OF 2(4) i(1) ns(1)])
    moreover have "t \<notin> vis \<union> set ns - set (q @ ns)" using 2(5) False by auto
    moreover have "q @ ns = q1' @ (q2' @ ns)" by (simp add: i(2))
    ultimately show ?thesis
      using 2(1) [OF False ns_def bfs_inv_step [OF i(1) ns]] False by (simp add: ns_def [symmetric] Let_def)
  qed
qed

section \<open>All nodes\<close>

lemma node_of_key: "good_id u \<Longrightarrow> 10 \<notin> set u \<Longrightarrow> node_of (node_key u) = Some u"
  by (cases u) (auto simp: node_of_def node_key_def good_id_def bad_id_def butlast_append)

lemma node_of_head: "node_of k = Some u \<Longrightarrow> take 2 k = [78, 58]"
  by (cases k rule: rev_cases) (auto simp: node_of_def Let_def split: if_splits)

text \<open>The iteration lists the nodes of the graph.\<close>

lemma iter_nodes_all:
  assumes rep: "represents (map_of s) V E" and ok: "node_keys_ok s"
  shows "set (f_iter_nodes s) = V"
proof -
  note D = representsD [OF rep]
  have "u \<in> set (f_iter_nodes s) \<longleftrightarrow> (\<exists>k \<in> dom (map_of s). node_of k = Some u)" for u
    by (force simp: f_iter_nodes_def map_filter_def dom_map_of_conv_image_fst image_iff)
  also have "(\<exists>k \<in> dom (map_of s). node_of k = Some u) \<longleftrightarrow> u \<in> V" for u
  proof
    assume "\<exists>k \<in> dom (map_of s). node_of k = Some u"
    then obtain k where k: "k \<in> dom (map_of s)" "node_of k = Some u" by blast
    then have "k \<in> nkeys s" using node_of_head by (simp add: nkeys_def)
    then obtain w where "k = node_key w" "good_id w" "10 \<notin> set w" using ok unfolding node_keys_ok_def by blast
    then show "u \<in> V" using k node_of_key [of w] D(4) by auto
  next
    assume u: "u \<in> V"
    then have g: "good_id u" "map_of s (node_key u) \<noteq> None" using D(2,4) by auto
    then have "node_key u \<in> nkeys s" by (auto simp: nkeys_def)
    then obtain w where "node_key u = node_key w" "10 \<notin> set w" using ok unfolding node_keys_ok_def by blast
    then have "node_of (node_key u) = Some u" using node_of_key g(1) by simp
    then show "\<exists>k \<in> dom (map_of s). node_of k = Some u" using g(2) by blast
  qed
  finally show ?thesis by blast
qed

lemma history_nodes:
  assumes "\<forall>c \<in> set cs. op_ok c \<and> one_line c" "fold graph_step cs ({}, {}) = (V, E)"
  shows "represents (map_of (fold exec_op cs [])) V E" "set (f_iter_nodes (fold exec_op cs [])) = V"
proof -
  show rep: "represents (map_of (fold exec_op cs [])) V E"
    using history_refines [OF represents_empty, of cs] assms by simp
  have "node_keys_ok []" by (simp add: node_keys_ok_def nkeys_def)
  then show "set (f_iter_nodes (fold exec_op cs [])) = V"
    by (intro iter_nodes_all [OF rep] node_keys_history) (use assms(1) in simp_all)
qed

text \<open>A small graph for examples: a path of two directed edges.\<close>

definition demo_ops :: "graph_op list" where
  "demo_ops = [AddEdge [97] [98] True [], AddEdge [98] [99] True []]"

definition demo :: kv where
  "demo = fold exec_op demo_ops []"

abbreviation demo_nodes :: "gid set" where "demo_nodes \<equiv> {[97], [98], [99]}"
abbreviation demo_edges :: "(bool \<times> gid \<times> gid) set" where "demo_edges \<equiv> {(True, [97], [98]), (True, [98], [99])}"

lemma demo_history:
  "\<forall>c \<in> set demo_ops. op_ok c \<and> one_line c" "fold graph_step demo_ops ({}, {}) = (demo_nodes, demo_edges)"
  by (auto simp: demo_ops_def bad_id_def edge_of_def)

lemma demo_graph: "represents (map_of demo) demo_nodes demo_edges"
  "f_has_node [97] demo" "f_has_node [98] demo" "f_has_node [99] demo"
proof -
  show "represents (map_of demo) demo_nodes demo_edges"
    using history_nodes(1) [OF demo_history] by (simp add: demo_def)
  show "f_has_node [97] demo" "f_has_node [98] demo" "f_has_node [99] demo" by code_simp+
qed

text \<open>
  C10: between two nodes of the store, the search returns a path with the fewest hops along
  the edges the direction and the filter allow, and the empty path exactly when there is none.
\<close>

theorem bfs_finds_shortest:
  assumes "f_has_node src s" "f_has_node t s"
  shows "\<exists>p. bfs_shortest_path src t d ef s = Some p \<and> shortest (nbrs d ef s) src t p"
proof -
  have "src \<notin> level N (Suc j) src" for N :: "gid \<Rightarrow> gid list" and j using level_not_hops [of src N "Suc j" src 0] by auto
  then have "prev_inv (nbrs d ef s) src {src} [(src, None)]" by (simp add: prev_inv_def del: level.simps)
  then show ?thesis
    using assms bfs_loop_shortest [where q = "[src]" and prev = "[(src, None)]" and t = t, OF bfs_inv_start] by (simp add: bfs_shortest_path_def)
qed

lemma bfs_finds_shortest_witness:
  "shortest (nbrs Out None demo) [97] [99] [[97], [98], [99]] \<and> shortest (nbrs Out None demo) [99] [97] []"
proof -
  have "bfs_shortest_path [97] [99] Out None demo = Some [[97], [98], [99]]" "bfs_shortest_path [99] [97] Out None demo = Some []"
    by code_simp+
  then show ?thesis
    using bfs_finds_shortest [OF demo_graph(2,4), of Out None] bfs_finds_shortest [OF demo_graph(4,2), of Out None] by simp
qed

section \<open>Frontier by frontier\<close>

lemma sweep_level:
  "set (sweep (crosses d) s us (hops (nbrs d None s) k u)) = (\<Union>v \<in> set us. set (nbrs d None s v)) - hops (nbrs d None s) k u"
  by (auto simp: nbrs_def admits_def)

lemma sweep_next:
  "set us = level (nbrs d None s) k u \<Longrightarrow> set (sweep (crosses d) s us (hops (nbrs d None s) k u)) = level (nbrs d None s) (Suc k) u"
  by (simp only: sweep_level level_Suc)

lemma hops_Suc: "hops N (Suc k) u = hops N k u \<union> level N (Suc k) u"
  by auto

lemma level_empty: "level N (Suc k) u = {} \<Longrightarrow> hops N j u \<subseteq> hops N k u"
proof -
  assume "level N (Suc k) u = {}"
  then have "\<And>v. v \<in> hops N k u \<Longrightarrow> set (N v) \<subseteq> hops N k u" by auto
  then show ?thesis using hops_closed [of u "hops N k u" N j] hops_mono [of 0 k N u] by auto
qed

lemma peel: "{(v, int j) |v j. k < j \<and> j \<le> k + Suc n \<and> v \<in> L j} =
    (\<lambda>v. (v, int (Suc k))) ` L (Suc k) \<union> {(v, int j) |v j. Suc k < j \<and> j \<le> Suc k + n \<and> v \<in> L j}"
proof -
  have "k < j \<and> j \<le> k + Suc n \<longleftrightarrow> j = Suc k \<or> Suc k < j \<and> j \<le> Suc k + n" for j by arith
  then have "k < j \<and> j \<le> k + Suc n \<and> v \<in> L j \<longleftrightarrow> j = Suc k \<and> v \<in> L j \<or> Suc k < j \<and> j \<le> Suc k + n \<and> v \<in> L j" for v j by blast
  then show ?thesis by (simp only:) (auto simp del: of_nat_Suc)
qed

text \<open>What \<open>n\<close> more rounds add.\<close>

lemma k_hop_loop_result:
  "set fr = level (nbrs d None s) k u \<Longrightarrow> set (k_hop_loop n s d (int (Suc k)) fr (hops (nbrs d None s) k u) res) =
    set res \<union> {(v, int j) |v j. k < j \<and> j \<le> k + n \<and> v \<in> level (nbrs d None s) j u}"
proof (induction n arbitrary: k fr res)
  case (Suc n)
  let ?N = "nbrs d None s"
  define nxt where "nxt = sweep (crosses d) s fr (hops ?N k u)"
  have nxt: "set nxt = level ?N (Suc k) u" unfolding nxt_def by (rule sweep_next [OF Suc.prems])
  have split: "{(v, int j) |v j. k < j \<and> j \<le> k + Suc n \<and> v \<in> level ?N j u} =
      (\<lambda>v. (v, int (Suc k))) ` set nxt \<union> {(v, int j) |v j. Suc k < j \<and> j \<le> Suc k + n \<and> v \<in> level ?N j u}"
    unfolding nxt by (rule peel)
  show ?case
  proof (cases "nxt = []")
    case True
    then have "level ?N (Suc k) u = {}" using nxt by simp
    from level_empty [OF this] have "level ?N j u = {}" if "Suc k < j" for j
      using level_hops [of ?N j u] level_not_hops [of _ ?N j u k] that by (fastforce simp del: level.simps)
    then show ?thesis using True split by (auto simp: nxt_def [symmetric] simp del: level.simps)
  next
    case False
    have "set (k_hop_loop n s d (int (Suc (Suc k))) nxt (hops ?N (Suc k) u) (res @ map (\<lambda>v. (v, int (Suc k))) nxt)) =
        set (res @ map (\<lambda>v. (v, int (Suc k))) nxt) \<union> {(v, int j) |v j. Suc k < j \<and> j \<le> Suc k + n \<and> v \<in> level ?N j u}"
      by (rule Suc.IH [OF nxt])
    moreover have "hops ?N k u \<union> set nxt = hops ?N (Suc k) u" unfolding hops_Suc nxt ..
    ultimately show ?thesis using False unfolding split
      by (simp add: nxt_def [symmetric] Let_def algebra_simps Un_assoc del: hops.simps)
  qed
qed auto

text \<open>
  C14: the k-hop neighbours are exactly the nodes at a distance from 1 to \<open>k\<close>, each with its
  distance.
\<close>

theorem k_hop_distances:
  assumes "f_has_node u s"
  shows "set (k_hop_neighbors u k d s) = {(v, int j) |v j. 1 \<le> j \<and> int j \<le> k \<and> v \<in> level (nbrs d None s) j u}"
proof (cases "k < 1")
  case False
  have "set (k_hop_loop (nat k) s d (int (Suc 0)) [u] (hops (nbrs d None s) 0 u) []) =
      set [] \<union> {(v, int j) |v j. 0 < j \<and> j \<le> 0 + nat k \<and> v \<in> level (nbrs d None s) j u}"
    by (rule k_hop_loop_result) simp
  also have "\<dots> = {(v, int j) |v j. 1 \<le> j \<and> int j \<le> k \<and> v \<in> level (nbrs d None s) j u}"
    using False by (auto simp del: level.simps)
  finally show ?thesis using assms False by (simp add: k_hop_neighbors_def)
qed (auto simp: k_hop_neighbors_def)

lemma k_hop_distances_witness:
  "k_hop_neighbors [97] 2 Out demo = [([98], 1), ([99], 2)] \<and>
   {([98], 1), ([99], 2)} = {(v, int j) |v j. 1 \<le> j \<and> int j \<le> 2 \<and> v \<in> level (nbrs Out None demo) j [97]}"
proof -
  have k: "k_hop_neighbors [97] 2 Out demo = [([98], 1), ([99], 2)]" by code_simp
  show ?thesis using k_hop_distances [OF demo_graph(2), of 2 Out] unfolding k by simp
qed

lemma reach_loop_result:
  "set fr = level (nbrs d None s) k u \<Longrightarrow> vis = hops (nbrs d None s) k u \<Longrightarrow> res = vis - {u} \<Longrightarrow>
    reach_loop s d fr vis res = reachable (nbrs d None s) u - {u}"
proof (induction s d fr vis res arbitrary: k rule: reach_loop.induct)
  case (1 s d fr vis res)
  let ?N = "nbrs d None s"
  show ?case
  proof (cases "fr = []")
    case True
    then have "level ?N k u = {}" using 1(2) by simp
    then obtain j where j: "k = Suc j" "level ?N (Suc j) u = {}" by (cases k) auto
    then have "reachable ?N u \<subseteq> hops ?N k u" using level_empty [OF j(2)] by (auto simp: reachable_def)
    then have "reachable ?N u = hops ?N k u" using hops_reachable [of _ ?N k u] by blast
    then show ?thesis using True 1(3,4) by (simp add: reach_loop.simps)
  next
    case False
    define nxt where "nxt = sweep (crosses d) s fr vis"
    have nxt: "set nxt = level ?N (Suc k) u" unfolding nxt_def 1(3) by (rule sweep_next [OF 1(2)])
    have "u \<notin> set nxt" using nxt hops_mono [of 0 k ?N u] by auto
    then have res: "res \<union> set nxt = vis \<union> set nxt - {u}" unfolding 1(4) by blast
    have "vis \<union> set nxt = hops ?N (Suc k) u" unfolding 1(3) hops_Suc nxt ..
    from 1(1) [OF False nxt_def nxt this res] show ?thesis using False by (subst reach_loop.simps) (simp add: nxt_def Let_def)
  qed
qed

lemma reach_loop_start: "reach_loop s d [u] {u} {} = reachable (nbrs d None s) u - {u}"
  by (rule reach_loop_result [where k = 0]) auto

text \<open>Edges run both ways between the lists: what \<open>u\<close> reaches forward reaches \<open>u\<close> backward.\<close>

lemma reach_within: "v \<in> reachable N u \<Longrightarrow> set (N v) \<subseteq> reachable N u"
  by (auto intro: reachable_step)

lemma reachable_sym:
  assumes step: "\<And>x y. x \<in> A \<Longrightarrow> y \<in> set (N x) \<Longrightarrow> x \<in> set (M y) \<and> y \<in> A" and u: "u \<in> A" and v: "v \<in> reachable N u"
  shows "u \<in> reachable M v"
proof -
  have "x \<in> hops N k u \<Longrightarrow> x \<in> A \<and> u \<in> reachable M x" for k x
  proof (induction k arbitrary: x)
    case (Suc k)
    show ?case
    proof (cases "x \<in> hops N k u")
      case False
      then obtain w where w: "w \<in> hops N k u" "x \<in> set (N w)" using Suc.prems by auto
      have "w \<in> set (M x)" "x \<in> A" using step Suc.IH [OF w(1)] w(2) by auto
      then have "w \<in> reachable M x" using reachable_step [OF reachable_refl, of w M x] by blast
      then show ?thesis using Suc.IH [OF w(1)] reachable_trans [of w M x] \<open>x \<in> A\<close> by blast
    qed (rule Suc.IH)
  qed (use u in simp)
  then show ?thesis using v by (auto simp: reachable_def)
qed

lemma nbrs_mem:
  assumes rep: "represents (map_of s) V E" and u: "u \<in> V"
  shows "v \<in> set (nbrs Out None s u) \<longleftrightarrow> (True, u, v) \<in> E \<or> edge_of u v False \<in> E"
    "v \<in> set (nbrs In None s u) \<longleftrightarrow> (True, v, u) \<in> E \<or> edge_of u v False \<in> E"
proof -
  have a: "set (f_get_adj u s) = incident E u" using adj_entries [OF rep representsD(2) [OF rep u]] by simp
  have "v \<in> set (nbrs d None s u) \<longleftrightarrow> (\<exists>c \<in> {62, 60, 45}. c # v \<in> incident E u \<and> crosses d (c # v))" for d
    unfolding nbrs_def using a incident_forms [of _ E u] by (force simp: admits_def crosses_def image_iff)
  then show "v \<in> set (nbrs Out None s u) \<longleftrightarrow> (True, u, v) \<in> E \<or> edge_of u v False \<in> E"
    "v \<in> set (nbrs In None s u) \<longleftrightarrow> (True, v, u) \<in> E \<or> edge_of u v False \<in> E"
    by (auto simp: incident_mem crosses_def)
qed

lemma nbrs_back:
  assumes rep: "represents (map_of s) V E" and x: "x \<in> V"
  shows "y \<in> set (nbrs Out None s x) \<Longrightarrow> x \<in> set (nbrs In None s y) \<and> y \<in> V"
    and "y \<in> set (nbrs In None s x) \<Longrightarrow> x \<in> set (nbrs Out None s y) \<and> y \<in> V"
proof -
  have "y \<in> V" if "(True, x, y) \<in> E \<or> (True, y, x) \<in> E \<or> edge_of x y False \<in> E"
    using representsD(3) [OF rep] that undirected_mem [OF representsD(3) [OF rep]] by (auto simp: ends_ok_def)
  then show "y \<in> set (nbrs Out None s x) \<Longrightarrow> x \<in> set (nbrs In None s y) \<and> y \<in> V"
    "y \<in> set (nbrs In None s x) \<Longrightarrow> x \<in> set (nbrs Out None s y) \<and> y \<in> V"
    using nbrs_mem [OF rep] x edge_of_sym [of x y] by auto
qed

text \<open>
  C15: the descendants of a node are the other nodes a path along the edges leads to, and a
  node is among the ancestors of exactly those it is an ancestor of.
\<close>

theorem descendants_ancestors:
  assumes rep: "represents (map_of s) V E" and uv: "u \<in> V" "v \<in> V"
  shows "descendants u s = {w. \<exists>p. walk (nbrs Out None s) p \<and> hd p = u \<and> last p = w} - {u} \<and>
    (v \<in> descendants u s \<longleftrightarrow> u \<in> ancestors v s)"
proof -
  have n: "f_has_node u s" "f_has_node v s" using uv representsD(2,4) [OF rep] by (auto simp: f_has_node_def)
  then have r: "descendants u s = reachable (nbrs Out None s) u - {u}" "ancestors v s = reachable (nbrs In None s) v - {v}"
    by (simp_all add: descendants_def ancestors_def reach_loop_start)
  have "reachable (nbrs Out None s) u = {w. \<exists>p. walk (nbrs Out None s) p \<and> hd p = u \<and> last p = w}"
    by (rule reachable_walks)
  moreover have "v \<in> reachable (nbrs Out None s) u \<longleftrightarrow> u \<in> reachable (nbrs In None s) v"
    using reachable_sym [of V "nbrs Out None s" "nbrs In None s" u v] reachable_sym [of V "nbrs In None s" "nbrs Out None s" v u]
      nbrs_back [OF rep] uv by blast
  ultimately show ?thesis using r by auto
qed

lemma descendants_ancestors_witness:
  "descendants [97] demo = {[98], [99]} \<and> [97] \<in> ancestors [99] demo \<and> [99] \<notin> ancestors [97] demo"
proof -
  have d: "descendants [97] demo = {[98], [99]}" "descendants [99] demo = {}" by code_simp+
  have "[99] \<in> descendants [97] demo \<longleftrightarrow> [97] \<in> ancestors [99] demo" "[97] \<in> descendants [99] demo \<longleftrightarrow> [99] \<in> ancestors [97] demo"
    using descendants_ancestors [OF demo_graph(1), of "[97]" "[99]"] descendants_ancestors [OF demo_graph(1), of "[99]" "[97]"] by auto
  then show ?thesis unfolding d by simp
qed

section \<open>Depth first\<close>

text \<open>What a search of a list may add, and what it must.\<close>

definition grown :: "(gid \<Rightarrow> gid list) \<Rightarrow> gid set \<Rightarrow> gid set \<Rightarrow> gid list \<Rightarrow> gid set \<Rightarrow> bool" where
  "grown N from vis q vis' \<longleftrightarrow>
     vis' = vis \<union> set q \<and> distinct q \<and> set q \<inter> vis = {} \<and> set q \<subseteq> (\<Union>x \<in> from. reachable N x) \<and>
     from \<subseteq> vis' \<and> (\<forall>x \<in> set q. set (N x) \<subseteq> vis')"

lemma grown_append:
  assumes "grown N A vis q vis1" "grown N B vis1 q' vis2"
  shows "grown N (A \<union> B) vis (q @ q') vis2"
  using assms unfolding grown_def by (auto; blast)

lemma grown_root:
  assumes "grown N (set (N u)) (insert u vis) q vis'" "u \<notin> vis"
  shows "grown N {u} vis (u # q) vis'"
proof -
  have "reachable N x \<subseteq> reachable N u" if "x \<in> set (N u)" for x
    using reachable_trans [OF reachable_next [of x N u]] that .
  then have "(\<Union>x \<in> set (N u). reachable N x) \<subseteq> reachable N u" by blast
  then have "set q \<subseteq> reachable N u" using assms(1) unfolding grown_def by blast
  then show ?thesis using assms unfolding grown_def by auto
qed

lemma skip_entry: "\<not> P e \<Longrightarrow> {x \<in> set (e # es). P x} = {x \<in> set es. P x}"
  by auto

lemma dfs_grows:
  "dfs n s d ef u vis = Inr (p, vis') \<Longrightarrow> grown (nbrs d ef s) {u} vis p vis' \<and> (u \<notin> vis \<longrightarrow> hd p = u)"
  "dfs_entries n s d ef u es path vis = Inr (p, vis') \<Longrightarrow>
    \<exists>q. p = path @ q \<and> grown (nbrs d ef s) (tl ` {e \<in> set es. crosses d e \<and> admits ef u e s}) vis q vis'"
proof (induction n s d ef u vis and n s d ef u es path vis arbitrary: p vis' and p vis' rule: dfs_dfs_entries.induct)
  case (2 n s d ef u vis)
  show ?case
  proof (cases "u \<in> vis")
    case False
    then obtain q where q: "p = [u] @ q"
      "grown (nbrs d ef s) (tl ` {e \<in> set (f_get_adj u s). crosses d e \<and> admits ef u e s}) (insert u vis) q vis'"
      using 2 by auto
    have "tl ` {e \<in> set (f_get_adj u s). crosses d e \<and> admits ef u e s} = set (nbrs d ef s u)" by (auto simp: nbrs_def)
    then show ?thesis using grown_root [of "nbrs d ef s" u vis q vis'] q False by simp
  qed (use 2 in \<open>simp add: grown_def\<close>)
next
  case (4 n s d ef u e es path vis)
  show ?case
  proof (cases "crosses d e \<and> admits ef u e s")
    case False
    then show ?thesis using 4(1) 4(4) skip_entry [of "\<lambda>x. crosses d x \<and> admits ef u x s" e es] by auto
  next
    case True
    then obtain p1 vis1 where d: "dfs n s d ef (tl e) vis = Inr (p1, vis1)" "dfs_entries n s d ef u es (path @ p1) vis1 = Inr (p, vis')"
      using 4(4) by (auto split: sum.splits)
    obtain q where q: "p = (path @ p1) @ q" "grown (nbrs d ef s) (tl ` {e \<in> set es. crosses d e \<and> admits ef u e s}) vis1 q vis'"
      using 4(3) [OF _ d(1)] d(2) True by blast
    have "grown (nbrs d ef s) {tl e} vis p1 vis1" using 4(2) [OF _ d(1)] True by blast
    from grown_append [OF this q(2)] have "grown (nbrs d ef s) ({tl e} \<union> tl ` {e \<in> set es. crosses d e \<and> admits ef u e s}) vis (p1 @ q) vis'" .
    moreover have "tl ` {x \<in> set (e # es). crosses d x \<and> admits ef u x s} = {tl e} \<union> tl ` {e \<in> set es. crosses d e \<and> admits ef u e s}"
      using True by auto
    ultimately show ?thesis using q(1) by (intro exI [of _ "p1 @ q"]) simp
  qed
qed (auto simp: grown_def)

text \<open>Enough levels for all nodes that can be reached.\<close>

lemma dfs_returns:
  "finite W \<Longrightarrow> \<forall>x \<in> W. set (nbrs d ef s x) \<subseteq> W \<Longrightarrow> u \<in> W \<Longrightarrow> card (W - vis) < n \<Longrightarrow> \<exists>p vis'. dfs n s d ef u vis = Inr (p, vis')"
  "finite W \<Longrightarrow> \<forall>x \<in> W. set (nbrs d ef s x) \<subseteq> W \<Longrightarrow> tl ` {e \<in> set es. crosses d e \<and> admits ef u e s} \<subseteq> W \<Longrightarrow> card (W - vis) < n \<Longrightarrow>
    \<exists>p vis'. dfs_entries n s d ef u es path vis = Inr (p, vis')"
proof (induction n s d ef u vis and n s d ef u es path vis rule: dfs_dfs_entries.induct)
  case (2 n s d ef u vis)
  show ?case
  proof (cases "u \<in> vis")
    case False
    have "tl ` {e \<in> set (f_get_adj u s). crosses d e \<and> admits ef u e s} \<subseteq> W" using 2(3,4) by (fastforce simp: nbrs_def)
    moreover have "card (W - insert u vis) < n"
      using 2(2,4,5) False card_Suc_Diff1 [of "W - vis" u] by (simp add: Diff_insert [of W u vis])
    ultimately show ?thesis using 2(1) [OF False 2(2,3)] False by simp
  qed simp
next
  case (4 n s d ef u e es path vis)
  show ?case
  proof (cases "crosses d e \<and> admits ef u e s")
    case False
    then show ?thesis using 4(1) [OF _ 4(4,5) _ 4(7)] 4(6) skip_entry [of "\<lambda>x. crosses d x \<and> admits ef u x s" e es] by auto
  next
    case True
    then obtain p1 vis1 where d: "dfs n s d ef (tl e) vis = Inr (p1, vis1)" using 4(2) [OF _ 4(4,5)] 4(6,7) by auto
    have "vis \<subseteq> vis1" using dfs_grows(1) [OF d] by (auto simp: grown_def)
    then have "card (W - vis1) < n" using 4(7) card_mono [of "W - vis" "W - vis1"] 4(4) by (auto intro: le_less_trans)
    then show ?thesis using 4(3) [OF _ d refl 4(4,5)] True d 4(6) by auto
  qed
qed auto

lemma reachable_finite: "finite (reachable (nbrs d ef s) u)"
proof (rule finite_subset)
  show "reachable (nbrs d ef s) u \<subseteq> insert u (named s)"
    using adj_named [of _ s] by (intro reachable_closed) (auto simp: nbrs_def)
qed simp

text \<open>
  C13: a depth-first traversal lists every node that can be reached exactly once, starting with
  its source; the limit of 500 levels is never met when fewer than 500 nodes can be reached.
\<close>

theorem dfs_visits_reachable:
  assumes "f_has_node src s" "card (reachable (nbrs d ef s) src) < MAX_RECURSION"
  shows "\<exists>p. dfs_traverse src {} d ef s = Inr p \<and> distinct p \<and> hd p = src \<and> set p = reachable (nbrs d ef s) src"
proof -
  let ?N = "nbrs d ef s"
  obtain p vis where d: "dfs MAX_RECURSION s d ef src {} = Inr (p, vis)"
    using dfs_returns(1) [where W = "reachable ?N src" and d = d and ef = ef and s = s and u = src and vis = "{}" and n = MAX_RECURSION]
      reachable_finite reach_within [of _ ?N src] assms(2) by auto
  have g: "grown ?N {src} {} p vis" "hd p = src" using dfs_grows(1) [OF d] by simp_all
  have "reachable ?N src \<subseteq> vis" by (rule reachable_closed) (use g(1) in \<open>auto simp: grown_def\<close>)
  then show ?thesis using d g assms(1) by (auto simp: grown_def dfs_traverse_def)
qed

lemma dfs_visits_reachable_witness:
  "dfs_traverse [97] {} Out None demo = Inr [[97], [98], [99]] \<and> reachable (nbrs Out None demo) [97] = {[97], [98], [99]}"
proof -
  have d: "dfs_traverse [97] {} Out None demo = Inr [[97], [98], [99]]" by code_simp
  have "reachable (nbrs Out None demo) [97] \<subseteq> demo_nodes"
    by (rule reachable_closed) (use nbrs_back(1) [OF demo_graph(1)] in auto)
  then have "card (reachable (nbrs Out None demo) [97]) \<le> card demo_nodes" by (intro card_mono) auto
  then have "card (reachable (nbrs Out None demo) [97]) < MAX_RECURSION" by (simp add: MAX_RECURSION_def)
  from dfs_visits_reachable [OF demo_graph(2) this] d show ?thesis by simp
qed

section \<open>Components\<close>

lemma all_nbrs: "tl ` set (f_get_adj u s) = set (nbrs Both None s u)"
  by (auto simp: nbrs_def crosses_def admits_def)

lemma component_loop_grows:
  "set q \<subseteq> vis \<Longrightarrow> distinct q \<Longrightarrow> \<forall>x \<in> vis - set q. set (nbrs Both None s x) \<subseteq> vis \<Longrightarrow> component_loop s q vis c = (c', vis') \<Longrightarrow>
    \<exists>new. c' = c @ new \<and> distinct new \<and> vis \<subseteq> vis' \<and> set new = set q \<union> (vis' - vis) \<and>
      (\<forall>x \<in> vis'. set (nbrs Both None s x) \<subseteq> vis') \<and> set new \<subseteq> (\<Union>x \<in> set q. reachable (nbrs Both None s) x)"
proof (induction s q vis c rule: component_loop.induct)
  case (2 s u q vis c)
  let ?N = "nbrs Both None s"
  define ns where "ns = fresh (\<lambda>_. True) (f_get_adj u s) vis"
  have ns: "set ns = set (?N u) - vis" "distinct ns" by (simp_all add: ns_def all_nbrs)
  have "component_loop s (q @ ns) (vis \<union> set ns) (c @ [u]) = (c', vis')" using 2(5) by (simp add: ns_def Let_def)
  moreover have "set (q @ ns) \<subseteq> vis \<union> set ns" "distinct (q @ ns)" "\<forall>x \<in> vis \<union> set ns - set (q @ ns). set (?N x) \<subseteq> vis \<union> set ns"
    using 2(2-4) ns by auto
  ultimately obtain new where new: "c' = (c @ [u]) @ new" "distinct new" "vis \<union> set ns \<subseteq> vis'"
    "set new = set (q @ ns) \<union> (vis' - (vis \<union> set ns))" "\<forall>x \<in> vis'. set (?N x) \<subseteq> vis'" "set new \<subseteq> (\<Union>x \<in> set (q @ ns). reachable ?N x)"
    using 2(1) [OF ns_def] by blast
  have "reachable ?N x \<subseteq> reachable ?N u" if "x \<in> set ns" for x
    using reachable_trans [OF reachable_next [of x ?N u]] that ns(1) by blast
  then have "set (u # new) \<subseteq> (\<Union>x \<in> set (u # q). reachable ?N x)" using new(6) by fastforce
  moreover have "set (u # new) = set (u # q) \<union> (vis' - vis)" "u \<notin> set new" using new(3,4) ns(1) 2(2,3) by auto
  ultimately show ?case using new by (intro exI [of _ "u # new"]) auto
qed auto

text \<open>In a symmetric graph, closed sets hold whole components.\<close>

lemma components_loop_partition:
  assumes sym: "\<And>x y. x \<in> V \<Longrightarrow> y \<in> set (nbrs Both None s x) \<Longrightarrow> x \<in> set (nbrs Both None s y) \<and> y \<in> V"
  shows "set us \<subseteq> V \<Longrightarrow> vis \<subseteq> V \<Longrightarrow> \<forall>x \<in> vis. set (nbrs Both None s x) \<subseteq> vis \<Longrightarrow> vis = \<Union> (set ` set cs) \<Longrightarrow> distinct (concat cs) \<Longrightarrow>
      \<forall>c \<in> set cs. \<forall>u \<in> set c. set c = reachable (nbrs Both None s) u \<Longrightarrow> cs' = components_loop s us vis cs \<Longrightarrow>
      distinct (concat cs') \<and> set us \<union> vis \<subseteq> set (concat cs') \<and> set (concat cs') \<subseteq> V \<and>
      (\<forall>c \<in> set cs'. \<forall>u \<in> set c. set c = reachable (nbrs Both None s) u)"
proof (induction us arbitrary: vis cs)
  case (Cons u us)
  let ?N = "nbrs Both None s"
  show ?case
  proof (cases "u \<in> vis")
    case True
    then show ?thesis using Cons.IH [of vis cs] Cons.prems by auto
  next
    case False
    obtain c vis' where c: "component_loop s [u] (insert u vis) [] = (c, vis')" by (metis surj_pair)
    have "\<forall>x \<in> insert u vis - set [u]. set (?N x) \<subseteq> insert u vis" using Cons.prems(3) by auto
    from component_loop_grows [OF _ _ this c] have c': "distinct c" "insert u vis \<subseteq> vis'" "set c = insert u (vis' - insert u vis)"
      "\<forall>x \<in> vis'. set (?N x) \<subseteq> vis'" "set c \<subseteq> reachable ?N u" by auto
    have uV: "u \<in> V" using Cons.prems(1) by simp
    have RV: "reachable ?N x \<subseteq> V" if "x \<in> V" for x using reachable_closed [of x V ?N] sym that by blast
    have symr: "x \<in> reachable ?N y \<longleftrightarrow> y \<in> reachable ?N x" if "x \<in> V" "y \<in> V" for x y
      using reachable_sym [of V ?N ?N] sym that by blast
    have apart: "reachable ?N u \<inter> vis = {}"
    proof (rule ccontr)
      assume "reachable ?N u \<inter> vis \<noteq> {}"
      then obtain x where x: "x \<in> reachable ?N u" "x \<in> vis" by blast
      then have "u \<in> reachable ?N x" using symr [of x u] uV Cons.prems(2) by blast
      moreover have "reachable ?N x \<subseteq> vis" using reachable_closed [of x vis ?N] x(2) Cons.prems(3) by blast
      ultimately show False using False by blast
    qed
    have "reachable ?N u \<subseteq> vis'" by (rule reachable_closed) (use c'(2,4) in auto)
    then have cR: "set c = reachable ?N u" using c'(2,3,5) apart by auto
    have eq: "set c = reachable ?N x" if "x \<in> set c" for x
    proof -
      have "x \<in> V" using that cR RV [OF uV] by blast
      then have "u \<in> reachable ?N x" "x \<in> reachable ?N u" using symr [of u x] uV that cR by auto
      then show ?thesis using reachable_trans [of u ?N x] reachable_trans [of x ?N u] cR by blast
    qed
    have v: "vis' = vis \<union> set c" using c'(2,3) by auto
    have "vis' \<subseteq> V" using v Cons.prems(2) cR RV [OF uV] by auto
    moreover have "vis' = \<Union> (set ` set (cs @ [c]))" using v Cons.prems(4) by auto
    moreover have "distinct (concat (cs @ [c]))" using Cons.prems(4,5) c'(1) cR apart by auto
    ultimately have "distinct (concat cs') \<and> set us \<union> vis' \<subseteq> set (concat cs') \<and> set (concat cs') \<subseteq> V \<and>
        (\<forall>c \<in> set cs'. \<forall>u \<in> set c. set c = reachable ?N u)"
      using Cons.IH [of vis' "cs @ [c]"] Cons.prems(1,6,7) c'(4) eq False c by auto
    then show ?thesis using c'(2) by auto
  qed
qed auto

text \<open>
  C12: the connected components of a graph built by additions and removals.  They are disjoint,
  hold every node of the graph once, and each is everything that can be reached from any of
  its nodes when directions are ignored.  The operations are those of the store invariant, and no
  identifier that is added has a newline: the iteration of nodes skips those (\<open>jdb_graph.py\<close> line 48).
\<close>

theorem components_partition:
  assumes ops: "\<forall>c \<in> set cs. op_ok c \<and> one_line c" and graph: "fold graph_step cs ({}, {}) = (V, E)"
    and s: "s = fold exec_op cs []"
  shows "distinct (concat (connected_components s)) \<and> set (concat (connected_components s)) = V \<and>
    (\<forall>c \<in> set (connected_components s). \<forall>u \<in> set c. set c = reachable (nbrs Both None s) u)"
proof -
  have rep: "represents (map_of s) V E" and nodes: "set (f_iter_nodes s) = V"
    using history_nodes [OF ops graph] by (simp_all add: s)
  have both: "set (nbrs Both None s x) = set (nbrs Out None s x) \<union> set (nbrs In None s x)" for x
    by (auto simp: nbrs_def crosses_def admits_def)
  have "x \<in> set (nbrs Both None s y) \<and> y \<in> V" if "x \<in> V" "y \<in> set (nbrs Both None s x)" for x y
    using nbrs_back [OF rep that(1), of y] that(2) unfolding both by blast
  from components_loop_partition [of V s, OF this, of "f_iter_nodes s" "{}" "[]"] show ?thesis
    using nodes by (auto simp: connected_components_def)
qed

lemma components_partition_witness:
  "connected_components demo = [[[97], [98], [99]]] \<and> reachable (nbrs Both None demo) [99] = {[97], [98], [99]}"
proof -
  have c: "connected_components demo = [[[97], [98], [99]]]" by code_simp
  then show ?thesis using components_partition [OF demo_history demo_def] by auto
qed

end
