(* ===== verification/Graph_Order.thy ===== *)
theory Graph_Order
  imports Graph_Search
begin

text \<open>
  \<open>topological_sort\<close> of \<open>omni_json_db/jdb_graph.py\<close>: one depth-first pass over all nodes,
  with the nodes on the way in a recursion stack and the finished ones in post-order.
\<close>

section \<open>Code\<close>

text \<open>
  Visited nodes, recursion stack, finished nodes; the first component of the result says that
  an edge leads back into the recursion stack.
\<close>

fun topo :: "nat \<Rightarrow> kv \<Rightarrow> gid \<Rightarrow> nat list option \<Rightarrow> gid set \<Rightarrow> gid set \<Rightarrow> gid list \<Rightarrow> (bool \<times> gid set \<times> gid set \<times> gid list) res"
  and topo_entries :: "nat \<Rightarrow> kv \<Rightarrow> gid \<Rightarrow> nat list option \<Rightarrow> nat list list \<Rightarrow> gid set \<Rightarrow> gid set \<Rightarrow> gid list
    \<Rightarrow> (bool \<times> gid set \<times> gid set \<times> gid list) res" where
  "topo 0 s u parent vis rec stack = Inl RecursionError"
| "topo (Suc n) s u parent vis rec stack =
     topo_entries n s u parent (f_get_adj u s) (insert u vis) (insert u rec) stack"
| "topo_entries n s u parent [] vis rec stack = Inr (False, vis, rec - {u}, stack @ [u])"
| "topo_entries n s u parent (e # es) vis rec stack =
     (if hd e = 60 then topo_entries n s u parent es vis rec stack
      else
        let k = edge_key u (tl e) (hd e = 62)
        in if \<not> (hd e = 45 \<and> Some k = parent) then
             (if tl e \<notin> vis then
                (case topo n s (tl e) (Some k) vis rec stack of
                   Inl x \<Rightarrow> Inl x
                 | Inr (back, vis, rec, stack) \<Rightarrow>
                     if back then Inr (True, vis, rec, stack) else topo_entries n s u parent es vis rec stack)
              else if tl e \<in> rec then Inr (True, vis, rec, stack)
              else topo_entries n s u parent es vis rec stack)
           else topo_entries n s u parent es vis rec stack)"

fun topo_nodes :: "kv \<Rightarrow> gid list \<Rightarrow> gid set \<Rightarrow> gid set \<Rightarrow> gid list \<Rightarrow> gid list res" where
  "topo_nodes s [] vis rec stack = Inr stack"
| "topo_nodes s (u # us) vis rec stack =
     (if u \<notin> vis then
        (case topo MAX_RECURSION s u None vis rec stack of
           Inl x \<Rightarrow> Inl x
         | Inr (back, vis, rec, stack) \<Rightarrow> if back then Inl JValueError else topo_nodes s us vis rec stack)
      else topo_nodes s us vis rec stack)"

definition topological_sort :: "kv \<Rightarrow> gid list res" where
  "topological_sort s = map_sum id rev (topo_nodes s (f_iter_nodes s) {} {} [])"

section \<open>Order\<close>

text \<open>Every directed edge leads to a node that finished earlier.\<close>

definition edges_back :: "kv \<Rightarrow> gid list \<Rightarrow> bool" where
  "edges_back s stack \<longleftrightarrow> (\<forall>xs x ys. stack = xs @ x # ys \<longrightarrow> (\<forall>y. 62 # y \<in> set (f_get_adj x s) \<longrightarrow> y \<in> set xs))"

lemma edges_back_snoc:
  assumes "edges_back s stack" "\<And>y. 62 # y \<in> set (f_get_adj u s) \<Longrightarrow> y \<in> set stack"
  shows "edges_back s (stack @ [u])"
  unfolding edges_back_def
proof (intro allI impI)
  fix xs x ys y assume "stack @ [u] = xs @ x # ys" "62 # y \<in> set (f_get_adj x s)"
  then show "y \<in> set xs" using assms by (cases ys rule: rev_cases) (auto simp: edges_back_def)
qed

text \<open>\<open>V\<close> bounds what is visited.\<close>

definition topo_inv :: "kv \<Rightarrow> gid set \<Rightarrow> gid set \<Rightarrow> gid set \<Rightarrow> gid list \<Rightarrow> bool" where
  "topo_inv s V vis rec stack \<longleftrightarrow> vis = rec \<union> set stack \<and> rec \<inter> set stack = {} \<and> distinct stack \<and> edges_back s stack \<and> vis \<subseteq> V"

definition out_closed :: "kv \<Rightarrow> gid set \<Rightarrow> bool" where
  "out_closed s V \<longleftrightarrow> (\<forall>x \<in> V. \<forall>e \<in> set (f_get_adj x s). hd e \<noteq> 60 \<longrightarrow> tl e \<in> V)"

lemma topo_orders:
  "out_closed s V \<Longrightarrow> topo_inv s V vis rec stack \<Longrightarrow> u \<in> V \<Longrightarrow> u \<notin> vis \<Longrightarrow> topo n s u parent vis rec stack = Inr (False, vis', rec', stack') \<Longrightarrow>
    topo_inv s V vis' rec' stack' \<and> rec' = rec \<and> set stack \<subseteq> set stack' \<and> u \<in> set stack'"
  "out_closed s V \<Longrightarrow> topo_inv s V vis rec stack \<Longrightarrow> u \<in> rec \<Longrightarrow> set es \<subseteq> set (f_get_adj u s) \<Longrightarrow>
    \<forall>y. 62 # y \<in> set (f_get_adj u s) \<longrightarrow> 62 # y \<in> set es \<or> y \<in> set stack \<Longrightarrow>
    topo_entries n s u parent es vis rec stack = Inr (False, vis', rec', stack') \<Longrightarrow>
    topo_inv s V vis' rec' stack' \<and> rec' = rec - {u} \<and> set stack \<subseteq> set stack' \<and> u \<in> set stack'"
proof (induction n s u parent vis rec stack and n s u parent es vis rec stack
    arbitrary: vis' rec' stack' and vis' rec' stack' rule: topo_topo_entries.induct)
  case (2 n s u parent vis rec stack)
  have "topo_inv s V (insert u vis) (insert u rec) stack" using 2(3-5) by (auto simp: topo_inv_def)
  from 2(1) [OF 2(2) this] have "topo_inv s V vis' rec' stack' \<and> rec' = insert u rec - {u} \<and> set stack \<subseteq> set stack' \<and> u \<in> set stack'"
    using 2(6) by auto
  then show ?case using 2(3,5) by (auto simp: topo_inv_def)
next
  case (3 n s u parent vis rec stack)
  have "edges_back s (stack @ [u])" using 3 by (intro edges_back_snoc) (auto simp: topo_inv_def)
  then show ?case using 3 by (auto simp: topo_inv_def)
next
  case (4 n s u parent e es vis rec stack)
  have V: "u \<in> V" "hd e \<noteq> 60 \<Longrightarrow> tl e \<in> V" using 4(6-9) by (auto simp: topo_inv_def out_closed_def)
  have es: "set es \<subseteq> set (f_get_adj u s)" using 4(9) by simp
  have rest: "\<forall>y. 62 # y \<in> set (f_get_adj u s) \<longrightarrow> 62 # y \<in> set es \<or> y \<in> set stk"
    if "hd e = 62 \<Longrightarrow> tl e \<in> set stk" "set stack \<subseteq> set stk" for stk using 4(10) that by auto
  define k where "k = edge_key u (tl e) (hd e = 62)"
  show ?case
  proof (cases "hd e = 60 \<or> hd e = 45 \<and> Some k = parent")
    case True
    then have "topo_entries n s u parent es vis rec stack = Inr (False, vis', rec', stack')" using 4(11) by (auto simp: k_def)
    moreover have "hd e \<noteq> 62" using True by auto
    ultimately show ?thesis using True 4(1) [OF _ 4(6-8) es] 4(5) [OF _ k_def _ 4(6-8) es] rest [of stack] by auto
  next
    case no: False
    show ?thesis
    proof (cases "tl e \<in> vis")
      case True
      then have r: "tl e \<notin> rec" "topo_entries n s u parent es vis rec stack = Inr (False, vis', rec', stack')"
        using no 4(11) by (auto simp: k_def split: if_splits)
      then have "tl e \<in> set stack" using True 4(7) by (auto simp: topo_inv_def)
      then show ?thesis using 4(4) [OF _ k_def _ _ r(1) 4(6-8) es] no r(2) True rest [of stack] by auto
    next
      case False
      then obtain vis1 rec1 stack1 where t: "topo n s (tl e) (Some k) vis rec stack = Inr (False, vis1, rec1, stack1)"
        "topo_entries n s u parent es vis1 rec1 stack1 = Inr (False, vis', rec', stack')"
        using no 4(11) by (auto simp: k_def split: sum.splits if_splits)
      have i: "topo_inv s V vis1 rec1 stack1" "rec1 = rec" "set stack \<subseteq> set stack1" "tl e \<in> set stack1"
        using 4(2) [OF _ k_def _ False 4(6,7) _ False t(1)] no V(2) by auto
      then have "topo_inv s V vis' rec' stack' \<and> rec' = rec1 - {u} \<and> set stack1 \<subseteq> set stack' \<and> u \<in> set stack'"
        using 4(3) [OF _ k_def _ False t(1) refl refl refl _ 4(6)] 4(8) es rest [of stack1] t(2) no by auto
      then show ?thesis using i(2,3) by auto
    qed
  qed
qed (auto)

section \<open>Cycles\<close>

definition cyclic :: "('v \<Rightarrow> 'v list) \<Rightarrow> 'v \<Rightarrow> bool" where
  "cyclic N u \<longleftrightarrow> (\<exists>v \<in> set (N u). u \<in> reachable N v)"

lemma out_nbrs: "set (nbrs Out None s u) = tl ` {e \<in> set (f_get_adj u s). hd e \<noteq> 60}"
  by (auto simp: nbrs_def crosses_def admits_def)

lemma topo_rec:
  "topo n s u parent vis rec stack = Inr (False, vis', rec', stack') \<Longrightarrow> rec' \<subseteq> rec"
  "topo_entries n s u parent es vis rec stack = Inr (False, vis', rec', stack') \<Longrightarrow> rec' \<subseteq> rec - {u}"
proof (induction n s u parent vis rec stack and n s u parent es vis rec stack
    arbitrary: vis' rec' stack' and vis' rec' stack' rule: topo_topo_entries.induct)
  case (2 n s u parent vis rec stack)
  then show ?case by force
next
  case (4 n s u parent e es vis rec stack)
  then show ?case by (auto simp: Let_def split: if_splits sum.splits) blast+
qed auto

text \<open>Every node of the recursion stack reaches the current one.\<close>

lemma topo_back:
  "out_closed s V \<Longrightarrow> u \<in> V \<Longrightarrow> \<forall>x \<in> rec. u \<in> reachable (nbrs Out None s) x \<Longrightarrow> topo n s u parent vis rec stack = Inr (True, st) \<Longrightarrow> \<exists>x \<in> V. cyclic (nbrs Out None s) x"
  "out_closed s V \<Longrightarrow> u \<in> V \<Longrightarrow> \<forall>x \<in> rec. u \<in> reachable (nbrs Out None s) x \<Longrightarrow> set es \<subseteq> set (f_get_adj u s) \<Longrightarrow>
    topo_entries n s u parent es vis rec stack = Inr (True, st) \<Longrightarrow> \<exists>x \<in> V. cyclic (nbrs Out None s) x"
proof (induction n s u parent vis rec stack and n s u parent es vis rec stack arbitrary: st and st rule: topo_topo_entries.induct)
  case (4 n s u parent e es vis rec stack)
  let ?N = "nbrs Out None s"
  have es: "set es \<subseteq> set (f_get_adj u s)" using 4(9) by simp
  define k where "k = edge_key u (tl e) (hd e = 62)"
  have step: "tl e \<in> set (?N u)" if "hd e \<noteq> 60" using that 4(9) by (auto simp: out_nbrs)
  show ?case
  proof (cases "hd e = 60 \<or> hd e = 45 \<and> Some k = parent")
    case True
    then have "topo_entries n s u parent es vis rec stack = Inr (True, st)" using 4(10) by (auto simp: k_def)
    then show ?thesis using True 4(1) [OF _ 4(6-8) es] 4(5) [OF _ k_def _ 4(6-8) es] by (cases st) auto
  next
    case no: False
    then have N: "tl e \<in> set (?N u)" using step by simp
    have V: "tl e \<in> V" using no 4(6,7,9) by (auto simp: out_closed_def)
    show ?thesis
    proof (cases "tl e \<in> vis")
      case True
      show ?thesis
      proof (cases "tl e \<in> rec")
        case True
        then show ?thesis using 4(7,8) N by (auto simp: cyclic_def)
      next
        case False
        then have "topo_entries n s u parent es vis rec stack = Inr (True, st)" using no True 4(10) by (auto simp: k_def)
        then show ?thesis using 4(4) [OF _ k_def _ _ False 4(6-8) es] no True by (cases st) auto
      qed
    next
      case False
      then obtain b vis1 rec1 stack1 where t: "topo n s (tl e) (Some k) vis rec stack = Inr (b, vis1, rec1, stack1)"
        using no 4(10) by (auto simp: k_def split: sum.splits)
      have reach: "\<forall>x \<in> rec. tl e \<in> reachable ?N x" using 4(8) N by (blast intro: reachable_step)
      show ?thesis
      proof (cases b)
        case True
        then show ?thesis using 4(2) [OF _ k_def _ False 4(6) V reach] t no by auto
      next
        case b: False
        then have "rec1 \<subseteq> rec" using topo_rec(1) t by simp
        then have "\<forall>x \<in> rec1. u \<in> reachable ?N x" using 4(8) by blast
        moreover have "topo_entries n s u parent es vis1 rec1 stack1 = Inr (True, st)" using no False t b 4(10) by (auto simp: k_def)
        ultimately show ?thesis using 4(3) [OF _ k_def _ False t refl refl refl b 4(6,7) _ es] no by (cases st) auto
      qed
    qed
  qed
qed auto

text \<open>Enough levels for the nodes that are left.\<close>

lemma topo_returns:
  "finite V \<Longrightarrow> out_closed s V \<Longrightarrow> topo_inv s V vis rec stack \<Longrightarrow> u \<in> V \<Longrightarrow> u \<notin> vis \<Longrightarrow> card (V - vis) < n \<Longrightarrow>
    \<exists>r. topo n s u parent vis rec stack = Inr r"
  "finite V \<Longrightarrow> out_closed s V \<Longrightarrow> topo_inv s V vis rec stack \<Longrightarrow> u \<in> rec \<Longrightarrow> set es \<subseteq> set (f_get_adj u s) \<Longrightarrow> card (V - vis) < n \<Longrightarrow>
    \<forall>y. 62 # y \<in> set (f_get_adj u s) \<longrightarrow> 62 # y \<in> set es \<or> y \<in> set stack \<Longrightarrow>
    \<exists>r. topo_entries n s u parent es vis rec stack = Inr r"
proof (induction n s u parent vis rec stack and n s u parent es vis rec stack rule: topo_topo_entries.induct)
  case (2 n s u parent vis rec stack)
  have "topo_inv s V (insert u vis) (insert u rec) stack" using 2(4-6) by (auto simp: topo_inv_def)
  moreover have "card (V - insert u vis) < n"
    using 2(2,5-7) card_Suc_Diff1 [of "V - vis" u] by (simp add: Diff_insert [of V u vis])
  ultimately show ?case using 2(1) [OF 2(2,3)] by auto
next
  case (4 n s u parent e es vis rec stack)
  have V: "u \<in> V" "hd e \<noteq> 60 \<Longrightarrow> tl e \<in> V" using 4(7-10) by (auto simp: topo_inv_def out_closed_def)
  have es: "set es \<subseteq> set (f_get_adj u s)" using 4(10) by simp
  have rest: "\<forall>y. 62 # y \<in> set (f_get_adj u s) \<longrightarrow> 62 # y \<in> set es \<or> y \<in> set stk"
    if "hd e = 62 \<Longrightarrow> tl e \<in> set stk" "set stack \<subseteq> set stk" for stk using 4(12) that by auto
  define k where "k = edge_key u (tl e) (hd e = 62)"
  show ?case
  proof (cases "hd e = 60 \<or> hd e = 45 \<and> Some k = parent")
    case True
    then have "hd e \<noteq> 62" by auto
    then show ?thesis using True 4(1) [OF _ 4(6-9) es 4(11)] 4(5) [OF _ k_def _ 4(6-9) es 4(11)] rest [of stack] by (auto simp: k_def)
  next
    case no: False
    show ?thesis
    proof (cases "tl e \<in> vis")
      case True
      have "tl e \<in> rec \<or> tl e \<in> set stack" using True 4(8) by (auto simp: topo_inv_def)
      then show ?thesis using 4(4) [OF _ k_def _ _ _ 4(6-9) es 4(11)] no True rest [of stack] by (auto simp: k_def)
    next
      case False
      then obtain b vis1 rec1 stack1 where t: "topo n s (tl e) (Some k) vis rec stack = Inr (b, vis1, rec1, stack1)"
        using 4(2) [OF _ k_def _ False 4(6-8) _ False 4(11)] no V(2) by auto
      show ?thesis
      proof (cases b)
        case True
        then show ?thesis using t no False by (auto simp: k_def)
      next
        case b: False
        have i: "topo_inv s V vis1 rec1 stack1" "rec1 = rec" "set stack \<subseteq> set stack1" "tl e \<in> set stack1"
          using topo_orders(1) [OF 4(7,8) _ False] t b no V(2) by auto
        have "vis \<subseteq> vis1" using i(1,2,3) 4(8) by (auto simp: topo_inv_def)
        then have "card (V - vis1) < n" using 4(11) card_mono [of "V - vis" "V - vis1"] 4(6) by (auto intro: le_less_trans)
        then have "\<exists>r. topo_entries n s u parent es vis1 rec1 stack1 = Inr r"
          using 4(3) [OF _ k_def _ False t refl refl refl b 4(6,7) i(1) _ es] rest [of stack1] i 4(9) no by auto
        then show ?thesis using t b no False by (auto simp: k_def)
      qed
    qed
  qed
qed auto

lemma topo_nodes_result:
  assumes fin: "finite V" and closed: "out_closed s V" and small: "card V < MAX_RECURSION"
  shows "set us \<subseteq> V \<Longrightarrow> topo_inv s V vis {} stack \<Longrightarrow>
    (case topo_nodes s us vis {} stack of
       Inl x \<Rightarrow> x = JValueError \<and> (\<exists>x \<in> V. cyclic (nbrs Out None s) x)
     | Inr stk \<Rightarrow> topo_inv s V (set stk) {} stk \<and> set us \<union> vis \<subseteq> set stk)"
proof (induction us arbitrary: vis stack)
  case Nil
  then show ?case by (auto simp: topo_inv_def)
next
  case (Cons u us)
  show ?case
  proof (cases "u \<in> vis")
    case True
    then show ?thesis using Cons.IH [of vis stack] Cons.prems by (auto split: sum.splits)
  next
    case False
    have "card (V - vis) < MAX_RECURSION" using small card_mono [OF fin, of "V - vis"] by auto
    then obtain b vis1 rec1 stack1 where t: "topo MAX_RECURSION s u None vis {} stack = Inr (b, vis1, rec1, stack1)"
      using topo_returns(1) [OF fin closed Cons.prems(2) _ False, of MAX_RECURSION None] Cons.prems(1) by auto
    show ?thesis
    proof (cases b)
      case True
      then show ?thesis using topo_back(1) [OF closed, of u "{}" MAX_RECURSION None vis stack] Cons.prems(1) t False by auto
    next
      case b: False
      have "topo_inv s V vis1 rec1 stack1 \<and> rec1 = {} \<and> set stack \<subseteq> set stack1 \<and> u \<in> set stack1"
        by (rule topo_orders(1) [OF closed Cons.prems(2) _ False]) (use t b Cons.prems(1) in auto)
      then have "topo_inv s V vis1 {} stack1" "rec1 = {}" "set stack \<subseteq> set stack1" "u \<in> set stack1" by auto
      moreover from this(1) have "vis1 = set stack1" by (simp add: topo_inv_def)
      moreover have "vis = set stack" using Cons.prems(2) by (simp add: topo_inv_def)
      ultimately show ?thesis using Cons.IH [of vis1 stack1] Cons.prems(1) False t b by (auto split: sum.splits)
    qed
  qed
qed

section \<open>The result\<close>

definition before :: "'v list \<Rightarrow> 'v \<Rightarrow> 'v \<Rightarrow> bool" where
  "before order u v \<longleftrightarrow> (\<exists>xs ys. order = xs @ u # ys \<and> v \<in> set ys)"

lemma before_rev: "edges_back s stack \<Longrightarrow> u \<in> set stack \<Longrightarrow> 62 # v \<in> set (f_get_adj u s) \<Longrightarrow> before (rev stack) u v"
proof -
  assume b: "edges_back s stack" "u \<in> set stack" "62 # v \<in> set (f_get_adj u s)"
  then obtain xs ys where x: "stack = xs @ u # ys" by (metis split_list)
  then have "v \<in> set xs" using b by (auto simp: edges_back_def)
  then show ?thesis unfolding before_def by (intro exI [of _ "rev ys"] exI [of _ "rev xs"]) (simp add: x)
qed

lemma distinct_split: "distinct (xs @ x # ys) \<Longrightarrow> xs @ x # ys = xs' @ x # ys' \<Longrightarrow> ys' = ys"
proof (induction xs arbitrary: xs')
  case Nil
  then show ?case by (cases xs') auto
next
  case (Cons a xs)
  then obtain l where l: "xs' = a # l" by (cases xs') auto
  have "distinct (xs @ x # ys)" using Cons.prems(1) by simp
  moreover have "xs @ x # ys = l @ x # ys'" using Cons.prems(2) l by simp
  ultimately show ?case by (rule Cons.IH)
qed

text \<open>An order of a relation excludes cycles in it.\<close>

lemma order_acyclic:
  assumes d: "distinct order" and all: "set order = V" and closed: "\<And>x y. x \<in> V \<Longrightarrow> y \<in> set (N x) \<Longrightarrow> before order x y"
    and u: "u \<in> V"
  shows "\<not> cyclic N u"
proof
  assume "cyclic N u"
  then obtain v where v: "v \<in> set (N u)" "u \<in> reachable N v" by (auto simp: cyclic_def)
  obtain xs ys where o: "order = xs @ u # ys" "v \<in> set ys" using closed [OF u v(1)] by (auto simp: before_def)
  have "set (N x) \<subseteq> set ys" if "x \<in> set ys" for x
  proof
    fix y assume y: "y \<in> set (N x)"
    obtain as bs where ys: "ys = as @ x # bs" using \<open>x \<in> set ys\<close> by (metis split_list)
    have "x \<in> V" using that all o(1) by auto
    from closed [OF this y] obtain xs' ys' where b: "order = xs' @ x # ys'" "y \<in> set ys'" by (auto simp: before_def)
    have "order = (xs @ u # as) @ x # bs" by (simp add: o(1) ys)
    then have "ys' = bs" using b(1) d distinct_split [of "xs @ u # as" x bs xs' ys'] by simp
    then show "y \<in> set ys" using b(2) ys by simp
  qed
  then have "reachable N v \<subseteq> set ys" using reachable_closed [of v "set ys" N] o(2) by blast
  then show False using v(2) d o(1) by auto
qed

text \<open>
  C11: the topological sort of a graph built by additions and removals, when the graph has only
  directed edges and fewer than 500 nodes (the recursion limit of the code) and no added identifier
  has a newline.  It raises its error exactly when there is a cycle, and otherwise lists every
  node of the graph once with each edge leading forward.
\<close>

theorem topological_sort_correct:
  assumes ops: "\<forall>c \<in> set cs. op_ok c \<and> one_line c" and graph: "fold graph_step cs ({}, {}) = (V, E)"
    and s: "s = fold exec_op cs []"
    and small: "card V < MAX_RECURSION" and directed: "\<forall>e \<in> E. fst e"
  shows "if \<exists>u \<in> V. cyclic (nbrs Out None s) u then topological_sort s = Inl JValueError
    else \<exists>order. topological_sort s = Inr order \<and> distinct order \<and> set order = V \<and> (\<forall>(d, u, v) \<in> E. before order u v)"
proof -
  have rep: "represents (map_of s) V E" and nodes: "set (f_iter_nodes s) = V"
    using history_nodes [OF ops graph] by (simp_all add: s)
  note D = representsD [OF rep]
  have adj: "set (f_get_adj u s) = incident E u" if "u \<in> V" for u using adj_entries [OF rep D(2) [OF that]] by simp
  have closed: "out_closed s V"
    using nbrs_back(1) [OF rep] by (fastforce simp: out_closed_def out_nbrs)
  have start: "topo_inv s V {} {} []" by (simp add: topo_inv_def edges_back_def)
  note r = topo_nodes_result [OF D(1) closed small equalityD1 [OF nodes] start]
  show ?thesis
  proof (cases "topo_nodes s (f_iter_nodes s) {} {} []")
    case (Inl x)
    then show ?thesis using r by (simp add: topological_sort_def)
  next
    case (Inr stack)
    then have i: "topo_inv s V (set stack) {} stack" "V \<subseteq> set stack" using r nodes by simp_all
    then have st: "set stack = V" "distinct stack" "edges_back s stack" by (auto simp: topo_inv_def)
    have ends: "u \<in> V" "62 # v \<in> set (f_get_adj u s)" if "(d, u, v) \<in> E" for d u v
      using that D(3) adj [of u] directed by (fastforce simp: ends_ok_def incident_mem)+
    have ord: "before (rev stack) u v" if "(d, u, v) \<in> E" for d u v
      using before_rev [OF st(3)] ends [OF that] st(1) by simp
    have "before (rev stack) x y" if xy: "x \<in> V" "y \<in> set (nbrs Out None s x)" for x y
    proof -
      have "(True, x, y) \<in> E \<or> edge_of x y False \<in> E" using nbrs_mem(1) [OF rep xy(1)] xy(2) by simp
      moreover have "edge_of x y False \<notin> E" using directed undirected_mem [OF D(3)] by fastforce
      ultimately show ?thesis using ord by blast
    qed
    then have "\<not> (\<exists>u \<in> V. cyclic (nbrs Out None s) u)" using order_acyclic [of "rev stack" V "nbrs Out None s"] st by auto
    then show ?thesis using Inr st ord by (auto simp: topological_sort_def)
  qed
qed

lemma topological_sort_correct_witness:
  "topological_sort demo = Inr [[97], [98], [99]] \<and> before [[97], [98], [99]] [97] [98 :: nat] \<and> before [[97], [98], [99]] [98] [99 :: nat] \<and>
    \<not> (cyclic (nbrs Out None demo) [97])"
proof -
  have t: "topological_sort demo = Inr [[97], [98], [99]]" by code_simp
  have "card demo_nodes < MAX_RECURSION" "\<forall>e \<in> demo_edges. fst e" by (simp_all add: MAX_RECURSION_def)
  from topological_sort_correct [OF demo_history demo_def this] show ?thesis unfolding t by (simp split: if_splits)
qed

end
