(* ===== verification/Spec2Isabelle.thy ===== *)
theory Spec2Isabelle
  imports Key_Flags Record_Revert Record_Append Record_Read File_Lock Graph_Order
begin

text \<open>
  Verification development for \<open>omni_json_db\<close>, an embedded key-value database in Python.

  \<^bold>\<open>The program.\<close>  A database is a KEY file and several VAL files.  The KEY file has a header
  and rows of one size; the first \<open>n_records\<close> rows are the live records, the others are dead
  rows, which keep older versions and free space.  A row names its key, its flags and days, and
  where the value lies: in the row itself or at an offset of a VAL file.  A key table in memory
  leads from a key to its row.  \<open>utils.py\<close> has the flags of records and the lock,
  \<open>jdb_file.py\<close> the storage drivers, \<open>jdb_codec.py\<close> the encodings, \<open>jdb_io.py\<close> the KEY file and
  the key tables, \<open>jdb_lite.py\<close> the readers, \<open>jdb.py\<close> the writers, and \<open>jdb_graph.py\<close> a graph
  database on top.  (All files are under \<open>src/omni_json_db\<close>.)

  \<^bold>\<open>From the bottom up.\<close>
  \<^item> \<open>Prelude\<close>: errors as the datatype \<open>py_error\<close>, results as \<open>py_error + 'a\<close>, Python's mix of
    \<open>int\<close> and \<open>float\<close>, association lists for dictionaries, and lemmas on lists, words and masks.
  \<^item> \<open>Key_Flags\<close> (\<open>utils.py\<close>: \<open>JKeyFlag\<close>, \<open>JFlag\<close>, \<open>conv_to_key_flags\<close>, \<open>pop_transient_flags\<close>):
    flags print and parse back, and a chmod-style string means what its tokens name.
  \<^item> \<open>Values\<close> (\<open>utils.py\<close>: \<open>deepcopy\<close>, \<open>is_value_extension\<close>): the Python values of a record.
  \<^item> \<open>Utf8\<close>, \<open>Msgpack\<close> (\<open>jdb_codec.py\<close>: \<open>_msg_pack\<close>, \<open>Unpacker\<close>, \<open>_msg_dumps\<close>, \<open>_msg_loads\<close>): the
    encoder as written on a stream refines a pure encoding, what it accepts decodes to the same
    value unless a set or a dictionary key holds tuples, and the decoder finishes on every input.
  \<^item> \<open>Day_Codec\<close> (\<open>conv_ttl\<close>, \<open>pack_days\<close>, \<open>unpack_days\<close>) and \<open>Row_Codec\<close> (\<open>JIoKEY_J/S/M/U\<close>,
    \<open>JIoVAL_*\<close>): the day field and the rows round-trip in each of their three layouts.
  \<^item> \<open>Byte_Stream\<close> (\<open>JBytesIO\<close>), \<open>Mem_Files\<close> (\<open>JMemFiles\<close>) and \<open>File_Lock\<close> (\<open>INT_Handler\<close>,
    \<open>FileLock\<close>): the stream of bytes, the driver in memory with the seventeen bytes of its lock,
    and the lock that joins the threads of a process.  The locale \<open>os_lock\<close> is what \<open>FileLock\<close>
    asks of a driver; it is interpreted by the calls of \<open>Mem_Files\<close>.  The steps of the lock leave
    out an upgrade that fails after it has given up the lock of the driver, its thread still being
    registered: \<open>failed_upgrade_loses_lock\<close> shows that the code then keeps a mode the driver no
    longer grants.
  \<^item> \<open>Row_Store\<close> (\<open>JIo.write_key\<close>, \<open>read_key\<close>, \<open>copy_key\<close>, \<open>resize_keys\<close>, \<open>write_header\<close>): the
    bytes of the KEY file hold a list of rows, and writing or copying a row, or moving all rows
    to another size in place, changes that list as it should.  The header is the JSON text that
    \<open>JIoHEAD.dumps\<close> makes of the counters; it fits its 128 bytes while the counters keep to their
    digits (\<open>counters_ok\<close>).  The locale \<open>row_format\<close> is the contract of a row codec; the
    message-pack rows of \<open>Row_Codec\<close> meet it.  The window of rows to read ahead is computed with
    integer division, where the code divides floats and rounds down.
  \<^item> \<open>Key_Table\<close> (\<open>DictKeyTable\<close>): the locale \<open>key_index\<close> and its interpretation.
  \<^item> \<open>Value_Rows\<close> (\<open>_encode_row\<close>, \<open>_decode_row\<close>): small values are packed into the row and come
    back; the value codec, the compressor and the two conversions that depend on the time zone of
    the machine (\<open>timestamp\<close>, \<open>fromtimestamp\<close>) are parameters.

  \<^bold>\<open>Records.\<close>  \<open>Record_Store\<close> is the state behind the writers (\<open>rows\<close>, \<open>n_recs\<close>, \<open>ktab\<close>, the caches,
  the VAL files, the zone of rows changed since the last sync) with the steps they share
  (\<open>_get_dead_row\<close>, \<open>_get_val_fp\<close>, \<open>_write_val\<close>).  \<open>Record_Write\<close> holds \<open>f_write\<close>, \<open>f_append\<close>,
  \<open>f_write_key_flags\<close>, \<open>f_change_days\<close> and \<open>f_read\<close>; \<open>Record_Delete\<close> holds \<open>f_delete\<close>;
  \<open>Record_Revert\<close> holds \<open>f_undelete\<close>, \<open>f_unwrite\<close> and \<open>f_rename\<close>.  The specification is a map from
  keys to contents (\<open>Record_Index\<close>: \<open>content\<close>, with the invariant that the key table indexes
  exactly the live rows, that rows share no byte, and that caches agree with the rows).
  \<open>Record_Still\<close> has the steps that only look up or read.
  \<open>Record_Space\<close>, \<open>Record_Claim\<close> and \<open>Record_Files\<close> show that what a writer is given to write on
  belongs to nobody else.  Then: a write or an append changes one key of the map exactly when it
  says so (\<open>Record_Refine\<close>, \<open>Record_Append\<close>), a read returns what was written, from the cache or
  from the row (\<open>Record_Read\<close>), a delete removes one key and an undelete brings it back when no
  session with history changed the key before, an unwrite exchanges versions, and a rename to a
  name that fits into a row moves a value (\<open>Record_Delete\<close>, \<open>Record_Revert\<close>).

  \<^bold>\<open>Graphs.\<close>  \<open>Graph_Store\<close> and \<open>Graph_Api\<close> are \<open>GraphDb\<close> over the map of records: a record is a
  pair of key and value, and the locale \<open>records\<close> is the contract of reading, writing and
  deleting one.  After any sequence of additions and removals without the node \<open>>\<close>, whose edges
  the code misreads (\<open>op_ok\<close>), the adjacency lists and the three counters are those of the graph
  of nodes and edges.  \<open>Graph_Search\<close> and \<open>Graph_Order\<close> are the
  searches: shortest paths, traversals, hop distances, descendants and ancestors, components and
  the topological sort, each against its definition on walks.  The searches over all nodes need
  node names without a line feed, because the iteration skips the others; that it then yields
  every node is derived from the history of the store.

  \<^bold>\<open>Bounds and fuel.\<close>  The message-pack decoder recurses on a fuel of one more than the length of
  the data, which is never used up; the limit Python puts on recursion is not modelled.  \<open>acquire\<close> of the lock returns, raises or waits within two
  rounds of its loop, and the model runs two.  \<open>write_key\<close> calls itself for a resize, at nesting
  depth two at most.  The retry of decompression runs at most eight times, as in the code.  The
  limit of 500 levels of the graph searches is the code's own (\<open>MAX_RECURSION\<close>).  Loops over
  queues and frontiers end because every round marks a node, so they are total functions.
  Key rows are words of 32 and 64 bits where the code packs them, and unbounded integers where
  Python has them.  Floats are exact rationals in the day codec and bit patterns elsewhere.

  \<^bold>\<open>Assumptions.\<close>  JSON, marshal, pickle, a developer's codec and the compressors are parameters;
  theorems that need them assume that they read back what they write, where JSON reads a tuple or
  a set as a list and marshal reads a tuple as a tuple.  A writer runs inside a
  session that holds the write lock, and the clock stands still during one call.  The record
  level has no rounding of days and takes for granted that a row can be encoded and fits its size:
  \<open>Row_Codec\<close> and \<open>Row_Store\<close> show when that is so (\<open>write_key_row_day_ok\<close>, \<open>row_size_bound\<close>), and
  what \<open>write_key\<close> does with a longer name (\<open>oversized_key\<close>).  A link is answered with its target, which the caller would follow; the
  handles of groups are outside.  The graph level ignores flags; the rows that order the deletions
  of \<open>f_remove_node\<close> are not part of it, so its result is a set of deleted records in another order.

  \<^bold>\<open>Not modelled.\<close>  Files on disk and their locks, sockets, servers and client proxies (input and
  output around the same driver interface); dataclass mapping (reflection); the query language;
  sessions, bulk updates, iteration, links between databases, backup and history of \<open>jdb.py\<close> and
  \<open>jdb_lite.py\<close>; bulk loading of the KEY file and the packed key tables of \<open>jdb_io.py\<close>; text rows
  and YAML; Dijkstra's search, cycle listing, strong components and centrality of \<open>jdb_graph.py\<close>.
\<close>

end
